(* ===== verification/Zl_Prelude.thy ===== *)
theory Zl_Prelude
  imports Main "HOL-Library.Word"
begin

text \<open>
  The prelude of the development: results of fallible operations, the bit operations of
  Python's unbounded integers on \<open>int\<close>, and the generic lemmas on lists and bits the
  components share.  A Python function that may raise is modelled by a function into
  \<open>'e + 'a\<close>: \<open>Inl\<close> carries the exception, \<open>Inr\<close> the value; \<open>bindE\<close> is
  sequencing and \<open>mapE\<close> is a loop over a sequence that stops at the first exception.
\<close>

unbundle bit_operations_syntax

named_theorems bits_simps \<open>Python's bit operations as arithmetic on integers\<close>

section \<open>Results\<close>

type_synonym ('e, 'a) result = "'e + 'a"

fun bindE :: "'e + 'a \<Rightarrow> ('a \<Rightarrow> 'e + 'b) \<Rightarrow> 'e + 'b" where
  "bindE (Inl e) f = Inl e"
| "bindE (Inr x) f = f x"

fun mapE :: "('a \<Rightarrow> 'e + 'b) \<Rightarrow> 'a list \<Rightarrow> 'e + 'b list" where
  "mapE f [] = Inr []"
| "mapE f (x # xs) = bindE (f x) (\<lambda>y. bindE (mapE f xs) (\<lambda>ys. Inr (y # ys)))"

fun foldE :: "('a \<Rightarrow> 's \<Rightarrow> 'e + 's) \<Rightarrow> 'a list \<Rightarrow> 's \<Rightarrow> 'e + 's" where
  "foldE f [] s = Inr s"
| "foldE f (x # xs) s = bindE (f x s) (foldE f xs)"

definition is_ok :: "'e + 'a \<Rightarrow> bool" where
  "is_ok r = (case r of Inl _ \<Rightarrow> False | Inr _ \<Rightarrow> True)"

definition guardE :: "bool \<Rightarrow> 'e \<Rightarrow> ('e, unit) result" where
  "guardE b e = (if b then Inr () else Inl e)"

lemma is_ok_simps [simp]: "is_ok (Inr x)" "\<not> is_ok (Inl e)"
  by (simp_all add: is_ok_def)

lemma is_ok_iff: "is_ok r \<longleftrightarrow> (\<exists>x. r = Inr x)"
  by (cases r) auto

lemma bindE_Inr_iff [simp]: "bindE r f = Inr y \<longleftrightarrow> (\<exists>x. r = Inr x \<and> f x = Inr y)"
  by (cases r) auto

lemma bindE_cong [fundef_cong]:
  "r = r' \<Longrightarrow> (\<And>x. r' = Inr x \<Longrightarrow> f x = g x) \<Longrightarrow> bindE r f = bindE r' g"
  by (cases r') auto

lemma mapE_cong [fundef_cong]:
  "xs = ys \<Longrightarrow> (\<And>x. x \<in> set ys \<Longrightarrow> f x = g x) \<Longrightarrow> mapE f xs = mapE g ys"
  by (induction xs arbitrary: ys) auto

lemma foldE_cong [fundef_cong]:
  "xs = ys \<Longrightarrow> s = s' \<Longrightarrow> (\<And>x u. x \<in> set ys \<Longrightarrow> f x u = g x u) \<Longrightarrow> foldE f xs s = foldE g ys s'"
proof (induction xs arbitrary: ys s s')
  case (Cons x xs)
  then show ?case by (cases "g x s'") auto
qed auto

lemma bindE_Inl_iff: "bindE r f = Inl e \<longleftrightarrow> r = Inl e \<or> (\<exists>x. r = Inr x \<and> f x = Inl e)"
  by (cases r) auto

text \<open>An invariant kept by every step of a loop is kept by the loop.\<close>

lemma foldE_invariant:
  assumes "foldE f xs s = Inr s'" "I s" "\<And>x u u'. x \<in> set xs \<Longrightarrow> I u \<Longrightarrow> f x u = Inr u' \<Longrightarrow> I u'"
  shows "I s'"
  using assms by (induction xs arbitrary: s) auto

lemma foldE_append: "foldE f (xs @ ys) s = bindE (foldE f xs s) (foldE f ys)"
proof (induction xs arbitrary: s)
  case (Cons x xs)
  then show ?case by (cases "f x s") auto
qed simp

lemma guardE_Inr_iff [simp]: "guardE b e = Inr u \<longleftrightarrow> b"
  by (auto simp: guardE_def)

lemma mapE_Inr_iff: "mapE f xs = Inr ys \<longleftrightarrow> list_all2 (\<lambda>x y. f x = Inr y) xs ys"
  by (induction xs arbitrary: ys) (auto simp: list_all2_Cons1)

lemma mapE_Inr_map: "(\<And>x. x \<in> set xs \<Longrightarrow> f x = Inr (g x)) \<Longrightarrow> mapE f xs = Inr (map g xs)"
  by (induction xs) auto

lemma mapE_Inr_length: "mapE f xs = Inr ys \<Longrightarrow> length ys = length xs"
  by (auto simp: mapE_Inr_iff dest: list_all2_lengthD)

lemma mapE_Inr_nth: "mapE f xs = Inr ys \<Longrightarrow> i < length xs \<Longrightarrow> f (xs ! i) = Inr (ys ! i)"
  by (auto simp: mapE_Inr_iff dest: list_all2_nthD)

lemma mapE_Inr_ex: "(\<And>x. x \<in> set xs \<Longrightarrow> \<exists>y. f x = Inr y) \<Longrightarrow> \<exists>ys. mapE f xs = Inr ys"
  by (induction xs) auto

lemma mapE_append:
  "mapE f (xs @ ys) = bindE (mapE f xs) (\<lambda>us. bindE (mapE f ys) (\<lambda>vs. Inr (us @ vs)))"
proof (induction xs)
  case Nil
  then show ?case by (cases "mapE f ys") auto
next
  case (Cons x xs)
  then show ?case
    by (cases "f x"; cases "mapE f xs"; cases "mapE f ys") auto
qed

section \<open>Python's bit operations\<close>

text \<open>\<open>(1 << w) - 1\<close>, \<open>v & mask\<close>, \<open>v >> n\<close>, \<open>v << n\<close> and \<open>int.bit_length\<close>.\<close>

definition ones :: "nat \<Rightarrow> int" where
  "ones w = 2 ^ w - 1"

definition shl :: "int \<Rightarrow> nat \<Rightarrow> int" where
  "shl v n = v * 2 ^ n"

definition shr :: "int \<Rightarrow> nat \<Rightarrow> int" where
  "shr v n = v div 2 ^ n"

function bit_length :: "int \<Rightarrow> nat" where
  "bit_length v = (if v = 0 then 0 else if v < 0 then bit_length (- v) else Suc (bit_length (v div 2)))"
  by pat_completeness auto
termination
  by (relation "measure (\<lambda>v. if v < 0 then Suc (nat (- v)) else nat v)") auto

declare bit_length.simps [simp del]

lemma and_ones [bits_simps]: "v AND ones w = v mod 2 ^ w"
  by (simp add: ones_def flip: take_bit_eq_mod mask_eq_exp_minus_1 take_bit_eq_mask)

lemma ones_nonneg [simp]: "0 \<le> ones w"
  by (simp add: ones_def)

lemma le_ones_iff: "v \<le> ones w \<longleftrightarrow> v < 2 ^ w"
  by (auto simp: ones_def)

lemma shr_shl [bits_simps]: "shr (shl v n) n = v"
  by (simp add: shr_def shl_def)

lemma bit_length_0 [simp]: "bit_length 0 = 0"
  by (simp add: bit_length.simps)

lemma bit_length_neg: "bit_length (- v) = bit_length v"
  by (cases v rule: linorder_cases [of _ 0])
    (simp_all add: bit_length.simps [of v] bit_length.simps [of "- v"])

lemma bit_length_pos: "0 < v \<Longrightarrow> bit_length v = Suc (bit_length (v div 2))"
  by (subst bit_length.simps) simp

text \<open>\<open>bit_length v\<close> is the least width that holds a non-negative \<open>v\<close>.\<close>

lemma bit_length_le_iff: "0 \<le> v \<Longrightarrow> bit_length v \<le> w \<longleftrightarrow> v < 2 ^ w"
proof (induction w arbitrary: v)
  case 0
  then show ?case by (cases "v = 0") (auto simp: bit_length_pos)
next
  case (Suc w)
  show ?case
  proof (cases "v = 0")
    case True
    then show ?thesis by simp
  next
    case False
    with Suc.prems have "bit_length v = Suc (bit_length (v div 2))" by (simp add: bit_length_pos)
    moreover have "bit_length (v div 2) \<le> w \<longleftrightarrow> v div 2 < 2 ^ w"
      using Suc by (simp add: pos_imp_zdiv_nonneg_iff)
    moreover have "v div 2 < 2 ^ w \<longleftrightarrow> v < 2 ^ Suc w" by auto
    ultimately show ?thesis by simp
  qed
qed

lemma less_exp_bit_length: "0 \<le> v \<Longrightarrow> v < 2 ^ bit_length v"
  by (simp flip: bit_length_le_iff)

text \<open>\<open>a | (b << n)\<close> where \<open>a\<close> fits \<open>n\<close> bits is addition.\<close>

lemma or_shl_add [bits_simps]:
  fixes a b :: int
  assumes "0 \<le> a" "a < 2 ^ n"
  shows "a OR shl b n = a + b * 2 ^ n" and "shl b n OR a = a + b * 2 ^ n"
proof -
  have "a AND push_bit n b = 0"
  proof (rule bit_eqI)
    fix k
    have "bit a k \<Longrightarrow> k < n"
      using assms by (metis bit_take_bit_iff take_bit_int_eq_self)
    then show "bit (a AND push_bit n b) k = bit 0 k"
      by (auto simp: bit_and_iff bit_push_bit_iff)
  qed
  then have "a OR push_bit n b = a + push_bit n b"
    by (simp only: disjunctive_add_eq_or)
  then show "a OR shl b n = a + b * 2 ^ n"
    by (simp add: shl_def push_bit_eq_mult)
  then show "shl b n OR a = a + b * 2 ^ n"
    by (simp add: or.commute)
qed

lemma split_mod_div:
  fixes a b :: int
  assumes "0 \<le> a" "a < 2 ^ n"
  shows "(a + b * 2 ^ n) mod 2 ^ n = a" and "(a + b * 2 ^ n) div 2 ^ n = b"
  using assms by simp_all

section \<open>Lists\<close>

lemma sum_list_pos: "xs \<noteq> [] \<Longrightarrow> (\<And>x. x \<in> set xs \<Longrightarrow> 0 < f x) \<Longrightarrow> 0 < sum_list (map f xs)" for f :: "'a \<Rightarrow> nat"
  by (cases xs) auto

lemma map_of_distinct_nth:
  "distinct (map fst xs) \<Longrightarrow> i < length xs \<Longrightarrow> map_of xs (fst (xs ! i)) = Some (snd (xs ! i))"
  by (simp add: map_of_eq_Some_iff)

lemma list_all2_map_same: "list_all2 P xs (map f xs) \<longleftrightarrow> (\<forall>x\<in>set xs. P x (f x))"
  by (induction xs) auto

lemma size_zip_right [termination_simp]:
  "(a, b) \<in> set (zip xs ys) \<Longrightarrow> f b < Suc (size_list f ys)"
  by (metis less_Suc_eq_le set_zip_rightD size_list_estimation' order_refl)

lemma list_all_zip_iff:
  "length xs = length ys \<Longrightarrow> (\<forall>p\<in>set (zip xs ys). P (fst p) (snd p)) \<longleftrightarrow> list_all2 P xs ys"
  by (auto simp: list_all2_iff)

section \<open>Dictionaries built in order\<close>

text \<open>
  A dict display or comprehension inserts its items in order; a repeated key keeps its
  position and takes the later value.
\<close>

fun dict_set :: "'k \<Rightarrow> 'v \<Rightarrow> ('k \<times> 'v) list \<Rightarrow> ('k \<times> 'v) list" where
  "dict_set k v [] = [(k, v)]"
| "dict_set k v (p # ps) = (if fst p = k then (k, v) # ps else p # dict_set k v ps)"

definition dict_of :: "('k \<times> 'v) list \<Rightarrow> ('k \<times> 'v) list" where
  "dict_of kvs = foldl (\<lambda>m p. dict_set (fst p) (snd p) m) [] kvs"

lemma dict_set_fresh: "k \<notin> fst ` set ps \<Longrightarrow> dict_set k v ps = ps @ [(k, v)]"
  by (induction ps) auto

lemma dict_of_distinct [simp]: "distinct (map fst kvs) \<Longrightarrow> dict_of kvs = kvs"
proof -
  have "distinct (map fst (acc @ kvs)) \<Longrightarrow>
      foldl (\<lambda>m p. dict_set (fst p) (snd p) m) acc kvs = acc @ kvs" for acc
    by (induction kvs arbitrary: acc) (auto simp: dict_set_fresh)
  from this [of "[]"] show "distinct (map fst kvs) \<Longrightarrow> dict_of kvs = kvs"
    by (simp add: dict_of_def)
qed

lemma map_of_dict_set: "map_of (dict_set k v ps) = (map_of ps)(k \<mapsto> v)"
  by (induction ps) auto

text \<open>A set that is iterated over, as a duplicate-free list in insertion order.\<close>

definition set_add :: "'a \<Rightarrow> 'a list \<Rightarrow> 'a list" where
  "set_add x xs = (if x \<in> set xs then xs else xs @ [x])"

lemma set_set_add [simp]: "set (set_add x xs) = insert x (set xs)"
  by (auto simp: set_add_def)

lemma distinct_set_add [simp]: "distinct (set_add x xs) \<longleftrightarrow> distinct xs"
  by (auto simp: set_add_def)

lemma keys_dict_set: "map fst (dict_set k v ps) = set_add k (map fst ps)"
  by (induction ps) (auto simp: set_add_def)

lemma div_exp_less: "(r::int) < 2 ^ m * 2 ^ w \<Longrightarrow> r div 2 ^ w < 2 ^ m"
proof -
  assume r: "r < 2 ^ m * 2 ^ w"
  have "r div 2 ^ w * 2 ^ w \<le> r"
    by (metis div_mult_mod_eq le_add_same_cancel1 pos_mod_sign zero_less_numeral zero_less_power)
  with r have "r div 2 ^ w * 2 ^ w < 2 ^ m * 2 ^ w" by linarith
  then show "r div 2 ^ w < 2 ^ m" by simp
qed

lemma map_of_rev_distinct: "distinct (map fst xs) \<Longrightarrow> map_of (rev xs) = map_of xs"
  by (subst map_of_inject_set) (simp_all add: rev_map [symmetric])

end
