(* ===== verification/Graph.thy ===== *)
theory Graph
  imports Zl_Prelude
begin

text \<open>
  The graph algorithms of \<open>zlang/common/graph.py\<close>: the dependency-first order
  \<open>dependency_postorder\<close> with its reported cycles, the worklist search \<open>reachable\<close>, and
  the query object \<open>ReachabilityIndex\<close> with its memoised descendants and the cycle test of
  its constructor.  A successor callable is a function to lists; Python's sets are
  duplicate-free lists in insertion order where the code iterates over them (the results
  below mention only the edge relation, so they do not depend on that order).  The recursion
  of \<open>visit\<close> is bounded by a recursion limit as in Python; the worklist loops may run for
  ever on an infinite graph and are partial functions.
\<close>

section \<open>The edge relation of a successor function\<close>

definition edge_rel :: "('a \<Rightarrow> 'a list) \<Rightarrow> ('a \<times> 'a) set" where
  "edge_rel succ = {(a, b). b \<in> set (succ a)}"

lemma edge_rel_iff [simp]: "(a, b) \<in> edge_rel succ \<longleftrightarrow> b \<in> set (succ a)"
  by (simp add: edge_rel_def)

text \<open>A list in which every node stands after all its successors.\<close>

definition dependency_first :: "('a \<Rightarrow> 'a list) \<Rightarrow> 'a list \<Rightarrow> bool" where
  "dependency_first succ ns \<longleftrightarrow> distinct ns \<and> (\<forall>i<length ns. set (succ (ns ! i)) \<subseteq> set (take i ns))"

text \<open>A path that returns to its first node and meets no other node twice.\<close>

definition closed_path :: "('a \<Rightarrow> 'a list) \<Rightarrow> 'a list \<Rightarrow> bool" where
  "closed_path succ c \<longleftrightarrow> 2 \<le> length c \<and> hd c = last c \<and> distinct (butlast c) \<and>
     successively (\<lambda>a b. b \<in> set (succ a)) c"

lemma dependency_first_Nil [simp]: "dependency_first succ []"
  by (simp add: dependency_first_def)

lemma dependency_first_snoc:
  "dependency_first succ (ns @ [n]) \<longleftrightarrow>
     dependency_first succ ns \<and> n \<notin> set ns \<and> set (succ n) \<subseteq> set ns"
  by (auto simp: dependency_first_def nth_append less_Suc_eq all_conj_distrib)

lemma dependency_first_closed:
  "dependency_first succ ns \<Longrightarrow> a \<in> set ns \<Longrightarrow> b \<in> set (succ a) \<Longrightarrow> b \<in> set ns"
  by (metis dependency_first_def in_set_conv_nth in_set_takeD subsetD)

lemma dependency_first_reach:
  "(a, b) \<in> (edge_rel succ)\<^sup>* \<Longrightarrow> dependency_first succ ns \<Longrightarrow> a \<in> set ns \<Longrightarrow> b \<in> set ns"
  by (induction rule: rtrancl_induct) (auto dest: dependency_first_closed)

lemma dependency_first_step:
  assumes "dependency_first succ ns" "j < length ns" "b \<in> set (succ (ns ! j))"
  shows "\<exists>i<j. ns ! i = b"
proof -
  have "b \<in> set (take j ns)" using assms by (auto simp: dependency_first_def)
  then show ?thesis using assms(2) by (auto simp: in_set_conv_nth)
qed

lemma dependency_first_trancl:
  assumes "(a, b) \<in> (edge_rel succ)\<^sup>+" "dependency_first succ ns" "j < length ns" "ns ! j = a"
  shows "\<exists>i<j. ns ! i = b"
  using assms
proof (induction rule: trancl_induct)
  case (base y)
  then show ?case using dependency_first_step [of succ ns j y] by auto
next
  case (step y z)
  then obtain i where i: "i < j" "ns ! i = y" by blast
  then have "i < length ns" using step.prems by simp
  then obtain h where "h < i" "ns ! h = z"
    using dependency_first_step [OF step.prems(1)] step.hyps i by force
  then show ?case using i less_trans by blast
qed

lemma dependency_first_irrefl:
  assumes "dependency_first succ ns" "a \<in> set ns"
  shows "(a, a) \<notin> (edge_rel succ)\<^sup>+"
proof
  assume c: "(a, a) \<in> (edge_rel succ)\<^sup>+"
  obtain j where j: "j < length ns" "ns ! j = a" using assms(2) by (auto simp: in_set_conv_nth)
  obtain i where "i < j" "ns ! i = a" using dependency_first_trancl [OF c assms(1) j] by blast
  then show False using j assms(1) by (auto simp: dependency_first_def distinct_conv_nth)
qed

lemma successively_reach:
  "successively (\<lambda>a b. b \<in> set (succ a)) (c @ [d]) \<Longrightarrow> c \<noteq> [] \<Longrightarrow> (hd c, d) \<in> (edge_rel succ)\<^sup>+"
proof (induction c)
  case (Cons a c)
  show ?case
  proof (cases c)
    case Nil
    then show ?thesis using Cons.prems by auto
  next
    case (Cons b e)
    then have "(hd c, d) \<in> (edge_rel succ)\<^sup>+" "b \<in> set (succ a)" using Cons.IH Cons.prems by auto
    then show ?thesis using Cons by (auto intro: trancl_into_trancl2)
  qed
qed simp

lemma closed_path_cycle:
  assumes "closed_path succ c"
  shows "(hd c, hd c) \<in> (edge_rel succ)\<^sup>+"
proof -
  have ne: "c \<noteq> []" "butlast c \<noteq> []" using assms by (cases c; auto simp: closed_path_def)+
  then have c: "c = butlast c @ [last c]" by simp
  have "successively (\<lambda>a b. b \<in> set (succ a)) (butlast c @ [last c])"
    using assms ne by (simp add: closed_path_def)
  then have "(hd (butlast c), last c) \<in> (edge_rel succ)\<^sup>+" using successively_reach ne by metis
  moreover have "hd (butlast c) = hd c" using ne by (cases c) auto
  ultimately show ?thesis using assms by (simp add: closed_path_def)
qed

section \<open>Finite graphs\<close>

text \<open>What the algorithms need to finish: a finite set of nodes closed under successors.\<close>

locale finite_graph =
  fixes succ :: "'a \<Rightarrow> 'a list" and V :: "'a set"
  assumes finite_nodes: "finite V"
    and closed_nodes: "v \<in> V \<Longrightarrow> set (succ v) \<subseteq> V"
begin

lemma reach_in: "(a, b) \<in> (edge_rel succ)\<^sup>* \<Longrightarrow> a \<in> V \<Longrightarrow> b \<in> V"
  by (induction rule: rtrancl_induct) (use closed_nodes in auto)

lemma reach_set_finite: "a \<in> V \<Longrightarrow> finite ((edge_rel succ)\<^sup>* `` {a})"
  by (rule finite_subset [OF _ finite_nodes]) (auto dest: reach_in)

lemma path_length:
  assumes "distinct p" "set p \<subseteq> V"
  shows "length p \<le> card V"
  using card_mono [OF finite_nodes assms(2)] distinct_card [OF assms(1)] by simp

end

section \<open>Dependency-first order\<close>

text \<open>\<open>DependencyCycle\<close> carries the closed path; Python's recursion limit is the other exception.\<close>

datatype 'a traversal_error = DependencyCycle "'a list" | RecursionLimit

record 'a traversal =
  ordered :: "'a list"
  complete :: "'a set"
  active :: "'a list"
  active_set :: "'a set"

definition start_traversal :: "'a traversal" where
  "start_traversal = \<lparr>ordered = [], complete = {}, active = [], active_set = {}\<rparr>"

definition enter :: "'a \<Rightarrow> 'a traversal \<Rightarrow> 'a traversal" where
  "enter n s = s\<lparr>active := active s @ [n], active_set := insert n (active_set s)\<rparr>"

definition leave :: "'a \<Rightarrow> 'a traversal \<Rightarrow> 'a traversal" where
  "leave n s = s\<lparr>active := butlast (active s), active_set := active_set s - {n},
     complete := insert n (complete s), ordered := ordered s @ [n]\<rparr>"

fun visit :: "('a \<Rightarrow> 'a list) \<Rightarrow> nat \<Rightarrow> 'a \<Rightarrow> 'a traversal \<Rightarrow> 'a traversal_error + 'a traversal" where
  "visit succ 0 n s = Inl RecursionLimit"
| "visit succ (Suc k) n s =
    (if n \<in> complete s then Inr s
     else if n \<in> active_set s
     then Inl (DependencyCycle (dropWhile (\<lambda>a. a \<noteq> n) (active s) @ [n]))
     else bindE (foldE (visit succ k) (succ n) (enter n s)) (\<lambda>s'. Inr (leave n s')))"

definition dependency_postorder ::
    "('a \<Rightarrow> 'a list) \<Rightarrow> nat \<Rightarrow> 'a list \<Rightarrow> 'a traversal_error + 'a list" where
  "dependency_postorder succ limit roots =
     bindE (foldE (visit succ limit) roots start_traversal) (\<lambda>s. Inr (ordered s))"

text \<open>The traversal invariant: what is complete, what is on the active path, and the path itself.\<close>

definition traversal_ok :: "('a \<Rightarrow> 'a list) \<Rightarrow> 'a traversal \<Rightarrow> bool" where
  "traversal_ok succ s \<longleftrightarrow> dependency_first succ (ordered s) \<and> complete s = set (ordered s) \<and>
     active_set s = set (active s) \<and> distinct (active s) \<and> set (active s) \<inter> set (ordered s) = {} \<and>
     successively (\<lambda>a b. b \<in> set (succ a)) (active s)"

definition next_ok :: "('a \<Rightarrow> 'a list) \<Rightarrow> 'a \<Rightarrow> 'a traversal \<Rightarrow> bool" where
  "next_ok succ n s \<longleftrightarrow> active s = [] \<or> n \<in> set (succ (last (active s)))"

text \<open>What one completed visit adds.\<close>

definition extends :: "('a \<Rightarrow> 'a list) \<Rightarrow> 'a set \<Rightarrow> 'a traversal \<Rightarrow> 'a traversal \<Rightarrow> bool" where
  "extends succ from s s' \<longleftrightarrow> traversal_ok succ s' \<and> active s' = active s \<and>
     (\<exists>new. ordered s' = ordered s @ new \<and> set new \<subseteq> (edge_rel succ)\<^sup>* `` from) \<and> from \<subseteq> set (ordered s')"

lemma start_ok: "traversal_ok succ start_traversal" "next_ok succ n start_traversal"
  by (simp_all add: traversal_ok_def start_traversal_def next_ok_def)

lemma enter_ok:
  "traversal_ok succ s \<Longrightarrow> next_ok succ n s \<Longrightarrow> n \<notin> complete s \<Longrightarrow> n \<notin> active_set s \<Longrightarrow>
     traversal_ok succ (enter n s)"
  by (auto simp: traversal_ok_def enter_def next_ok_def successively_append_iff)

lemma leave_ok:
  assumes ok: "traversal_ok succ s'" and "active s' = active s @ [n]" and "set (succ n) \<subseteq> set (ordered s')"
  shows "traversal_ok succ (leave n s')"
proof -
  have "n \<notin> set (active s)" "n \<notin> set (ordered s')" "active_set s' - {n} = set (active s)"
    using assms by (auto simp: traversal_ok_def)
  then show ?thesis
    using assms by (auto simp: traversal_ok_def leave_def dependency_first_snoc successively_append_iff)
qed

lemma extends_trans:
  assumes "extends succ A s s'" "extends succ B s' s''"
  shows "extends succ (A \<union> B) s s''"
proof -
  obtain n1 n2 where "ordered s' = ordered s @ n1" "set n1 \<subseteq> (edge_rel succ)\<^sup>* `` A"
    "ordered s'' = ordered s' @ n2" "set n2 \<subseteq> (edge_rel succ)\<^sup>* `` B"
    using assms unfolding extends_def by blast
  then have o: "ordered s'' = ordered s @ (n1 @ n2)" and "set (n1 @ n2) \<subseteq> (edge_rel succ)\<^sup>* `` (A \<union> B)"
    by auto
  then have "\<exists>new. ordered s'' = ordered s @ new \<and> set new \<subseteq> (edge_rel succ)\<^sup>* `` (A \<union> B)"
    by blast
  moreover have "A \<union> B \<subseteq> set (ordered s'')" using assms by (auto simp: extends_def)
  ultimately show ?thesis using assms by (simp add: extends_def)
qed

lemma extends_refl: "traversal_ok succ s \<Longrightarrow> A \<subseteq> set (ordered s) \<Longrightarrow> extends succ A s s"
  by (auto simp: extends_def)

lemma foldE_extends:
  assumes "foldE (visit succ k) ns s = Inr s'" "traversal_ok succ s" "\<forall>n\<in>set ns. next_ok succ n s"
    and "\<And>n s s'. visit succ k n s = Inr s' \<Longrightarrow> traversal_ok succ s \<Longrightarrow> next_ok succ n s \<Longrightarrow>
      extends succ {n} s s'"
  shows "extends succ (set ns) s s'"
  using assms(1,2,3)
proof (induction ns arbitrary: s)
  case Nil
  then show ?case by (simp add: extends_refl)
next
  case (Cons n ns)
  then obtain u where u: "visit succ k n s = Inr u" "foldE (visit succ k) ns u = Inr s'" by auto
  then have e: "extends succ {n} s u" using assms(4) Cons.prems by simp
  then have "extends succ (set ns) u s'"
    using Cons u by (intro Cons.IH) (auto simp: extends_def next_ok_def)
  then show ?case using extends_trans [OF e] by simp
qed

lemma visit_extends:
  "visit succ k n s = Inr s' \<Longrightarrow> traversal_ok succ s \<Longrightarrow> next_ok succ n s \<Longrightarrow> extends succ {n} s s'"
proof (induction k arbitrary: n s s')
  case (Suc k)
  show ?case
  proof (cases "n \<in> complete s")
    case True
    then show ?thesis using Suc.prems by (auto simp: traversal_ok_def intro!: extends_refl)
  next
    case False
    then have act: "n \<notin> active_set s" using Suc.prems by (auto split: if_splits)
    then have "bindE (foldE (visit succ k) (succ n) (enter n s)) (\<lambda>s'. Inr (leave n s')) = Inr s'"
      using Suc.prems(1) False by simp
    then obtain u where u: "foldE (visit succ k) (succ n) (enter n s) = Inr u" "s' = leave n u"
      unfolding bindE_Inr_iff by blast
    have ok: "traversal_ok succ (enter n s)" using enter_ok [OF Suc.prems(2,3) False act] .
    have "\<forall>m\<in>set (succ n). next_ok succ m (enter n s)" by (simp add: next_ok_def enter_def)
    then have e: "extends succ (set (succ n)) (enter n s) u"
      by (rule foldE_extends [OF u(1) ok]) (rule Suc.IH)
    then have a: "active u = active s @ [n]" by (simp add: extends_def enter_def)
    have "traversal_ok succ s'"
      using leave_ok [of succ u s n] e a u(2) by (simp add: extends_def)
    moreover have "active s' = active s" using a u by (simp add: leave_def)
    moreover obtain new where new: "ordered u = ordered s @ new"
        "set new \<subseteq> (edge_rel succ)\<^sup>* `` set (succ n)"
      using e by (auto simp: extends_def enter_def)
    moreover have "set new \<subseteq> (edge_rel succ)\<^sup>* `` {n}"
      using new(2) by (auto dest!: subsetD intro: converse_rtrancl_into_rtrancl [where r = "edge_rel succ", OF iffD2, OF edge_rel_iff])
    ultimately show ?thesis
      using u(2) by (auto simp: extends_def leave_def)
  qed
qed simp

text \<open>A reported cycle is a closed path.\<close>

lemma closed_path_of_active:
  assumes "traversal_ok succ s" "next_ok succ n s" "n \<in> set (active s)"
  shows "closed_path succ (dropWhile (\<lambda>a. a \<noteq> n) (active s) @ [n])"
proof -
  let ?p = "dropWhile (\<lambda>a. a \<noteq> n) (active s)"
  obtain pre where a: "active s = pre @ ?p" by (metis takeWhile_dropWhile_id)
  have ne: "?p \<noteq> []" "hd ?p = n" using assms(3) hd_dropWhile [of "\<lambda>a. a \<noteq> n" "active s"] by auto
  have "last (active s) = last ?p" using a ne by (metis last_append)
  moreover have "active s \<noteq> []" using assms(3) by auto
  ultimately have "n \<in> set (succ (last ?p))" using assms(2) by (auto simp: next_ok_def)
  moreover have "successively (\<lambda>a b. b \<in> set (succ a)) ?p"
    using assms(1) a by (metis traversal_ok_def successively_append_iff)
  moreover have "distinct ?p" using assms(1) by (simp add: traversal_ok_def)
  ultimately show ?thesis
    using ne by (auto simp: closed_path_def successively_append_iff Suc_le_eq)
qed

lemma foldE_visit_cycle:
  assumes "foldE (visit succ k) ns s = Inl (DependencyCycle c)" "traversal_ok succ s"
    and "\<forall>n\<in>set ns. next_ok succ n s"
    and "\<And>n s. visit succ k n s = Inl (DependencyCycle c) \<Longrightarrow> traversal_ok succ s \<Longrightarrow> next_ok succ n s \<Longrightarrow>
      closed_path succ c"
  shows "closed_path succ c"
  using assms(1,2,3)
proof (induction ns arbitrary: s)
  case (Cons n ns)
  show ?case
  proof (cases "visit succ k n s")
    case (Inl e)
    then show ?thesis using Cons.prems assms(4) by simp
  next
    case (Inr u)
    then have e: "extends succ {n} s u" using visit_extends Cons.prems by force
    show ?thesis
      using Cons Inr e by (intro Cons.IH [of u]) (auto simp: extends_def next_ok_def)
  qed
qed simp

lemma visit_cycle:
  "visit succ k n s = Inl (DependencyCycle c) \<Longrightarrow> traversal_ok succ s \<Longrightarrow> next_ok succ n s \<Longrightarrow>
     closed_path succ c"
proof (induction k arbitrary: n s)
  case (Suc k)
  have out: "n \<notin> complete s" using Suc.prems(1) by auto
  show ?case
  proof (cases "n \<in> active_set s")
    case True
    then have "n \<in> set (active s)" "c = dropWhile (\<lambda>a. a \<noteq> n) (active s) @ [n]"
      using Suc.prems out by (auto simp: traversal_ok_def)
    then show ?thesis using closed_path_of_active [OF Suc.prems(2,3)] by simp
  next
    case False
    have ok: "traversal_ok succ (enter n s)" using enter_ok [OF Suc.prems(2,3) out False] .
    have nx: "\<forall>m\<in>set (succ n). next_ok succ m (enter n s)" by (simp add: next_ok_def enter_def)
    have "foldE (visit succ k) (succ n) (enter n s) = Inl (DependencyCycle c)"
      using Suc.prems(1) out False by (simp add: bindE_Inl_iff)
    then show ?thesis using ok nx by (rule foldE_visit_cycle) (rule Suc.IH)
  qed
qed simp

context finite_graph
begin

text \<open>A recursion limit above the number of nodes is never reached.\<close>

lemma foldE_visit_limit:
  assumes "traversal_ok succ s" "\<forall>n\<in>set ns. next_ok succ n s" "set ns \<subseteq> V" "set (active s) \<subseteq> V"
    and "card V < k + length (active s)"
    and "\<And>n s. traversal_ok succ s \<Longrightarrow> next_ok succ n s \<Longrightarrow> n \<in> V \<Longrightarrow> set (active s) \<subseteq> V \<Longrightarrow>
      card V < k + length (active s) \<Longrightarrow> visit succ k n s \<noteq> Inl RecursionLimit"
  shows "foldE (visit succ k) ns s \<noteq> Inl RecursionLimit"
  using assms(1-5)
proof (induction ns arbitrary: s)
  case (Cons n ns)
  show ?case
  proof (cases "visit succ k n s")
    case (Inl e)
    then show ?thesis using Cons.prems assms(6) [of s n] by auto
  next
    case (Inr u)
    then have "extends succ {n} s u" using visit_extends Cons.prems by force
    then have "foldE (visit succ k) ns u \<noteq> Inl RecursionLimit"
      using Cons by (intro Cons.IH) (auto simp: extends_def next_ok_def)
    then show ?thesis using Inr by simp
  qed
qed simp

lemma visit_limit:
  "traversal_ok succ s \<Longrightarrow> next_ok succ n s \<Longrightarrow> n \<in> V \<Longrightarrow> set (active s) \<subseteq> V \<Longrightarrow>
     card V < k + length (active s) \<Longrightarrow> visit succ k n s \<noteq> Inl RecursionLimit"
proof (induction k arbitrary: n s)
  case 0
  then show ?case using path_length [of "active s"] by (auto simp: traversal_ok_def)
next
  case (Suc k)
  show ?case
  proof (cases "n \<in> complete s \<or> n \<in> active_set s")
    case True
    then show ?thesis by auto
  next
    case False
    have ok: "traversal_ok succ (enter n s)" using enter_ok [OF Suc.prems(1,2)] False by simp
    have "foldE (visit succ k) (succ n) (enter n s) \<noteq> Inl RecursionLimit"
    proof (rule foldE_visit_limit [OF ok])
      show "\<forall>m\<in>set (succ n). next_ok succ m (enter n s)" by (simp add: next_ok_def enter_def)
    qed (use Suc closed_nodes in \<open>auto simp: enter_def\<close>)
    then show ?thesis using False by (simp add: bindE_Inl_iff)
  qed
qed

lemma postorder_limit:
  assumes "set roots \<subseteq> V" "card V < limit"
  shows "dependency_postorder succ limit roots \<noteq> Inl RecursionLimit"
proof -
  have "foldE (visit succ limit) roots start_traversal \<noteq> Inl RecursionLimit"
    using assms by (intro foldE_visit_limit visit_limit start_ok ballI)
      (auto simp: start_traversal_def)
  then show ?thesis by (simp add: dependency_postorder_def bindE_Inl_iff)
qed

end

lemma postorder_sound:
  assumes "dependency_postorder succ limit roots = Inr ns"
  shows "dependency_first succ ns" and "set ns = (edge_rel succ)\<^sup>* `` set roots"
proof -
  obtain s where s: "foldE (visit succ limit) roots start_traversal = Inr s" "ns = ordered s"
    using assms by (auto simp: dependency_postorder_def)
  have e: "extends succ (set roots) start_traversal s"
    by (rule foldE_extends [OF s(1)]) (simp_all add: start_ok visit_extends)
  show d: "dependency_first succ ns" using e s(2) by (simp add: extends_def traversal_ok_def)
  have "set ns \<subseteq> (edge_rel succ)\<^sup>* `` set roots"
    using e s(2) by (auto simp: extends_def start_traversal_def)
  moreover have "(edge_rel succ)\<^sup>* `` set roots \<subseteq> set ns"
    using e s(2) dependency_first_reach [OF _ d] by (auto simp: extends_def)
  ultimately show "set ns = (edge_rel succ)\<^sup>* `` set roots" ..
qed

lemma postorder_cycle:
  assumes "dependency_postorder succ limit roots = Inl (DependencyCycle c)"
  shows "closed_path succ c"
proof -
  have "foldE (visit succ limit) roots start_traversal = Inl (DependencyCycle c)"
    using assms by (simp add: dependency_postorder_def bindE_Inl_iff)
  then show ?thesis by (rule foldE_visit_cycle) (simp_all add: start_ok visit_cycle)
qed

text \<open>
  C20: on a finite graph with a recursion limit above its number of nodes,
  \<open>dependency_postorder\<close> always answers: either with exactly the nodes reachable from the
  roots, each once and after all its successors, or with a closed path that meets no node
  twice; it never runs out of recursion depth.
\<close>

theorem dependency_postorder_correct:
  assumes "finite V" "\<forall>v\<in>V. set (succ v) \<subseteq> V" "set roots \<subseteq> V" "card V < limit"
  shows "case dependency_postorder succ limit roots of
      Inr ns \<Rightarrow> dependency_first succ ns \<and> set ns = (edge_rel succ)\<^sup>* `` set roots
    | Inl (DependencyCycle c) \<Rightarrow> closed_path succ c
    | Inl RecursionLimit \<Rightarrow> False"
proof -
  have g: "finite_graph succ V" using assms by unfold_locales auto
  show ?thesis
    using finite_graph.postorder_limit [OF g assms(3,4)]
    by (auto split: sum.splits traversal_error.splits dest: postorder_sound postorder_cycle)
qed

definition demo_successors :: "nat \<Rightarrow> nat list" where
  "demo_successors n = (if n = 0 then [] else [n div 2, n - 1])"

theorem dependency_postorder_correct_witness:
  "case dependency_postorder demo_successors 9 [5, 3] of
      Inr ns \<Rightarrow> dependency_first demo_successors ns \<and>
        set ns = (edge_rel demo_successors)\<^sup>* `` set [5, 3]
    | Inl (DependencyCycle c) \<Rightarrow> closed_path demo_successors c
    | Inl RecursionLimit \<Rightarrow> False"
  by (rule dependency_postorder_correct [where V = "{..7}"])
    (auto simp: demo_successors_def)

section \<open>Worklist search\<close>

partial_function (option) reach_loop :: "('a \<Rightarrow> 'a list) \<Rightarrow> 'a \<Rightarrow> 'a list \<Rightarrow> 'a set \<Rightarrow> bool option" where
  "reach_loop succ target pending visited =
    (if pending = [] then Some False
     else if last pending = target then Some True
     else if last pending \<in> visited then reach_loop succ target (butlast pending) visited
     else reach_loop succ target (butlast pending @ succ (last pending)) (insert (last pending) visited))"

definition reachable :: "'a \<Rightarrow> 'a \<Rightarrow> ('a \<Rightarrow> 'a list) \<Rightarrow> bool option" where
  "reachable source target succ = reach_loop succ target [source] {}"

partial_function (option) descend_loop :: "('a \<Rightarrow> 'a list) \<Rightarrow> 'a list \<Rightarrow> 'a set \<Rightarrow> 'a set option" where
  "descend_loop succ pending visited =
    (if pending = [] then Some visited
     else if last pending \<in> visited then descend_loop succ (butlast pending) visited
     else descend_loop succ (butlast pending @ succ (last pending)) (insert (last pending) visited))"

text \<open>The search state: every successor of a visited node is visited or pending.\<close>

definition search_ok :: "('a \<Rightarrow> 'a list) \<Rightarrow> 'a list \<Rightarrow> 'a set \<Rightarrow> bool" where
  "search_ok succ pending visited \<longleftrightarrow> (\<forall>v\<in>visited. set (succ v) \<subseteq> visited \<union> set pending)"

lemma pending_split: "p \<noteq> [] \<Longrightarrow> set p = insert (last p) (set (butlast p))"
  by (cases p rule: rev_cases) auto

lemma search_ok_skip: "search_ok succ p v \<Longrightarrow> p \<noteq> [] \<Longrightarrow> last p \<in> v \<Longrightarrow> search_ok succ (butlast p) v"
  using pending_split [of p] unfolding search_ok_def by (metis Un_insert_right Un_insert_left insert_absorb)

lemma search_ok_expand:
  "search_ok succ p v \<Longrightarrow> p \<noteq> [] \<Longrightarrow> search_ok succ (butlast p @ succ (last p)) (insert (last p) v)"
  using pending_split [of p] unfolding search_ok_def by auto

lemma reach_step:
  assumes "(a, b) \<in> (edge_rel succ)\<^sup>*" "a \<noteq> b"
  shows "\<exists>c\<in>set (succ a). (c, b) \<in> (edge_rel succ)\<^sup>*"
  using assms by (cases rule: converse_rtranclE) auto

lemma reach_from_expand:
  assumes "p \<noteq> []"
  shows "(edge_rel succ)\<^sup>* `` (set (butlast p @ succ (last p)) \<union> insert (last p) v) =
    (edge_rel succ)\<^sup>* `` (set p \<union> v)"
proof
  have "(last p, x) \<in> (edge_rel succ)\<^sup>*" if "(c, x) \<in> (edge_rel succ)\<^sup>*" "c \<in> set (succ (last p))" for c x
    using that by (meson converse_rtrancl_into_rtrancl edge_rel_iff)
  then show "(edge_rel succ)\<^sup>* `` (set (butlast p @ succ (last p)) \<union> insert (last p) v) \<subseteq>
      (edge_rel succ)\<^sup>* `` (set p \<union> v)"
    using pending_split [OF assms] by auto
  show "(edge_rel succ)\<^sup>* `` (set p \<union> v) \<subseteq>
      (edge_rel succ)\<^sup>* `` (set (butlast p @ succ (last p)) \<union> insert (last p) v)"
    using pending_split [OF assms] by auto
qed

lemma reach_from_skip:
  "p \<noteq> [] \<Longrightarrow> last p \<in> v \<Longrightarrow>
    (edge_rel succ)\<^sup>* `` (set (butlast p) \<union> v) = (edge_rel succ)\<^sup>* `` (set p \<union> v)"
  using pending_split [of p] by (metis Un_insert_left insert_absorb Un_iff)

lemma search_closed:
  "search_ok succ [] v \<Longrightarrow> (edge_rel succ)\<^sup>* `` v = v"
proof -
  assume ok: "search_ok succ [] v"
  have "b \<in> v" if "(a, b) \<in> (edge_rel succ)\<^sup>*" "a \<in> v" for a b
    using that by (induction rule: rtrancl_induct) (use ok in \<open>auto simp: search_ok_def\<close>)
  then show ?thesis by auto
qed

context finite_graph
begin

lemma search_measure:
  assumes "p \<noteq> []" "set p \<subseteq> V" "last p \<notin> v" "v \<subseteq> V"
  shows "card (V - insert (last p) v) < card (V - v)"
proof -
  have "last p \<in> V - v" using assms last_in_set by auto
  then have "card (V - v - {last p}) < card (V - v)" using finite_nodes by (intro card_Diff1_less) simp_all
  then show ?thesis by (subst Diff_insert)
qed

lemma descend_loop_correct:
  "search_ok succ p v \<Longrightarrow> set p \<subseteq> V \<Longrightarrow> v \<subseteq> V \<Longrightarrow>
    descend_loop succ p v = Some ((edge_rel succ)\<^sup>* `` (set p \<union> v))"
proof (induction "(card (V - v), length p)" arbitrary: p v rule: wf_induct_rule
    [OF wf_lex_prod [OF wf_less_than wf_less_than]])
  case 1
  show ?case
  proof (cases "p = []")
    case True
    then show ?thesis using 1 search_closed [of succ v] by (subst descend_loop.simps) auto
  next
    case ne: False
    then have lp: "last p \<in> V" using 1 by auto
    show ?thesis
    proof (cases "last p \<in> v")
      case True
      then have "descend_loop succ (butlast p) v = Some ((edge_rel succ)\<^sup>* `` (set (butlast p) \<union> v))"
        using 1 ne by (intro "1.hyps") (auto simp: search_ok_skip dest: in_set_butlastD)
      then show ?thesis using ne True reach_from_skip by (metis descend_loop.simps)
    next
      case False
      then have "descend_loop succ (butlast p @ succ (last p)) (insert (last p) v) =
          Some ((edge_rel succ)\<^sup>* `` (set (butlast p @ succ (last p)) \<union> insert (last p) v))"
        using 1 ne lp closed_nodes [OF lp] search_measure [OF ne]
        by (intro "1.hyps") (auto simp: search_ok_expand dest: in_set_butlastD)
      then show ?thesis using ne False reach_from_expand by (metis descend_loop.simps)
    qed
  qed
qed

lemma reach_loop_correct:
  "search_ok succ p v \<Longrightarrow> set p \<subseteq> V \<Longrightarrow> v \<subseteq> V \<Longrightarrow> t \<notin> v \<Longrightarrow>
    reach_loop succ t p v = Some (t \<in> (edge_rel succ)\<^sup>* `` (set p \<union> v))"
proof (induction "(card (V - v), length p)" arbitrary: p v rule: wf_induct_rule
    [OF wf_lex_prod [OF wf_less_than wf_less_than]])
  case 1
  show ?case
  proof (cases "p = []")
    case True
    then show ?thesis using 1 search_closed [of succ v] by (subst reach_loop.simps) auto
  next
    case ne: False
    then have lp: "last p \<in> V" "last p \<in> set p" using 1 by auto
    consider "last p = t" | "last p \<noteq> t" "last p \<in> v" | "last p \<noteq> t" "last p \<notin> v" by blast
    then show ?thesis
    proof cases
      case 1
      then show ?thesis using ne lp by (subst reach_loop.simps) auto
    next
      case 2
      then have "reach_loop succ t (butlast p) v = Some (t \<in> (edge_rel succ)\<^sup>* `` (set (butlast p) \<union> v))"
        using 1 ne by (intro "1.hyps") (auto simp: search_ok_skip dest: in_set_butlastD)
      then show ?thesis using ne 2 reach_from_skip by (metis reach_loop.simps)
    next
      case 3
      then have "reach_loop succ t (butlast p @ succ (last p)) (insert (last p) v) =
          Some (t \<in> (edge_rel succ)\<^sup>* `` (set (butlast p @ succ (last p)) \<union> insert (last p) v))"
        using 1 ne lp closed_nodes [OF lp(1)] search_measure [OF ne]
        by (intro "1.hyps") (auto simp: search_ok_expand dest: in_set_butlastD)
      then show ?thesis using ne 3 reach_from_expand by (metis reach_loop.simps)
    qed
  qed
qed

end

lemma reachable_correct:
  assumes "finite_graph succ V" "source \<in> V"
  shows "reachable source target succ = Some ((source, target) \<in> (edge_rel succ)\<^sup>*)"
  using finite_graph.reach_loop_correct [OF assms(1), of "[source]" "{}" target] assms(2)
  by (simp add: reachable_def search_ok_def)

section \<open>The reachability index\<close>

type_synonym 'a adjacency = "('a \<times> 'a list) list"

definition index_nodes :: "('a \<times> 'a) list \<Rightarrow> 'a list" where
  "index_nodes edges = foldl (\<lambda>ns e. set_add (snd e) (set_add (fst e) ns)) [] edges"

definition adjacency :: "('a \<times> 'a) list \<Rightarrow> 'a adjacency" where
  "adjacency edges = foldl (\<lambda>m e. dict_set (fst e)
     (set_add (snd e) (case map_of m (fst e) of None \<Rightarrow> [] | Some ts \<Rightarrow> ts)) m) [] edges"

definition adj_get :: "'a adjacency \<Rightarrow> 'a \<Rightarrow> 'a list" where
  "adj_get adj n = (case map_of adj n of None \<Rightarrow> [] | Some ts \<Rightarrow> ts)"

definition indegrees :: "'a adjacency \<Rightarrow> 'a \<Rightarrow> int" where
  "indegrees adj = foldl (\<lambda>d ts. foldl (\<lambda>d t. d(t := d t + 1)) d ts) (\<lambda>_. 0) (map snd adj)"

definition release :: "'a list \<Rightarrow> ('a \<Rightarrow> int) \<times> 'a list \<Rightarrow> ('a \<Rightarrow> int) \<times> 'a list" where
  "release ts dp = foldl (\<lambda>(d, p) t. (d(t := d t - 1), if d t - 1 = 0 then p @ [t] else p)) dp ts"

partial_function (option) kahn_loop :: "'a adjacency \<Rightarrow> ('a \<Rightarrow> int) \<times> 'a list \<Rightarrow> nat \<Rightarrow> nat option" where
  "kahn_loop adj dp completed =
    (if snd dp = [] then Some completed
     else kahn_loop adj (release (adj_get adj (last (snd dp))) (fst dp, butlast (snd dp))) (Suc completed))"

record 'a reach_index =
  ri_adjacency :: "'a adjacency"
  ri_descendants :: "'a \<Rightarrow> 'a set option"
  ri_has_cycle :: bool

definition make_index :: "('a \<times> 'a) list \<Rightarrow> 'a reach_index option" where
  "make_index edges =
    (let adj = adjacency edges; nodes = index_nodes edges; d = indegrees adj in
     case kahn_loop adj (d, filter (\<lambda>n. d n = 0) nodes) 0 of
       None \<Rightarrow> None
     | Some completed \<Rightarrow> Some \<lparr>ri_adjacency = adj, ri_descendants = Map.empty,
         ri_has_cycle = (completed \<noteq> length nodes)\<rparr>)"

definition reaches :: "'a reach_index \<Rightarrow> 'a \<Rightarrow> 'a \<Rightarrow> (bool \<times> 'a reach_index) option" where
  "reaches ix source target =
    (if source = target then Some (True, ix)
     else case ri_descendants ix source of
       Some ds \<Rightarrow> Some (target \<in> ds, ix)
     | None \<Rightarrow>
        (case descend_loop (adj_get (ri_adjacency ix)) (adj_get (ri_adjacency ix) source) {} of
           None \<Rightarrow> None
         | Some ds \<Rightarrow> Some (target \<in> ds, ix\<lparr>ri_descendants := (ri_descendants ix)(source \<mapsto> ds)\<rparr>)))"

text \<open>A client that asks several questions of one index.\<close>

fun ask_all :: "'a reach_index \<Rightarrow> ('a \<times> 'a) list \<Rightarrow> bool list option" where
  "ask_all ix [] = Some []"
| "ask_all ix (q # qs) = (case reaches ix (fst q) (snd q) of
     None \<Rightarrow> None
   | Some (b, ix') \<Rightarrow> map_option (Cons b) (ask_all ix' qs))"

subsection \<open>The tables of the index\<close>

lemma set_index_nodes: "set (index_nodes edges) = fst ` set edges \<union> snd ` set edges"
  and distinct_index_nodes [simp]: "distinct (index_nodes edges)"
  by (induction edges rule: rev_induct) (auto simp: index_nodes_def)

lemma adjacency_snoc:
  "adjacency (edges @ [e]) = dict_set (fst e) (set_add (snd e) (adj_get (adjacency edges) (fst e))) (adjacency edges)"
  by (simp add: adjacency_def adj_get_def)

lemma adjacency_props:
  "set (adj_get (adjacency edges) a) = {b. (a, b) \<in> set edges} \<and> distinct (adj_get (adjacency edges) a) \<and>
     distinct (map fst (adjacency edges))"
proof (induction edges arbitrary: a rule: rev_induct)
  case Nil
  then show ?case by (simp add: adjacency_def adj_get_def)
next
  case (snoc e edges)
  have "adj_get (adjacency (edges @ [e])) a =
      (if a = fst e then set_add (snd e) (adj_get (adjacency edges) a) else adj_get (adjacency edges) a)"
    unfolding adjacency_snoc by (simp add: adj_get_def map_of_dict_set)
  moreover have "distinct (map fst (adjacency (edges @ [e])))"
    unfolding adjacency_snoc keys_dict_set using snoc by simp
  ultimately show ?case using snoc [of a] by (cases e) auto
qed

lemma adjacency_edge_rel: "edge_rel (adj_get (adjacency edges)) = set edges"
  by (auto simp: edge_rel_def adjacency_props)

interpretation index: finite_graph "adj_get (adjacency edges)" "set (index_nodes edges)" for edges
  by unfold_locales (force simp: set_index_nodes adjacency_props)+

lemma bump_all: "distinct ts \<Longrightarrow> foldl (\<lambda>d t. d(t := d t + 1)) d ts = (\<lambda>t. d t + (if t \<in> set ts then 1 else (0::int)))"
  by (induction ts arbitrary: d) (auto simp: fun_eq_iff)

lemma indegrees_count:
  assumes "\<And>p. p \<in> set adj \<Longrightarrow> distinct (snd p)"
  shows "indegrees adj t = int (length (filter (\<lambda>p. t \<in> set (snd p)) adj))"
proof -
  have "foldl (\<lambda>d ts. foldl (\<lambda>d t. d(t := d t + 1)) d ts) d (map snd adj) t =
      d t + int (length (filter (\<lambda>p. t \<in> set (snd p)) adj))" for d
    using assms by (induction adj arbitrary: d) (auto simp: bump_all)
  then show ?thesis by (simp add: indegrees_def)
qed

text \<open>The predecessors of a node that are still to be completed.\<close>

definition open_preds :: "('a \<times> 'a) list \<Rightarrow> 'a set \<Rightarrow> 'a \<Rightarrow> 'a set" where
  "open_preds edges ds t = {s. (s, t) \<in> set edges \<and> s \<notin> ds}"

lemma finite_open_preds [simp]: "finite (open_preds edges ds t)"
  by (rule finite_subset [of _ "fst ` set edges"]) (force simp: open_preds_def)+

lemma indegrees_open: "indegrees (adjacency edges) t = int (card (open_preds edges {} t))"
proof -
  let ?adj = "adjacency edges"
  have d: "distinct (map fst ?adj)" using adjacency_props [of edges] by blast
  have get: "(s, ts) \<in> set ?adj \<Longrightarrow> adj_get ?adj s = ts" for s ts using d by (simp add: adj_get_def)
  have "length (filter (\<lambda>p. t \<in> set (snd p)) ?adj) = card (fst ` set (filter (\<lambda>p. t \<in> set (snd p)) ?adj))"
  proof -
    have "distinct (map fst (filter (\<lambda>p. t \<in> set (snd p)) ?adj))" using d by (rule distinct_map_filter)
    then show ?thesis using distinct_card by fastforce
  qed
  also have "fst ` set (filter (\<lambda>p. t \<in> set (snd p)) ?adj) = open_preds edges {} t"
  proof -
    have "(s, t) \<in> set edges \<longleftrightarrow> (\<exists>ts. (s, ts) \<in> set ?adj \<and> t \<in> set ts)" for s
    proof
      assume "(s, t) \<in> set edges"
      then have "t \<in> set (adj_get ?adj s)" by (simp add: adjacency_props)
      then show "\<exists>ts. (s, ts) \<in> set ?adj \<and> t \<in> set ts"
        by (cases "map_of ?adj s") (auto simp: adj_get_def dest: map_of_SomeD)
    next
      assume "\<exists>ts. (s, ts) \<in> set ?adj \<and> t \<in> set ts"
      then show "(s, t) \<in> set edges" using get adjacency_props [of edges s] by blast
    qed
    then show ?thesis by (force simp: open_preds_def image_iff)
  qed
  finally show ?thesis using indegrees_count [of ?adj t] get adjacency_props [of edges] by (metis prod.collapse)
qed

subsection \<open>The cycle test\<close>

lemma release_all:
  "distinct ts \<Longrightarrow> release ts (d, p) =
    (\<lambda>t. d t - (if t \<in> set ts then 1 else 0), p @ filter (\<lambda>t. d t = 1) ts)"
proof (induction ts arbitrary: d p)
  case (Cons t ts)
  have "filter (\<lambda>u. (d(t := d t - 1)) u = 1) ts = filter (\<lambda>u. d u = 1) ts"
    using Cons.prems by (intro filter_cong) auto
  then show ?case using Cons by (auto simp: release_def fun_eq_iff)
qed (simp add: release_def)

definition preds :: "('a \<times> 'a) list \<Rightarrow> 'a \<Rightarrow> 'a list" where
  "preds edges t = map fst (filter (\<lambda>e. snd e = t) edges)"

lemma set_preds: "set (preds edges t) = {s. (s, t) \<in> set edges}"
  by (force simp: preds_def)

definition kahn_ok :: "('a \<times> 'a) list \<Rightarrow> 'a list \<Rightarrow> ('a \<Rightarrow> int) \<times> 'a list \<Rightarrow> bool" where
  "kahn_ok edges ds dp \<longleftrightarrow> dependency_first (preds edges) ds \<and> distinct (ds @ snd dp) \<and>
     set (ds @ snd dp) \<subseteq> set (index_nodes edges) \<and>
     (\<forall>t. fst dp t = int (card (open_preds edges (set ds) t))) \<and>
     (\<forall>t\<in>set (index_nodes edges). t \<notin> set ds \<longrightarrow> (t \<in> set (snd dp) \<longleftrightarrow> fst dp t = 0))"

lemma kahn_ok_start:
  "kahn_ok edges [] (indegrees (adjacency edges),
     filter (\<lambda>n. indegrees (adjacency edges) n = 0) (index_nodes edges))"
  by (simp add: kahn_ok_def indegrees_open)

lemma open_preds_done:
  assumes "kahn_ok edges ds dp" "t \<in> set ds"
  shows "open_preds edges (set ds) t = {}"
  using dependency_first_closed [of "preds edges" ds t] assms by (auto simp: kahn_ok_def open_preds_def set_preds)

lemma kahn_ok_step:
  assumes ok: "kahn_ok edges ds (d, p @ [s])"
  shows "kahn_ok edges (ds @ [s]) (release (adj_get (adjacency edges) s) (d, p))"
proof -
  let ?ts = "adj_get (adjacency edges) s"
  have ts: "set ?ts = {t. (s, t) \<in> set edges}" "distinct ?ts" by (simp_all add: adjacency_props)
  have s: "s \<notin> set ds" "s \<notin> set p" "s \<in> set (index_nodes edges)" using ok by (auto simp: kahn_ok_def)
  have d: "d t = int (card (open_preds edges (set ds) t))" for t using ok by (simp add: kahn_ok_def)
  have dz: "d t = 0 \<longleftrightarrow> open_preds edges (set ds) t = {}" for t by (simp add: d)
  have "d s = 0" using ok s by (auto simp: kahn_ok_def)
  then have ps: "{u. (u, s) \<in> set edges} \<subseteq> set ds" unfolding dz by (auto simp: open_preds_def)
  have open_s: "open_preds edges (set (ds @ [s])) t = open_preds edges (set ds) t - {s}" for t
    by (auto simp: open_preds_def)
  have mem: "s \<in> open_preds edges (set ds) t \<longleftrightarrow> t \<in> set ?ts" for t using s ts by (auto simp: open_preds_def)
  have d': "d t - (if t \<in> set ?ts then 1 else 0) = int (card (open_preds edges (set (ds @ [s])) t))" for t
  proof (cases "t \<in> set ?ts")
    case True
    then have "open_preds edges (set ds) t \<noteq> {}" using mem by blast
    then have "0 < card (open_preds edges (set ds) t)" by (simp add: card_gt_0_iff)
    then show ?thesis using True mem unfolding d open_s by (simp add: of_nat_diff)
  next
    case False
    then show ?thesis using mem unfolding d open_s by simp
  qed
  have nz: "d t \<noteq> 0" if "t \<in> set ?ts" for t using that mem unfolding dz by blast
  have notds: "t \<notin> set ds" if "t \<in> set ?ts" for t using nz [OF that] open_preds_done [OF ok] dz by blast
  have notp: "t \<notin> set p \<and> t \<noteq> s" if "t \<in> set ?ts" for t
    using nz [OF that] notds [OF that] ok \<open>d s = 0\<close> by (auto simp: kahn_ok_def)
  have nodes: "set ?ts \<subseteq> set (index_nodes edges)" using s by (intro index.closed_nodes)
  have df: "dependency_first (preds edges) (ds @ [s])"
    using ok s ps by (simp add: kahn_ok_def dependency_first_snoc set_preds)
  have zero: "t \<in> set (p @ filter (\<lambda>t. d t = 1) ?ts) \<longleftrightarrow> d t - (if t \<in> set ?ts then 1 else 0) = 0"
    if "t \<in> set (index_nodes edges)" "t \<notin> set (ds @ [s])" for t
    using that ok nz [of t] notp [of t] by (auto simp: kahn_ok_def)
  have "distinct ((ds @ [s]) @ p @ filter (\<lambda>t. d t = 1) ?ts)"
    using ok ts(2) notds notp by (auto simp: kahn_ok_def)
  moreover have "set ((ds @ [s]) @ p @ filter (\<lambda>t. d t = 1) ?ts) \<subseteq> set (index_nodes edges)"
    using ok nodes by (auto simp: kahn_ok_def)
  ultimately show ?thesis
    using df d' zero unfolding kahn_ok_def release_all [OF ts(2)] fst_conv snd_conv by blast
qed

lemma kahn_loop_done:
  "kahn_ok edges ds dp \<Longrightarrow> \<exists>ds' d'. kahn_loop (adjacency edges) dp (length ds) = Some (length ds') \<and>
     kahn_ok edges ds' (d', [])"
proof (induction "length (index_nodes edges) - length ds" arbitrary: ds dp rule: less_induct)
  case less
  obtain d p where dp: "dp = (d, p)" by (cases dp)
  show ?case
  proof (cases p rule: rev_cases)
    case Nil
    then show ?thesis using less.prems dp by (subst kahn_loop.simps) auto
  next
    case (snoc q s)
    let ?r = "release (adj_get (adjacency edges) s) (d, q)"
    have ok: "kahn_ok edges (ds @ [s]) ?r" using less.prems unfolding dp snoc by (rule kahn_ok_step)
    have "length (ds @ [s]) \<le> length (index_nodes edges)"
      using ok by (metis kahn_ok_def List.finite_set card_mono distinct_append distinct_card
        distinct_index_nodes set_append Un_subset_iff)
    then have "\<exists>ds' d'. kahn_loop (adjacency edges) ?r (length (ds @ [s])) = Some (length ds') \<and>
        kahn_ok edges ds' (d', [])"
      by (intro less.hyps ok) simp
    then show ?thesis using dp snoc by (subst kahn_loop.simps) simp
  qed
qed

lemma trancl_converse_preds: "(a, a) \<in> (set edges)\<^sup>+ \<longleftrightarrow> (a, a) \<in> (edge_rel (preds edges))\<^sup>+"
proof -
  have "edge_rel (preds edges) = (set edges)\<inverse>" by (auto simp: edge_rel_def set_preds)
  then show ?thesis by (simp add: trancl_converse)
qed

lemma kahn_ok_end:
  assumes ok: "kahn_ok edges ds (d, [])"
  shows "length ds \<noteq> length (index_nodes edges) \<longleftrightarrow> (\<exists>n. (n, n) \<in> (set edges)\<^sup>+)"
proof
  have sub: "set ds \<subseteq> set (index_nodes edges)" "distinct ds" using ok by (auto simp: kahn_ok_def)
  {
    assume "\<exists>n. (n, n) \<in> (set edges)\<^sup>+"
    then obtain n where n: "(n, n) \<in> (set edges)\<^sup>+" by blast
    then have "n \<in> set (index_nodes edges)"
      by (cases rule: tranclE) (force simp: set_index_nodes)+
    moreover have "n \<notin> set ds"
      using ok n dependency_first_irrefl trancl_converse_preds by (metis kahn_ok_def)
    ultimately show "length ds \<noteq> length (index_nodes edges)"
      using sub by (metis card_subset_eq distinct_card distinct_index_nodes List.finite_set)
  }
  assume "length ds \<noteq> length (index_nodes edges)"
  then obtain u where "u \<in> set (index_nodes edges) - set ds"
    using sub by (metis Diff_eq_empty_iff distinct_card distinct_index_nodes equals0I subset_antisym)
  show "\<exists>n. (n, n) \<in> (set edges)\<^sup>+"
  proof (rule ccontr)
    assume "\<nexists>n. (n, n) \<in> (set edges)\<^sup>+"
    then have "wf (set edges)" by (simp add: finite_acyclic_wf acyclic_def)
    then obtain z where z: "z \<in> set (index_nodes edges) - set ds"
      "\<And>y. (y, z) \<in> set edges \<Longrightarrow> y \<notin> set (index_nodes edges) - set ds"
      using wfE_min \<open>u \<in> _\<close> by metis
    have "open_preds edges (set ds) z = {}"
      using z(2) by (force simp: open_preds_def set_index_nodes)
    then show False using ok z(1) by (auto simp: kahn_ok_def)
  qed
qed

subsection \<open>Queries\<close>

text \<open>The memoised descendant sets are the nodes reachable from a successor of their key.\<close>

definition index_ok :: "('a \<times> 'a) list \<Rightarrow> 'a reach_index \<Rightarrow> bool" where
  "index_ok edges ix \<longleftrightarrow> ri_adjacency ix = adjacency edges \<and>
     (\<forall>s ds. ri_descendants ix s = Some ds \<longrightarrow> ds = {t. (s, t) \<in> (set edges)\<^sup>+})"

lemma make_index_ok:
  "\<exists>ix. make_index edges = Some ix \<and> index_ok edges ix \<and>
     (ri_has_cycle ix \<longleftrightarrow> (\<exists>n. (n, n) \<in> (set edges)\<^sup>+))"
proof -
  obtain ds d where "kahn_loop (adjacency edges) (indegrees (adjacency edges),
      filter (\<lambda>n. indegrees (adjacency edges) n = 0) (index_nodes edges)) 0 = Some (length ds)"
    "kahn_ok edges ds (d, [])"
    using kahn_loop_done [OF kahn_ok_start, of edges] by auto
  then show ?thesis using kahn_ok_end by (auto simp: make_index_def index_ok_def Let_def)
qed

lemma descend_from_successors:
  "descend_loop (adj_get (adjacency edges)) (adj_get (adjacency edges) s) {} =
     Some {t. (s, t) \<in> (set edges)\<^sup>+}"
proof -
  let ?succ = "adj_get (adjacency edges)"
  have "set (?succ s) \<subseteq> set (index_nodes edges)" by (force simp: adjacency_props set_index_nodes)
  then have "descend_loop ?succ (?succ s) {} = Some ((edge_rel ?succ)\<^sup>* `` (set (?succ s) \<union> {}))"
    by (intro index.descend_loop_correct) (auto simp: search_ok_def)
  moreover have "(edge_rel ?succ)\<^sup>* `` (set (?succ s) \<union> {}) = {t. (s, t) \<in> (set edges)\<^sup>+}"
    by (auto simp: adjacency_edge_rel adjacency_props intro: rtrancl_into_trancl2 dest: tranclD)
  ultimately show ?thesis by simp
qed

lemma reaches_ok:
  assumes "index_ok edges ix"
  shows "\<exists>ix'. reaches ix s t = Some ((s, t) \<in> (set edges)\<^sup>*, ix') \<and> index_ok edges ix'"
proof -
  have star: "(s, t) \<in> (set edges)\<^sup>* \<longleftrightarrow> s = t \<or> (s, t) \<in> (set edges)\<^sup>+" by (auto simp: rtrancl_eq_or_trancl)
  show ?thesis
  proof (cases "ri_descendants ix s")
    case None
    then show ?thesis
      using assms by (auto simp: reaches_def star index_ok_def descend_from_successors)
  next
    case (Some ds)
    then have "ds = {t. (s, t) \<in> (set edges)\<^sup>+}" using assms by (simp add: index_ok_def)
    then show ?thesis using Some assms by (auto simp: reaches_def star)
  qed
qed

text \<open>
  C21: for every list of edges the index is built, its cycle flag says whether some node
  is reachable from itself through an edge, and every sequence of queries, whatever the
  memoised answers of earlier ones, answers reachability by zero or more edges.
\<close>

theorem reachability_index_correct:
  "\<exists>ix. make_index edges = Some ix \<and> (ri_has_cycle ix \<longleftrightarrow> (\<exists>n. (n, n) \<in> (set edges)\<^sup>+)) \<and>
     ask_all ix qs = Some (map (\<lambda>q. q \<in> (set edges)\<^sup>*) qs)"
proof -
  have "index_ok edges ix \<Longrightarrow> ask_all ix qs = Some (map (\<lambda>q. q \<in> (set edges)\<^sup>*) qs)" for ix
  proof (induction qs arbitrary: ix)
    case (Cons q qs)
    then show ?case using reaches_ok [of edges ix "fst q" "snd q"] by auto
  qed simp
  then show ?thesis using make_index_ok [of edges] by blast
qed

text \<open>
  C22: the worklist search \<open>reachable\<close> finishes on every finite graph closed under its
  successor function and decides reachability.
\<close>

theorem reachable_decides:
  assumes "finite V" "\<forall>v\<in>V. set (succ v) \<subseteq> V" "source \<in> V"
  shows "reachable source target succ = Some ((source, target) \<in> (edge_rel succ)\<^sup>*)"
proof -
  have "finite_graph succ V" using assms by unfold_locales auto
  then show ?thesis using assms(3) by (rule reachable_correct)
qed

theorem reachable_decides_witness:
  "reachable 6 4 demo_successors = Some ((6, 4) \<in> (edge_rel demo_successors)\<^sup>*)"
  by (rule reachable_decides [where V = "{..6}"]) (auto simp: demo_successors_def)

end
