(* ===== verification/Hw_Types.thy ===== *)
theory Hw_Types
  imports Zl_Prelude
begin

text \<open>
  The canonical hardware types of \<^verbatim>\<open>zlang/ir/types.py\<close>.  A frozen dataclass with a
  \<^verbatim>\<open>__post_init__\<close> becomes a constructor of \<open>hwtype\<close> and a validating function
  \<open>mk_...\<close> that takes Python's unbounded integers and returns the type or the
  \<^verbatim>\<open>ValueError\<close> the check raises, in the source's order.  \<open>wf_type\<close> is what the
  checks leave true of a type; \<open>built\<close> is the set of types the validating functions
  construct, and the two are shown equal.
\<close>

section \<open>Data\<close>

datatype overflow_policy = WrapPolicy | SaturatePolicy

datatype backing_kind = BackBit | BackBits | BackUInt

record enum_decl =
  en_name :: string
  en_members :: "string list"
  en_identity :: string
  en_width :: "nat option"
  en_codes :: "int list option"
  en_backing :: "backing_kind option"

datatype hwtype =
    BitType
  | UIntType nat
  | SIntType nat
  | BitsType nat
  | FixedType nat nat overflow_policy
  | UFixedType nat nat overflow_policy
  | EnumType enum_decl
  | StructType string "(string \<times> hwtype) list"
  | TupleType "hwtype list"
  | TaggedUnionType string "(string \<times> (string \<times> hwtype) list) list" string
  | VecType nat hwtype

type_synonym struct_field = "string \<times> hwtype"
type_synonym union_variant = "string \<times> (string \<times> hwtype) list"

datatype type_error =
    NonPositiveWidth
  | FractionOutOfRange
  | EnumUnnamed | EnumEmpty | EnumMemberUnnamed | EnumMembersNotUnique | EnumNoIdentity
  | EnumWidthCodesTogether | EnumBackingUnsupported | EnumBackingNeedsCodes
  | EnumCodeCount | EnumCodesNotUnique | EnumCodesDoNotFit | EnumBitBackingWidth
  | EnumNoMember string
  | TupleArity
  | UnionFieldUnnamed | VariantUnnamed | VariantFieldsNotUnique
  | UnionUnnamed | UnionEmpty | UnionVariantsNotUnique | UnionFieldNotScalar | UnionNoIdentity
  | UnionNoVariant string
  | VectorLength

section \<open>Widths and codes\<close>

definition enum_width :: "enum_decl \<Rightarrow> nat" where
  "enum_width e = (case en_width e of Some w \<Rightarrow> w
     | None \<Rightarrow> max 1 (bit_length (int (length (en_members e)) - 1)))"

definition enum_codes :: "enum_decl \<Rightarrow> int list" where
  "enum_codes e = (case en_codes e of Some cs \<Rightarrow> cs
     | None \<Rightarrow> map int [0..<length (en_members e)])"

definition encoding_type :: "enum_decl \<Rightarrow> hwtype" where
  "encoding_type e = (case en_backing e of
       Some BackBit \<Rightarrow> BitType
     | Some BackUInt \<Rightarrow> UIntType (enum_width e)
     | _ \<Rightarrow> BitsType (enum_width e))"

fun index_of :: "'a \<Rightarrow> 'a list \<Rightarrow> nat option" where
  "index_of x [] = None"
| "index_of x (y # ys) = (if x = y then Some 0 else map_option Suc (index_of x ys))"

text \<open>\<^verbatim>\<open>self.codes[self.members.index(member)]\<close>; \<^verbatim>\<open>index\<close> raises ValueError.\<close>

definition member_code :: "enum_decl \<Rightarrow> string \<Rightarrow> type_error + int" where
  "member_code e m = (case index_of m (en_members e) of
       None \<Rightarrow> Inl (EnumNoMember m)
     | Some i \<Rightarrow> Inr (enum_codes e ! i))"

definition is_valid_code :: "enum_decl \<Rightarrow> int \<Rightarrow> bool" where
  "is_valid_code e v \<longleftrightarrow> v \<in> set (enum_codes e)"

definition tag_width :: "union_variant list \<Rightarrow> nat" where
  "tag_width vs = max 1 (bit_length (int (length vs) - 1))"

text \<open>\<^verbatim>\<open>width\<close> of every type; \<^verbatim>\<open>max\<close> of an empty sequence of variants cannot occur
  for a validated union.\<close>

fun width :: "hwtype \<Rightarrow> nat" where
  "width BitType = 1"
| "width (UIntType w) = w"
| "width (SIntType w) = w"
| "width (BitsType w) = w"
| "width (FixedType w f p) = w"
| "width (UFixedType w f p) = w"
| "width (EnumType e) = enum_width e"
| "width (StructType n fs) = sum_list (map (\<lambda>f. width (snd f)) fs)"
| "width (TupleType ts) = sum_list (map width ts)"
| "width (TaggedUnionType n vs d) =
     tag_width vs + foldr max (map (\<lambda>v. sum_list (map (\<lambda>f. width (snd f)) (snd v))) vs) 0"
| "width (VecType n t) = n * width t"

definition variant_payload_width :: "(string \<times> hwtype) list \<Rightarrow> nat" where
  "variant_payload_width fs = sum_list (map (\<lambda>f. width (snd f)) fs)"

definition payload_width :: "union_variant list \<Rightarrow> nat" where
  "payload_width vs = foldr max (map (\<lambda>v. variant_payload_width (snd v)) vs) 0"

lemma width_union: "width (TaggedUnionType n vs d) = tag_width vs + payload_width vs"
  by (simp add: payload_width_def variant_payload_width_def)

definition struct_field_of :: "(string \<times> hwtype) list \<Rightarrow> string \<Rightarrow> (string \<times> hwtype) option" where
  "struct_field_of fs n = List.find (\<lambda>f. fst f = n) fs"

definition union_variant_of :: "union_variant list \<Rightarrow> string \<Rightarrow> union_variant option" where
  "union_variant_of vs n = List.find (\<lambda>v. fst v = n) vs"

definition union_tag :: "union_variant list \<Rightarrow> string \<Rightarrow> type_error + nat" where
  "union_tag vs n = (case index_of n (map fst vs) of
       None \<Rightarrow> Inl (UnionNoVariant n) | Some i \<Rightarrow> Inr i)"

section \<open>Validating constructors\<close>

definition mk_uint :: "int \<Rightarrow> type_error + hwtype" where
  "mk_uint w = (if w < 1 then Inl NonPositiveWidth else Inr (UIntType (nat w)))"

definition mk_sint :: "int \<Rightarrow> type_error + hwtype" where
  "mk_sint w = (if w < 1 then Inl NonPositiveWidth else Inr (SIntType (nat w)))"

definition mk_bits :: "int \<Rightarrow> type_error + hwtype" where
  "mk_bits w = (if w < 1 then Inl NonPositiveWidth else Inr (BitsType (nat w)))"

definition mk_fixed :: "int \<Rightarrow> int \<Rightarrow> overflow_policy \<Rightarrow> type_error + hwtype" where
  "mk_fixed w f p = (if w < 1 then Inl NonPositiveWidth
     else if f < 0 \<or> f \<ge> w then Inl FractionOutOfRange
     else Inr (FixedType (nat w) (nat f) p))"

definition mk_ufixed :: "int \<Rightarrow> int \<Rightarrow> overflow_policy \<Rightarrow> type_error + hwtype" where
  "mk_ufixed w f p = (if w < 1 then Inl NonPositiveWidth
     else if f < 0 \<or> f \<ge> w then Inl FractionOutOfRange
     else Inr (UFixedType (nat w) (nat f) p))"

definition backing_of :: "string \<Rightarrow> backing_kind option" where
  "backing_of s = (if s = ''bit'' then Some BackBit else if s = ''bits'' then Some BackBits
     else if s = ''uint'' then Some BackUInt else None)"

definition check_explicit ::
    "string list \<Rightarrow> int option \<Rightarrow> int list \<Rightarrow> backing_kind option \<Rightarrow> type_error + unit" where
  "check_explicit ms ow cs bk = (case ow of None \<Rightarrow> Inr ()
     | Some w \<Rightarrow>
         if w < 1 then Inl NonPositiveWidth
         else if length cs \<noteq> length ms then Inl EnumCodeCount
         else if \<not> distinct cs then Inl EnumCodesNotUnique
         else if (\<exists>c\<in>set cs. c < 0 \<or> c \<ge> 2 ^ nat w) then Inl EnumCodesDoNotFit
         else if bk = Some BackBit \<and> w \<noteq> 1 then Inl EnumBitBackingWidth
         else Inr ())"

definition mk_enum ::
    "string \<Rightarrow> string list \<Rightarrow> string \<Rightarrow> int option \<Rightarrow> int list option \<Rightarrow> string option
      \<Rightarrow> type_error + enum_decl" where
  "mk_enum n ms d ow ocs ob =
     (if n = '''' then Inl EnumUnnamed
      else if ms = [] then Inl EnumEmpty
      else if (\<exists>m\<in>set ms. m = '''') then Inl EnumMemberUnnamed
      else if \<not> distinct ms then Inl EnumMembersNotUnique
      else if d = '''' then Inl EnumNoIdentity
      else if (ow = None) \<noteq> (ocs = None) then Inl EnumWidthCodesTogether
      else let ob' = (if ow \<noteq> None \<and> ob = None then Some ''bits'' else ob);
               bk = (case ob' of None \<Rightarrow> None | Some s \<Rightarrow> backing_of s)
        in if ob' \<noteq> None \<and> bk = None then Inl EnumBackingUnsupported
           else if bk \<noteq> None \<and> ow = None then Inl EnumBackingNeedsCodes
           else bindE (check_explicit ms ow (case ocs of None \<Rightarrow> [] | Some cs \<Rightarrow> cs) bk)
             (\<lambda>_. Inr \<lparr>en_name = n, en_members = ms, en_identity = d,
                en_width = map_option nat ow, en_codes = ocs, en_backing = bk\<rparr>))"

definition mk_tuple :: "hwtype list \<Rightarrow> type_error + hwtype" where
  "mk_tuple ts = (if 2 \<le> length ts \<and> length ts \<le> 8 then Inr (TupleType ts) else Inl TupleArity)"

fun flat_scalar :: "hwtype \<Rightarrow> bool" where
  "flat_scalar BitType = True"
| "flat_scalar (UIntType _) = True"
| "flat_scalar (SIntType _) = True"
| "flat_scalar (BitsType _) = True"
| "flat_scalar (FixedType _ _ _) = True"
| "flat_scalar (UFixedType _ _ _) = True"
| "flat_scalar _ = False"

definition mk_union_field :: "string \<Rightarrow> hwtype \<Rightarrow> type_error + (string \<times> hwtype)" where
  "mk_union_field n t = (if n = '''' then Inl UnionFieldUnnamed else Inr (n, t))"

definition mk_variant :: "string \<Rightarrow> (string \<times> hwtype) list \<Rightarrow> type_error + union_variant" where
  "mk_variant n fs = (if n = '''' then Inl VariantUnnamed
     else if \<not> distinct (map fst fs) then Inl VariantFieldsNotUnique else Inr (n, fs))"

definition mk_union :: "string \<Rightarrow> union_variant list \<Rightarrow> string \<Rightarrow> type_error + hwtype" where
  "mk_union n vs d =
     (if n = '''' then Inl UnionUnnamed
      else if vs = [] then Inl UnionEmpty
      else if \<not> distinct (map fst vs) then Inl UnionVariantsNotUnique
      else if (\<exists>v\<in>set vs. \<exists>f\<in>set (snd v). \<not> flat_scalar (snd f)) then Inl UnionFieldNotScalar
      else if d = '''' then Inl UnionNoIdentity
      else Inr (TaggedUnionType n vs d))"

definition mk_vec :: "int \<Rightarrow> hwtype \<Rightarrow> type_error + hwtype" where
  "mk_vec n t = (if n < 1 then Inl VectorLength else Inr (VecType (nat n) t))"

section \<open>Well-formed types\<close>

definition wf_enum :: "enum_decl \<Rightarrow> bool" where
  "wf_enum e \<longleftrightarrow> en_name e \<noteq> '''' \<and> en_members e \<noteq> [] \<and> '''' \<notin> set (en_members e) \<and>
     distinct (en_members e) \<and> en_identity e \<noteq> '''' \<and>
     (case (en_width e, en_codes e, en_backing e) of
        (None, None, None) \<Rightarrow> True
      | (Some w, Some cs, Some b) \<Rightarrow> 0 < w \<and> length cs = length (en_members e) \<and> distinct cs \<and>
          (\<forall>c\<in>set cs. 0 \<le> c \<and> c < 2 ^ w) \<and> (b = BackBit \<longrightarrow> w = 1)
      | _ \<Rightarrow> False)"

fun wf_type :: "hwtype \<Rightarrow> bool" where
  "wf_type BitType = True"
| "wf_type (UIntType w) = (0 < w)"
| "wf_type (SIntType w) = (0 < w)"
| "wf_type (BitsType w) = (0 < w)"
| "wf_type (FixedType w f p) = (0 < w \<and> f < w)"
| "wf_type (UFixedType w f p) = (0 < w \<and> f < w)"
| "wf_type (EnumType e) = wf_enum e"
| "wf_type (StructType n fs) = (\<forall>f\<in>set fs. wf_type (snd f))"
| "wf_type (TupleType ts) = (2 \<le> length ts \<and> length ts \<le> 8 \<and> (\<forall>t\<in>set ts. wf_type t))"
| "wf_type (TaggedUnionType n vs d) = (n \<noteq> '''' \<and> vs \<noteq> [] \<and> distinct (map fst vs) \<and> d \<noteq> '''' \<and>
     (\<forall>v\<in>set vs. fst v \<noteq> '''' \<and> distinct (map fst (snd v)) \<and>
        (\<forall>f\<in>set (snd v). fst f \<noteq> '''' \<and> flat_scalar (snd f) \<and> wf_type (snd f))))"
| "wf_type (VecType n t) = (0 < n \<and> wf_type t)"

text \<open>The types the validating constructors build.\<close>

inductive built :: "hwtype \<Rightarrow> bool" where
  built_bit: "built BitType"
| built_uint: "mk_uint w = Inr t \<Longrightarrow> built t"
| built_sint: "mk_sint w = Inr t \<Longrightarrow> built t"
| built_bits: "mk_bits w = Inr t \<Longrightarrow> built t"
| built_fixed: "mk_fixed w f p = Inr t \<Longrightarrow> built t"
| built_ufixed: "mk_ufixed w f p = Inr t \<Longrightarrow> built t"
| built_enum: "mk_enum n ms d ow ocs ob = Inr e \<Longrightarrow> built (EnumType e)"
| built_struct: "\<forall>f\<in>set fs. built (snd f) \<Longrightarrow> built (StructType n fs)"
| built_tuple: "\<forall>t\<in>set ts. built t \<Longrightarrow> mk_tuple ts = Inr t \<Longrightarrow> built t"
| built_union: "\<forall>v\<in>set vs. mk_variant (fst v) (snd v) = Inr v \<and>
      (\<forall>f\<in>set (snd v). mk_union_field (fst f) (snd f) = Inr f \<and> built (snd f)) \<Longrightarrow>
    mk_union n vs d = Inr t \<Longrightarrow> built t"
| built_vec: "built e \<Longrightarrow> mk_vec n e = Inr t \<Longrightarrow> built t"

section \<open>Lists searched by key\<close>

lemma index_of_Some: "index_of x xs = Some i \<Longrightarrow> i < length xs \<and> xs ! i = x"
  by (induction xs arbitrary: i) (auto split: if_splits)

lemma index_of_None [simp]: "index_of x xs = None \<longleftrightarrow> x \<notin> set xs"
  by (induction xs) auto

lemma index_of_nth: "distinct xs \<Longrightarrow> i < length xs \<Longrightarrow> index_of (xs ! i) xs = Some i"
proof (induction xs arbitrary: i)
  case (Cons a xs)
  then show ?case by (cases i) auto
qed simp

lemma find_key_Some: "List.find (\<lambda>f. fst f = n) fs = Some p \<Longrightarrow> p \<in> set fs \<and> fst p = n"
  by (auto simp: find_Some_iff)

lemma find_key_distinct:
  "distinct (map fst fs) \<Longrightarrow> (n, t) \<in> set fs \<Longrightarrow> List.find (\<lambda>f. fst f = n) fs = Some (n, t)"
proof (induction fs)
  case (Cons f fs)
  then show ?case by (cases f) (force simp: image_iff)
qed simp

lemma find_key_None: "List.find (\<lambda>f. fst f = n) fs = None \<longleftrightarrow> n \<notin> fst ` set fs"
  by (force simp: find_None_iff)

lemmas key_search = index_of_Some index_of_nth find_key_Some find_key_distinct find_key_None

section \<open>The constructors build exactly the well-formed types\<close>

lemma check_explicit_ok:
  "check_explicit ms (Some w) cs bk = Inr u \<longleftrightarrow>
     1 \<le> w \<and> length cs = length ms \<and> distinct cs \<and> (\<forall>c\<in>set cs. 0 \<le> c \<and> c < 2 ^ nat w) \<and>
     (bk = Some BackBit \<longrightarrow> w = 1)"
  by (auto simp: check_explicit_def not_le not_less)

lemma mk_enum_wf: "mk_enum n ms d ow ocs ob = Inr e \<Longrightarrow> wf_enum e"
  by (auto simp: mk_enum_def wf_enum_def check_explicit_ok Let_def split: if_splits option.splits)

fun backing_name :: "backing_kind \<Rightarrow> string" where
  "backing_name BackBit = ''bit''"
| "backing_name BackBits = ''bits''"
| "backing_name BackUInt = ''uint''"

lemma backing_of_name: "backing_of (backing_name b) = Some b"
  by (cases b) (simp_all add: backing_of_def)

lemma wf_enum_mk:
  assumes "wf_enum e"
  shows "mk_enum (en_name e) (en_members e) (en_identity e) (map_option int (en_width e))
    (en_codes e) (map_option backing_name (en_backing e)) = Inr e"
proof -
  note defs = assms [unfolded wf_enum_def]
  have "e = \<lparr>en_name = en_name e, en_members = en_members e, en_identity = en_identity e,
     en_width = en_width e, en_codes = en_codes e, en_backing = en_backing e\<rparr>" by simp
  then show ?thesis
    using defs
    by (cases "en_width e"; cases "en_codes e"; cases "en_backing e")
      (auto simp: mk_enum_def check_explicit_ok backing_of_name check_explicit_def Let_def)
qed

lemma built_wf: "built t \<Longrightarrow> wf_type t"
proof (induction rule: built.induct)
  case (built_enum n ms d ow ocs ob e)
  then show ?case by (simp add: mk_enum_wf)
next
  case (built_union vs n d t)
  have "\<forall>v\<in>set vs. fst v \<noteq> '''' \<and> distinct (map fst (snd v)) \<and>
      (\<forall>f\<in>set (snd v). fst f \<noteq> '''' \<and> wf_type (snd f))"
    using built_union.hyps(1) built_union.IH
    by (auto simp: mk_variant_def mk_union_field_def split: if_splits)
  then show ?case
    using built_union.hyps by (auto simp: mk_union_def split: if_splits)
qed (auto simp: mk_uint_def mk_sint_def mk_bits_def mk_fixed_def mk_ufixed_def mk_tuple_def
    mk_vec_def split: if_splits)

lemma wf_union_built:
  assumes "wf_type (TaggedUnionType n vs d)"
    and "\<And>v f. v \<in> set vs \<Longrightarrow> f \<in> set (snd v) \<Longrightarrow> built (snd f)"
  shows "built (TaggedUnionType n vs d)"
proof (rule built_union)
  show "\<forall>v\<in>set vs. mk_variant (fst v) (snd v) = Inr v \<and>
      (\<forall>f\<in>set (snd v). mk_union_field (fst f) (snd f) = Inr f \<and> built (snd f))"
    using assms by (simp add: mk_variant_def mk_union_field_def)
  show "mk_union n vs d = Inr (TaggedUnionType n vs d)"
    using assms(1) by (simp add: mk_union_def)
qed

lemma wf_built: "wf_type t \<Longrightarrow> built t"
proof (induction t rule: wf_type.induct)
  case (2 w)
  then show ?case using built_uint [of "int w"] by (simp add: mk_uint_def)
next
  case (3 w)
  then show ?case using built_sint [of "int w"] by (simp add: mk_sint_def)
next
  case (4 w)
  then show ?case using built_bits [of "int w"] by (simp add: mk_bits_def)
next
  case (5 w f p)
  then show ?case using built_fixed [of "int w" "int f" p] by (simp add: mk_fixed_def)
next
  case (6 w f p)
  then show ?case using built_ufixed [of "int w" "int f" p] by (simp add: mk_ufixed_def)
next
  case (7 e)
  then have "wf_enum e" by simp
  from built_enum [OF wf_enum_mk [OF this]] show ?case .
next
  case (9 ts)
  then have "\<forall>t\<in>set ts. built t" by simp
  from this show ?case by (rule built_tuple) (use 9 in \<open>simp add: mk_tuple_def\<close>)
next
  case (10 n vs d)
  then show ?case by (auto intro!: wf_union_built)
next
  case (11 n t)
  then have "built t" by simp
  from this show ?case by (rule built_vec [of t "int n"]) (use 11 in \<open>simp add: mk_vec_def\<close>)
next
  case (8 n fs)
  then show ?case by (simp add: built_struct)
qed (rule built_bit)

text \<open>
  C4: the validating constructors of \<^verbatim>\<open>types.py\<close>, applied to Python's integers,
  build every well-formed hardware type and no other value.
\<close>

theorem built_iff_wf_type: "built t \<longleftrightarrow> wf_type t"
  using built_wf wf_built by blast

section \<open>Codes and tags\<close>

lemma flat_scalar_pos: "flat_scalar t \<Longrightarrow> wf_type t \<Longrightarrow> 0 < width t"
  by (cases t) auto

lemma enum_width_pos: "wf_enum e \<Longrightarrow> 0 < enum_width e"
  by (auto simp: wf_enum_def enum_width_def split: option.splits)

lemma length_enum_codes: "wf_enum e \<Longrightarrow> length (enum_codes e) = length (en_members e)"
  by (auto simp: wf_enum_def enum_codes_def split: option.splits)

lemma distinct_enum_codes: "wf_enum e \<Longrightarrow> distinct (enum_codes e)"
  by (auto simp: wf_enum_def enum_codes_def distinct_map split: option.splits)

lemma max_bit_length_bound:
  assumes "0 < n" "k < n"
  shows "k < 2 ^ max (Suc 0) (bit_length (int n - 1))"
proof -
  have "int n - 1 < 2 ^ max (Suc 0) (bit_length (int n - 1))"
    using assms by (subst bit_length_le_iff [symmetric]) auto
  moreover have "int k \<le> int n - 1" using assms by simp
  ultimately have "int k < 2 ^ max (Suc 0) (bit_length (int n - 1))" by linarith
  then show ?thesis by simp
qed

lemma enum_code_bounds:
  "wf_enum e \<Longrightarrow> c \<in> set (enum_codes e) \<Longrightarrow> 0 \<le> c \<and> c < 2 ^ enum_width e"
  by (auto simp: wf_enum_def enum_codes_def enum_width_def split: option.splits
      intro!: max_bit_length_bound)

lemma union_tag_bound:
  assumes "vs \<noteq> []" "union_tag vs n = Inr i"
  shows "int i < 2 ^ tag_width vs" and "i < length vs" and "fst (vs ! i) = n"
proof -
  from assms(2) have i: "i < length vs" "fst (vs ! i) = n"
    by (auto simp: union_tag_def split: option.splits dest!: index_of_Some)
  then show "i < length vs" "fst (vs ! i) = n" by simp_all
  from i show "int i < 2 ^ tag_width vs"
    using max_bit_length_bound [of "length vs" i] assms(1) by (simp add: tag_width_def)
qed

lemma variant_payload_le: "v \<in> set vs \<Longrightarrow> variant_payload_width (snd v) \<le> payload_width vs"
  unfolding payload_width_def by (induction vs) (auto simp: max_def)

lemma member_code_Inr:
  assumes "wf_enum e" "m \<in> set (en_members e)"
  obtains i where "i < length (en_members e)" "en_members e ! i = m"
    "member_code e m = Inr (enum_codes e ! i)"
proof -
  from assms(2) obtain i where i: "index_of m (en_members e) = Some i"
    by (cases "index_of m (en_members e)") auto
  with index_of_Some [OF i] show ?thesis by (intro that [of i]) (auto simp: member_code_def)
qed

text \<open>
  in a validated enumeration every member has a code that is legal and fits the
  enumeration's width, and different members have different codes.
\<close>

theorem member_code_sound:
  assumes "wf_enum e" and "m \<in> set (en_members e)" and "m' \<in> set (en_members e)"
  shows "(\<exists>c. member_code e m = Inr c \<and> is_valid_code e c \<and> 0 \<le> c \<and> c < 2 ^ enum_width e) \<and>
    (member_code e m = member_code e m' \<longrightarrow> m = m')"
proof -
  obtain i where i: "i < length (en_members e)" "en_members e ! i = m"
    "member_code e m = Inr (enum_codes e ! i)" using member_code_Inr assms(1,2) .
  obtain j where j: "j < length (en_members e)" "en_members e ! j = m'"
    "member_code e m' = Inr (enum_codes e ! j)" using member_code_Inr assms(1,3) .
  have "enum_codes e ! i \<in> set (enum_codes e)" using i assms(1) by (simp add: length_enum_codes)
  moreover have "enum_codes e ! i = enum_codes e ! j \<longrightarrow> i = j"
    using i j assms(1) by (simp add: nth_eq_iff_index_eq distinct_enum_codes length_enum_codes)
  ultimately show ?thesis
    using i j enum_code_bounds [OF assms(1)] by (auto simp: is_valid_code_def)
qed

definition demo_enum :: enum_decl where
  "demo_enum = \<lparr>en_name = ''State'', en_members = [''idle'', ''run'', ''halt''],
     en_identity = ''pkg.State'', en_width = Some 4, en_codes = Some [1, 2, 8],
     en_backing = Some BackUInt\<rparr>"

theorem member_code_sound_witness:
  "(\<exists>c. member_code demo_enum ''halt'' = Inr c \<and> is_valid_code demo_enum c \<and> 0 \<le> c \<and>
     c < 2 ^ enum_width demo_enum) \<and>
   member_code demo_enum ''halt'' \<noteq> member_code demo_enum ''run''"
  using member_code_sound [of demo_enum "''halt''" "''run''"] by (simp add: demo_enum_def wf_enum_def)

end
