(* ===== verification/Runtime_Values.thy ===== *)
theory Runtime_Values
  imports Hw_Types
begin

text \<open>
  Runtime values of hardware types, \<^verbatim>\<open>zlang/ir/runtime_values.py\<close>.  A Python object that
  reaches these functions is a \<open>value\<close>: \<^verbatim>\<open>bool\<close> is kept apart from \<^verbatim>\<open>int\<close>, because the
  code treats \<^verbatim>\<open>True\<close> as an integer in some checks (\<open>as_int\<close>) and rejects it in others;
  a dict is an association list with distinct keys.  The lemmas show that zero values and
  normalised scalars belong to their types, that the width functions return the least
  width, and that flattening and rebuilding a vector preserve its leaves.
\<close>

section \<open>Values\<close>

datatype rt_value =
    VInt int
  | VBool bool
  | VStr string
  | VList "rt_value list"
  | VTuple "rt_value list"
  | VDict "(string \<times> rt_value) list"
  | VUnion hwtype string "(string \<times> rt_value) list"

datatype rt_error =
    WidthNeedsNonNegative | WidthNeedsInteger
  | NoVariant string | UnionFieldNames | UnionFieldDoesNotFit string | NoField string
  | IllegalEnumCode int | NotScalar | NoZero
  | ReshapeLength | ReshapeLeaves

text \<open>\<^verbatim>\<open>isinstance(value, int)\<close> and the integer it stands for; \<^verbatim>\<open>bool\<close> is a subclass.\<close>

fun as_int :: "rt_value \<Rightarrow> int option" where
  "as_int (VInt i) = Some i"
| "as_int (VBool b) = Some (if b then 1 else 0)"
| "as_int _ = None"

text \<open>\<^verbatim>\<open>isinstance(value, (list, tuple))\<close> and its elements.\<close>

fun seq_items :: "rt_value \<Rightarrow> rt_value list option" where
  "seq_items (VList xs) = Some xs"
| "seq_items (VTuple xs) = Some xs"
| "seq_items _ = None"

fun minimum_unsigned_width :: "rt_value \<Rightarrow> rt_error + nat" where
  "minimum_unsigned_width (VInt v) =
     (if v < 0 then Inl WidthNeedsNonNegative else Inr (max 1 (bit_length v)))"
| "minimum_unsigned_width _ = Inl WidthNeedsNonNegative"

fun minimum_signed_width :: "rt_value \<Rightarrow> rt_error + nat" where
  "minimum_signed_width (VInt v) =
     (if v \<ge> 0 then Inr (max 1 (bit_length v + 1)) else Inr (max 1 (bit_length (NOT v) + 1)))"
| "minimum_signed_width _ = Inl WidthNeedsInteger"

section \<open>Membership in a type\<close>

fun is_signed :: "hwtype \<Rightarrow> bool" where
  "is_signed (SIntType _) = True"
| "is_signed (FixedType _ _ _) = True"
| "is_signed _ = False"

text \<open>The integers a scalar type admits, as \<^verbatim>\<open>scalar_fits\<close> compares them.\<close>

fun int_fits :: "int \<Rightarrow> hwtype \<Rightarrow> bool" where
  "int_fits v BitType = (v = 0 \<or> v = 1)"
| "int_fits v (SIntType w) = (- (2 ^ (w - 1)) \<le> v \<and> v < 2 ^ (w - 1))"
| "int_fits v (FixedType w f p) = (- (2 ^ (w - 1)) \<le> v \<and> v < 2 ^ (w - 1))"
| "int_fits v (UIntType w) = (0 \<le> v \<and> v < 2 ^ w)"
| "int_fits v (BitsType w) = (0 \<le> v \<and> v < 2 ^ w)"
| "int_fits v (UFixedType w f p) = (0 \<le> v \<and> v < 2 ^ w)"
| "int_fits v (EnumType e) = is_valid_code e v"
| "int_fits v _ = False"

definition scalar_fits :: "rt_value \<Rightarrow> hwtype \<Rightarrow> bool" where
  "scalar_fits v t = (case t of
       EnumType e \<Rightarrow> (case v of VInt i \<Rightarrow> int_fits i t | _ \<Rightarrow> False)
     | _ \<Rightarrow> (case as_int v of None \<Rightarrow> False | Some i \<Rightarrow> int_fits i t))"

fun runtime_value_fits :: "rt_value \<Rightarrow> hwtype \<Rightarrow> bool" where
  "runtime_value_fits v (StructType n fs) = (case v of
       VDict kvs \<Rightarrow> set (map fst kvs) = set (map fst fs) \<and>
         (\<forall>f\<in>set fs. case map_of kvs (fst f) of None \<Rightarrow> False | Some x \<Rightarrow> runtime_value_fits x (snd f))
     | _ \<Rightarrow> False)"
| "runtime_value_fits v (TaggedUnionType n vs d) = (case v of
       VUnion t var fs \<Rightarrow> t = TaggedUnionType n vs d | _ \<Rightarrow> False)"
| "runtime_value_fits v (TupleType ts) = (case v of
       VTuple xs \<Rightarrow> length xs = length ts \<and> (\<forall>p\<in>set (zip xs ts). runtime_value_fits (fst p) (snd p))
     | _ \<Rightarrow> False)"
| "runtime_value_fits v (VecType n t) = (case seq_items v of
       None \<Rightarrow> False | Some xs \<Rightarrow> length xs = n \<and> (\<forall>x\<in>set xs. runtime_value_fits x t))"
| "runtime_value_fits v t = scalar_fits v t"

text \<open>\<^verbatim>\<open>TaggedUnionValue.__post_init__\<close> and \<^verbatim>\<open>field\<close>, for a value of a union type.\<close>

definition mk_union_value ::
    "string \<Rightarrow> union_variant list \<Rightarrow> string \<Rightarrow> string \<Rightarrow> (string \<times> rt_value) list \<Rightarrow> rt_error + rt_value" where
  "mk_union_value n vs d var fs = (case union_variant_of vs var of
       None \<Rightarrow> Inl (NoVariant var)
     | Some decl \<Rightarrow>
         if map fst fs \<noteq> map fst (snd decl) then Inl UnionFieldNames
         else (case List.find (\<lambda>p. \<not> runtime_value_fits (snd (snd p)) (snd (fst p))) (zip (snd decl) fs) of
             Some p \<Rightarrow> Inl (UnionFieldDoesNotFit (fst (fst p)))
           | None \<Rightarrow> Inr (VUnion (TaggedUnionType n vs d) var fs)))"

definition union_value_field :: "(string \<times> rt_value) list \<Rightarrow> string \<Rightarrow> rt_error + rt_value" where
  "union_value_field fs n = (case map_of (rev fs) n of None \<Rightarrow> Inl (NoField n) | Some v \<Rightarrow> Inr v)"

section \<open>Normalisation and zero\<close>

definition wrap_signed :: "nat \<Rightarrow> int \<Rightarrow> int" where
  "wrap_signed w raw = (if raw \<ge> 2 ^ (w - 1) then raw - 2 ^ w else raw)"

definition normalize_scalar :: "int \<Rightarrow> hwtype \<Rightarrow> rt_error + int" where
  "normalize_scalar v t = (case t of
       BitType \<Rightarrow> Inr (if v = 0 then 0 else 1)
     | EnumType e \<Rightarrow> (if scalar_fits (VInt v) t then Inr v else Inl (IllegalEnumCode v))
     | _ \<Rightarrow> if \<not> flat_scalar t then Inl NotScalar
           else let raw = v AND ones (width t)
                in Inr (if is_signed t then wrap_signed (width t) raw else raw))"

fun zero_runtime_value :: "hwtype \<Rightarrow> rt_error + rt_value" where
  "zero_runtime_value (EnumType e) = Inr (VInt (hd (enum_codes e)))"
| "zero_runtime_value (StructType n fs) =
     bindE (mapE (\<lambda>f. bindE (zero_runtime_value (snd f)) (\<lambda>x. Inr (fst f, x))) fs)
       (\<lambda>kvs. Inr (VDict (dict_of kvs)))"
| "zero_runtime_value (TaggedUnionType n vs d) = (case vs of [] \<Rightarrow> Inl NoZero
     | v # _ \<Rightarrow> bindE (mapE (\<lambda>f. bindE (zero_runtime_value (snd f)) (\<lambda>x. Inr (fst f, x))) (snd v))
         (\<lambda>fs. mk_union_value n vs d (fst v) fs))"
| "zero_runtime_value (TupleType ts) = bindE (mapE zero_runtime_value ts) (\<lambda>xs. Inr (VTuple xs))"
| "zero_runtime_value (VecType n t) =
     bindE (mapE (\<lambda>_. zero_runtime_value t) [0..<n]) (\<lambda>xs. Inr (VList xs))"
| "zero_runtime_value t = Inr (VInt 0)"

section \<open>Vector leaves\<close>

text \<open>\<open>flatten_vector n t v\<close> is \<^verbatim>\<open>flatten_vector_value(VecType(n, t), v)\<close>.\<close>

fun flatten_vector :: "nat \<Rightarrow> hwtype \<Rightarrow> rt_value \<Rightarrow> rt_error + rt_value list" where
  "flatten_vector n (VecType m e) v = (case seq_items v of None \<Rightarrow> Inl ReshapeLength
     | Some xs \<Rightarrow> if length xs \<noteq> n then Inl ReshapeLength
         else bindE (mapE (\<lambda>x. flatten_vector m e x) xs) (\<lambda>ls. Inr (concat ls)))"
| "flatten_vector n t v = (case seq_items v of None \<Rightarrow> Inl ReshapeLength
     | Some xs \<Rightarrow> if length xs \<noteq> n then Inl ReshapeLength else Inr xs)"

function rebuild_vector :: "nat \<Rightarrow> hwtype \<Rightarrow> rt_value list \<Rightarrow> nat \<Rightarrow> rt_error + (rt_value list \<times> nat)"
  and rebuild_rows :: "nat \<Rightarrow> nat \<Rightarrow> hwtype \<Rightarrow> rt_value list \<Rightarrow> nat \<Rightarrow> rt_error + (rt_value list \<times> nat)"
where
  "rebuild_vector n t ls off = (case t of
       VecType m e \<Rightarrow> rebuild_rows n m e ls off
     | _ \<Rightarrow> if off + n > length ls then Inl ReshapeLeaves
           else Inr (take n (drop off ls), off + n))"
| "rebuild_rows 0 m e ls off = Inr ([], off)"
| "rebuild_rows (Suc k) m e ls off =
     bindE (rebuild_vector m e ls off) (\<lambda>(row, off1).
       bindE (rebuild_rows k m e ls off1) (\<lambda>(rows, off2). Inr (VList row # rows, off2)))"
  by pat_completeness auto
termination
  by (relation "measures [\<lambda>x. case x of Inl (n, t, ls, off) \<Rightarrow> 2 * size t
       | Inr (k, m, e, ls, off) \<Rightarrow> Suc (2 * size e),
     \<lambda>x. case x of Inl (n, t, ls, off) \<Rightarrow> 0 | Inr (k, m, e, ls, off) \<Rightarrow> k]") auto

declare rebuild_vector.simps [simp del]

fun leaf_count :: "nat \<Rightarrow> hwtype \<Rightarrow> nat" where
  "leaf_count n (VecType m e) = n * leaf_count m e"
| "leaf_count n t = n"

section \<open>Least widths\<close>

lemma minimum_unsigned_width_le:
  "minimum_unsigned_width (VInt v) = Inr w \<Longrightarrow> 0 < k \<Longrightarrow> w \<le> k \<longleftrightarrow> int_fits v (UIntType k)"
  by (auto simp: bit_length_le_iff split: if_splits)

lemma signed_fits_iff: "int_fits v (SIntType (Suc k)) \<longleftrightarrow> (if v \<ge> 0 then v else NOT v) < 2 ^ k"
  by (auto simp: not_int_def)

text \<open>
  \<^verbatim>\<open>minimum_signed_width\<close> returns, for every integer, the least positive width of a
  two's-complement type that admits the value.
\<close>

theorem minimum_signed_width_least:
  "\<exists>w. minimum_signed_width (VInt v) = Inr w \<and> 0 < w \<and>
     (\<forall>k. w \<le> k \<longleftrightarrow> 0 < k \<and> int_fits v (SIntType k))"
proof -
  let ?m = "if v \<ge> 0 then v else NOT v"
  have m: "0 \<le> ?m" by (simp add: not_int_def)
  have "minimum_signed_width (VInt v) = Inr (Suc (bit_length ?m))" by simp
  moreover have "Suc (bit_length ?m) \<le> k \<longleftrightarrow> 0 < k \<and> int_fits v (SIntType k)" for k
  proof (cases k)
    case (Suc j)
    then show ?thesis by (simp only: Suc_le_mono bit_length_le_iff [OF m] signed_fits_iff) simp
  qed simp
  ultimately show ?thesis by blast
qed

section \<open>Normalised scalars\<close>

lemma wrap_signed_fits:
  assumes "0 < w" "0 \<le> raw" "raw < 2 ^ w"
  shows "- (2 ^ (w - 1)) \<le> wrap_signed w raw \<and> wrap_signed w raw < 2 ^ (w - 1)"
  using assms by (cases w) (auto simp: wrap_signed_def)

lemma wrap_signed_mod: "wrap_signed w raw mod 2 ^ w = raw mod 2 ^ w"
  by (simp add: wrap_signed_def)

lemma signed_range_unique:
  fixes a b :: int
  assumes "0 < w" "a mod 2 ^ w = b mod 2 ^ w"
    and "- (2 ^ (w - 1)) \<le> a" "a < 2 ^ (w - 1)" "- (2 ^ (w - 1)) \<le> b" "b < 2 ^ (w - 1)"
  shows "a = b"
proof -
  obtain n where w: "w = Suc n" using assms(1) by (cases w) auto
  have shift: "(x + 2 ^ n) mod 2 ^ w = x + 2 ^ n" if "- (2 ^ n) \<le> x" "x < 2 ^ n" for x :: int
    using that w by (intro mod_pos_pos_trivial) auto
  have "(a + 2 ^ n) mod 2 ^ w = (b + 2 ^ n) mod 2 ^ w"
    using assms(2) by (metis mod_add_cong)
  then show ?thesis using shift [of a] shift [of b] assms w by simp
qed

lemma int_fits_unique:
  assumes "flat_scalar t" "wf_type t" "int_fits a t" "int_fits b t"
    and "a mod 2 ^ width t = b mod 2 ^ width t"
  shows "a = b"
proof (cases "is_signed t")
  case True
  then show ?thesis using assms by (cases t) (auto intro: signed_range_unique)
next
  case False
  then show ?thesis using assms by (cases t) auto
qed

lemma normalize_scalar_flat:
  assumes "flat_scalar t" "t \<noteq> BitType"
  shows "normalize_scalar v t =
    Inr (if is_signed t then wrap_signed (width t) (v mod 2 ^ width t) else v mod 2 ^ width t)"
  using assms by (cases t) (simp_all add: normalize_scalar_def and_ones Let_def)

text \<open>
  C10: \<^verbatim>\<open>normalize_scalar\<close> maps every integer to a value of the finite-width type and leaves
  a value that fits unchanged.  For the type \<^verbatim>\<open>bit\<close> the value is the truth of the integer; for
  every other flat scalar it is the one value of the type congruent to the integer modulo
  \<open>2 ^ width\<close>.
\<close>

theorem normalize_scalar_representative:
  assumes "flat_scalar t" and "wf_type t"
  shows "\<exists>r. normalize_scalar v t = Inr r \<and> int_fits r t \<and> (int_fits v t \<longrightarrow> r = v) \<and>
    (if t = BitType then r = of_bool (v \<noteq> 0)
     else r mod 2 ^ width t = v mod 2 ^ width t \<and>
       (\<forall>r'. int_fits r' t \<and> r' mod 2 ^ width t = v mod 2 ^ width t \<longrightarrow> r' = r))"
proof (cases "t = BitType")
  case True
  then show ?thesis by (auto simp: normalize_scalar_def)
next
  case False
  let ?raw = "v mod 2 ^ width t"
  let ?r = "if is_signed t then wrap_signed (width t) ?raw else ?raw"
  have fits: "int_fits ?r t"
    using assms wrap_signed_fits [of "width t" ?raw] False by (cases t) auto
  have cong: "?r mod 2 ^ width t = ?raw" by (simp add: wrap_signed_mod)
  have unique: "r' = ?r" if "int_fits r' t" "r' mod 2 ^ width t = ?raw" for r'
    using int_fits_unique [OF assms(1,2) that(1) fits] that(2) cong by simp
  have "int_fits v t \<longrightarrow> ?r = v" using unique [of v] by (metis refl)
  moreover have "\<forall>r'. int_fits r' t \<and> r' mod 2 ^ width t = ?raw \<longrightarrow> r' = ?r" using unique by blast
  moreover note normalize_scalar_flat [OF assms(1) False] fits cong
  ultimately show ?thesis unfolding if_not_P [OF False] by blast
qed

theorem normalize_scalar_representative_witness:
  "\<exists>r. normalize_scalar 200 (SIntType 8) = Inr r \<and> int_fits r (SIntType 8) \<and>
     (int_fits 200 (SIntType 8) \<longrightarrow> r = 200) \<and>
     (if SIntType 8 = BitType then r = of_bool ((200::int) \<noteq> 0)
      else r mod 2 ^ width (SIntType 8) = 200 mod 2 ^ width (SIntType 8) \<and>
        (\<forall>r'. int_fits r' (SIntType 8) \<and> r' mod 2 ^ width (SIntType 8) = 200 mod 2 ^ width (SIntType 8)
          \<longrightarrow> r' = r))"
  by (rule normalize_scalar_representative) simp_all

section \<open>Zero values\<close>

text \<open>Structs whose field names are distinct, everywhere in a type.\<close>

fun distinct_fields :: "hwtype \<Rightarrow> bool" where
  "distinct_fields (StructType n fs) = (distinct (map fst fs) \<and> (\<forall>f\<in>set fs. distinct_fields (snd f)))"
| "distinct_fields (TupleType ts) = (\<forall>t\<in>set ts. distinct_fields t)"
| "distinct_fields (VecType n t) = distinct_fields t"
| "distinct_fields t = True"

lemma flat_zero: "flat_scalar t \<Longrightarrow> zero_runtime_value t = Inr (VInt 0)"
  by (cases t) simp_all

lemma flat_fits_int: "flat_scalar t \<Longrightarrow> runtime_value_fits (VInt i) t \<longleftrightarrow> int_fits i t"
  by (cases t) (simp_all add: scalar_fits_def)

lemma zero_int_fits: "flat_scalar t \<Longrightarrow> int_fits 0 t"
  by (cases t) simp_all

lemma mk_union_value_ok:
  assumes "vs \<noteq> []" "\<forall>f\<in>set (snd (hd vs)). flat_scalar (snd f)"
  shows "mk_union_value n vs d (fst (hd vs)) (map (\<lambda>f. (fst f, VInt 0)) (snd (hd vs))) =
    Inr (VUnion (TaggedUnionType n vs d) (fst (hd vs)) (map (\<lambda>f. (fst f, VInt 0)) (snd (hd vs))))"
proof -
  have "union_variant_of vs (fst (hd vs)) = Some (hd vs)"
    using assms(1) by (cases vs) (simp_all add: union_variant_of_def)
  moreover have "runtime_value_fits (VInt 0) (snd f)" if "f \<in> set (snd (hd vs))" for f
    using that assms(2) by (simp add: flat_fits_int zero_int_fits)
  then have "List.find (\<lambda>p. \<not> runtime_value_fits (snd (snd p)) (snd (fst p)))
      (zip (snd (hd vs)) (map (\<lambda>f. (fst f, VInt 0)) (snd (hd vs)))) = None"
    by (auto simp: find_None_iff zip_map2 zip_same_conv_map)
  ultimately show ?thesis by (simp add: mk_union_value_def comp_def)
qed

lemma zero_struct_items:
  assumes "\<And>f. f \<in> set fs \<Longrightarrow> \<exists>x. zero_runtime_value (snd f) = Inr x \<and> runtime_value_fits x (snd f)"
  obtains g where "\<And>f. f \<in> set fs \<Longrightarrow> runtime_value_fits (g f) (snd f)"
    "mapE (\<lambda>f. bindE (zero_runtime_value (snd f)) (\<lambda>x. Inr (fst f, x))) fs =
      Inr (map (\<lambda>f. (fst f, g f)) fs)"
proof -
  from assms obtain g where g: "\<forall>f\<in>set fs. zero_runtime_value (snd f) = Inr (g f) \<and> runtime_value_fits (g f) (snd f)"
    by metis
  show ?thesis by (rule that [of g]) (use g in \<open>auto intro!: mapE_Inr_map\<close>)
qed

text \<open>
  C9: every validated type, whose structs have distinct field names, has a reset-zero value,
  and that value belongs to the type.
\<close>

theorem zero_runtime_value_fits:
  "wf_type t \<Longrightarrow> distinct_fields t \<Longrightarrow>
    \<exists>v. zero_runtime_value t = Inr v \<and> runtime_value_fits v t"
proof (induction t rule: zero_runtime_value.induct)
  case (1 e)
  then have "enum_codes e \<noteq> []"
    using length_enum_codes [of e] by (auto simp: wf_enum_def)
  then show ?case by (simp add: scalar_fits_def is_valid_code_def)
next
  case (2 n fs)
  then have "\<exists>x. zero_runtime_value (snd f) = Inr x \<and> runtime_value_fits x (snd f)"
    if "f \<in> set fs" for f using that by simp
  from zero_struct_items [OF this] obtain g where g: "\<And>f. f \<in> set fs \<Longrightarrow> runtime_value_fits (g f) (snd f)"
    and eq: "mapE (\<lambda>f. bindE (zero_runtime_value (snd f)) (\<lambda>x. Inr (fst f, x))) fs =
      Inr (map (\<lambda>f. (fst f, g f)) fs)" by blast
  have keys: "distinct (map fst fs)" using 2(3) by simp
  have "map_of (map (\<lambda>f. (fst f, g f)) fs) (fst f) = Some (g f)" if "f \<in> set fs" for f
    using that keys by (intro map_of_is_SomeI) (auto simp: comp_def)
  then have "\<forall>f\<in>set fs. case map_of (map (\<lambda>f. (fst f, g f)) fs) (fst f) of None \<Rightarrow> False
      | Some x \<Rightarrow> runtime_value_fits x (snd f)" using g by auto
  with eq keys show ?case by (simp add: comp_def image_image)
next
  case (3 n vs d)
  then obtain v vs' where vs: "vs = v # vs'" by (cases vs) auto
  with 3 have flat: "\<forall>f\<in>set (snd v). flat_scalar (snd f)" by auto
  then have "mapE (\<lambda>f. bindE (zero_runtime_value (snd f)) (\<lambda>x. Inr (fst f, x))) (snd v) =
      Inr (map (\<lambda>f. (fst f, VInt 0)) (snd v))"
    by (auto intro!: mapE_Inr_map simp: flat_zero)
  with mk_union_value_ok [of vs n d] flat vs show ?case by simp
next
  case (4 ts)
  then have "\<forall>t\<in>set ts. \<exists>x. zero_runtime_value t = Inr x \<and> runtime_value_fits x t" by simp
  then obtain g where "\<forall>t\<in>set ts. zero_runtime_value t = Inr (g t) \<and> runtime_value_fits (g t) t" by metis
  then show ?case using mapE_Inr_map [of ts zero_runtime_value g] by (auto simp: set_zip)
next
  case (5 n t)
  then obtain x where "zero_runtime_value t = Inr x" "runtime_value_fits x t"
    by (cases n) auto
  then show ?case using mapE_Inr_map [of "[0..<n]" "\<lambda>_. zero_runtime_value t" "\<lambda>_. x"] by simp
qed (auto simp: scalar_fits_def)

definition demo_struct :: hwtype where
  "demo_struct = StructType ''Packet'' [(''head'', UIntType 4), (''mode'', EnumType demo_enum),
     (''data'', VecType 3 (SIntType 5)), (''pair'', TupleType [BitType, BitsType 2])]"

theorem zero_runtime_value_fits_witness:
  "\<exists>v. zero_runtime_value demo_struct = Inr v \<and> runtime_value_fits v demo_struct"
  by (rule zero_runtime_value_fits) (auto simp: demo_struct_def demo_enum_def wf_enum_def)

section \<open>Reshaping vectors\<close>

lemma flatten_vector_length: "flatten_vector n t v = Inr ls \<Longrightarrow> length ls = leaf_count n t"
proof (induction n t v arbitrary: ls rule: flatten_vector.induct)
  case (1 n m e v)
  then obtain xs yss where xs: "seq_items v = Some xs" "length xs = n"
    "mapE (\<lambda>x. flatten_vector m e x) xs = Inr yss" "ls = concat yss"
    by (auto split: option.splits if_splits)
  have "length ys = leaf_count m e" if "ys \<in> set yss" for ys
  proof -
    from that obtain i where i: "i < length xs" "ys = yss ! i"
      using mapE_Inr_length [OF xs(3)] by (auto simp: in_set_conv_nth)
    then show ?thesis
      using 1(1) [OF xs(1) _ nth_mem] mapE_Inr_nth [OF xs(3) i(1)] xs(2) by auto
  qed
  then have "map length yss = replicate n (leaf_count m e)"
    using xs(2) mapE_Inr_length [OF xs(3)] by (auto intro!: replicate_eqI)
  then show ?case by (simp add: xs(4) length_concat sum_list_replicate)
qed (auto split: option.splits if_splits)

lemma rebuild_flatten:
  "off + leaf_count n t \<le> length ls \<Longrightarrow>
     \<exists>vs. rebuild_vector n t ls off = Inr (vs, off + leaf_count n t) \<and>
       flatten_vector n t (VList vs) = Inr (take (leaf_count n t) (drop off ls))"
  "off + k * leaf_count m e \<le> length ls \<Longrightarrow>
     \<exists>rows. rebuild_rows k m e ls off = Inr (rows, off + k * leaf_count m e) \<and> length rows = k \<and>
       (\<exists>yss. mapE (flatten_vector m e) rows = Inr yss \<and>
         concat yss = take (k * leaf_count m e) (drop off ls))"
proof (induction n t ls off and k m e ls off rule: rebuild_vector_rebuild_rows.induct)
  case (1 n t ls off)
  show ?case
  proof (cases "\<exists>m e. t = VecType m e")
    case True
    then obtain m e where t: "t = VecType m e" by blast
    with 1 obtain rows yss where "rebuild_rows n m e ls off = Inr (rows, off + n * leaf_count m e)"
      "length rows = n" "mapE (flatten_vector m e) rows = Inr yss"
      "concat yss = take (n * leaf_count m e) (drop off ls)" by auto
    then show ?thesis by (intro exI [of _ rows]) (simp add: t rebuild_vector.simps)
  next
    case False
    then have "leaf_count n t = n" by (cases t) auto
    with False 1 show ?thesis by (cases t) (auto simp: rebuild_vector.simps)
  qed
next
  case (2 m e ls off)
  then show ?case by simp
next
  case (3 k m e ls off)
  let ?c = "leaf_count m e"
  from 3 obtain vs where vs: "rebuild_vector m e ls off = Inr (vs, off + ?c)"
    "flatten_vector m e (VList vs) = Inr (take ?c (drop off ls))" by auto
  from 3(2) [OF vs(1) refl] 3(3) obtain rows yss where
    rows: "rebuild_rows k m e ls (off + ?c) = Inr (rows, off + ?c + k * ?c)" "length rows = k"
    "mapE (flatten_vector m e) rows = Inr yss" "concat yss = take (k * ?c) (drop (off + ?c) ls)"
    by auto
  have "take ?c (drop off ls) @ take (k * ?c) (drop (off + ?c) ls) = take (?c + k * ?c) (drop off ls)"
    by (simp add: take_add add.commute)
  with vs rows show ?case by (simp add: rebuild_vector.simps add.assoc)
qed

text \<open>
  C11: reshaping is lossless.  The leaves flattened out of a vector value rebuild into any
  vector type with the same number of leaves, the rebuild consumes all of them, and
  flattening the result gives back the same leaves in the same order.
\<close>

theorem reshape_preserves_leaves:
  assumes "flatten_vector n s v = Inr ls" and "leaf_count n s = leaf_count m t"
  shows "\<exists>vs. rebuild_vector m t ls 0 = Inr (vs, length ls) \<and> flatten_vector m t (VList vs) = Inr ls"
proof -
  have len: "length ls = leaf_count m t" using flatten_vector_length [OF assms(1)] assms(2) by simp
  with rebuild_flatten(1) [of 0 m t ls] show ?thesis by simp
qed

theorem reshape_preserves_leaves_witness:
  "\<exists>vs. rebuild_vector 3 (VecType 2 BitType) [VInt 1, VInt 0, VInt 0, VInt 1, VInt 1, VInt 1] 0 =
      Inr (vs, length [VInt 1, VInt 0, VInt 0, VInt 1, VInt 1, VInt 1]) \<and>
    flatten_vector 3 (VecType 2 BitType) (VList vs) = Inr [VInt 1, VInt 0, VInt 0, VInt 1, VInt 1, VInt 1]"
  by (rule reshape_preserves_leaves
      [where n = 2 and s = "VecType 3 BitType"
         and v = "VList [VTuple [VInt 1, VInt 0, VInt 0], VList [VInt 1, VInt 1, VInt 1]]"]) simp_all

end
