(* ===== verification/Codec.thy ===== *)
theory Codec
  imports Zl_Prelude
begin

text \<open>
  The interface of a bit codec indexed by a type: an encoder of values into raw integers
  and a decoder, both fallible.  \<open>partial_codec\<close> promises that every member of a type is
  encoded within the type's width and decodes to its canonical form, and that nothing
  else is encoded; \<open>total_codec\<close> adds that every raw word of the width decodes, to a
  value that encodes back to it.  The clients of these laws are proved here once.
\<close>

locale partial_codec =
  fixes ok :: "'t \<Rightarrow> bool"
    and bits :: "'t \<Rightarrow> nat"
    and member :: "'v \<Rightarrow> 't \<Rightarrow> bool"
    and canon :: "'t \<Rightarrow> 'v \<Rightarrow> 'v"
    and enc :: "'t \<Rightarrow> 'v \<Rightarrow> 'e + int"
    and dec :: "'t \<Rightarrow> int \<Rightarrow> 'd + 'v"
  assumes enc_member: "ok t \<Longrightarrow> member v t \<Longrightarrow>
      \<exists>r. enc t v = Inr r \<and> 0 \<le> r \<and> r < 2 ^ bits t \<and> dec t r = Inr (canon t v)"
    and enc_only: "ok t \<Longrightarrow> enc t v = Inr r \<Longrightarrow> member v t"
begin

lemma enc_iff: "ok t \<Longrightarrow> (\<exists>r. enc t v = Inr r) \<longleftrightarrow> member v t"
  using enc_member enc_only by blast

lemma enc_bound: "ok t \<Longrightarrow> enc t v = Inr r \<Longrightarrow> 0 \<le> r \<and> r < 2 ^ bits t"
  using enc_member enc_only by (metis sum.inject(2))

lemma dec_enc: "ok t \<Longrightarrow> enc t v = Inr r \<Longrightarrow> dec t r = Inr (canon t v)"
  using enc_member enc_only by (metis sum.inject(2))

lemma enc_inj: "ok t \<Longrightarrow> enc t v = Inr r \<Longrightarrow> enc t v' = Inr r \<Longrightarrow> canon t v = canon t v'"
  using dec_enc by (metis sum.inject(2))

end

locale total_codec = partial_codec +
  assumes dec_total: "ok t \<Longrightarrow> 0 \<le> r \<Longrightarrow> r < 2 ^ bits t \<Longrightarrow> \<exists>v. dec t r = Inr v \<and> enc t v = Inr r"
begin

lemma dec_member: "ok t \<Longrightarrow> 0 \<le> r \<Longrightarrow> r < 2 ^ bits t \<Longrightarrow> dec t r = Inr v \<Longrightarrow> member v t \<and> enc t v = Inr r"
  using dec_total enc_only by (metis sum.inject(2))

lemma dec_canonical: "ok t \<Longrightarrow> 0 \<le> r \<Longrightarrow> r < 2 ^ bits t \<Longrightarrow> dec t r = Inr v \<Longrightarrow> canon t v = v"
  using dec_member dec_enc by (metis sum.inject(2))

text \<open>Reading the bits of a value of one type as a value of another type of the same width.\<close>

lemma recode:
  assumes "ok s" "ok t" "bits s = bits t" "member v s"
  shows "\<exists>r u. enc s v = Inr r \<and> dec t r = Inr u \<and> member u t \<and> enc t u = Inr r \<and>
    dec s r = Inr (canon s v)"
proof -
  obtain r where r: "enc s v = Inr r" "0 \<le> r" "r < 2 ^ bits t" "dec s r = Inr (canon s v)"
    using enc_member assms by metis
  with dec_total [OF assms(2)] dec_member [OF assms(2)] show ?thesis by blast
qed

end

end
