(* ===== verification/Packing.thy ===== *)
theory Packing
  imports Runtime_Values Codec
begin

text \<open>
  Bit packing and slicing, \<^verbatim>\<open>zlang/ir/packing.py\<close>: the one definition of the order of
  bits in an aggregate.  Vector elements and tuple items are packed least-significant
  first, struct fields most-significant first, a tagged union is its tag above its
  payload.  \<open>pack_runtime\<close> and \<open>unpack_runtime\<close> are shown to be mutually inverse;
  the interface they satisfy is the locale \<open>total_codec\<close>, which the client facts (a
  bit cast is invertible, an encoding is injective) are proved from.
\<close>

section \<open>Definitions\<close>

datatype pack_error =
    NotPackable | EmptyWidth | IndexOutside | ElementWidth | NoStructField string | MaskWidth
  | NegativeLsb | MsbBelowLsb | SourceWidth | SliceExceeds | NotIntegral | ConcatArity
  | DoesNotFit | NotMapping | WrongFields | WrongLength | RawDoesNotFit
  | NoUnionVariant string | NoUnionField string | NegativeShift | UnionKey string

fun is_bit_packable :: "hwtype \<Rightarrow> bool" where
  "is_bit_packable (EnumType e) = False"
| "is_bit_packable (StructType n fs) = (fs \<noteq> [] \<and> (\<forall>f\<in>set fs. is_bit_packable (snd f)))"
| "is_bit_packable (TupleType ts) = (\<forall>t\<in>set ts. is_bit_packable t)"
| "is_bit_packable (VecType n t) = is_bit_packable t"
| "is_bit_packable (TaggedUnionType n vs d) = False"
| "is_bit_packable t = True"

definition require_bit_packable :: "hwtype \<Rightarrow> pack_error + unit" where
  "require_bit_packable t = guardE (is_bit_packable t) NotPackable"

definition packed_width :: "hwtype \<Rightarrow> pack_error + nat" where
  "packed_width t = bindE (require_bit_packable t)
     (\<lambda>_. if width t < 1 then Inl EmptyWidth else Inr (width t))"

definition vector_element_lsb :: "nat \<Rightarrow> hwtype \<Rightarrow> int \<Rightarrow> pack_error + nat" where
  "vector_element_lsb n t i =
     (if \<not> (0 \<le> i \<and> i < int n) then Inl IndexOutside
      else if width t < 1 then Inl ElementWidth
      else Inr (nat i * width t))"

definition tuple_element_lsb :: "hwtype list \<Rightarrow> int \<Rightarrow> pack_error + nat" where
  "tuple_element_lsb ts i =
     (if \<not> (0 \<le> i \<and> i < int (length ts)) then Inl IndexOutside
      else if (\<exists>t\<in>set ts. width t < 1) then Inl ElementWidth
      else Inr (sum_list (map width (take (nat i) ts))))"

fun struct_field_lsb :: "(string \<times> hwtype) list \<Rightarrow> string \<Rightarrow> pack_error + nat" where
  "struct_field_lsb [] n = Inl (NoStructField n)"
| "struct_field_lsb (f # fs) n =
     (if fst f = n then Inr (sum_list (map (\<lambda>g. width (snd g)) fs)) else struct_field_lsb fs n)"

definition bit_mask :: "int \<Rightarrow> pack_error + int" where
  "bit_mask w = (if w < 1 then Inl MaskWidth else Inr (ones (nat w)))"

definition slice_width :: "int \<Rightarrow> int \<Rightarrow> pack_error + int" where
  "slice_width msb lsb = (if lsb < 0 then Inl NegativeLsb
     else if msb < lsb then Inl MsbBelowLsb else Inr (msb - lsb + 1))"

definition slice_runtime :: "rt_value \<Rightarrow> int \<Rightarrow> int \<Rightarrow> int \<Rightarrow> pack_error + int" where
  "slice_runtime v source_width msb lsb =
     bindE (slice_width msb lsb) (\<lambda>w.
       if source_width < 1 then Inl SourceWidth
       else if msb \<ge> source_width then Inl SliceExceeds
       else (case as_int v of None \<Rightarrow> Inl NotIntegral
         | Some i \<Rightarrow> bindE (bit_mask w) (\<lambda>m. Inr (shr i (nat lsb) AND m))))"

fun concat_loop :: "int \<Rightarrow> (rt_value \<times> int) list \<Rightarrow> pack_error + int" where
  "concat_loop result [] = Inr result"
| "concat_loop result (p # ps) = (case as_int (fst p) of None \<Rightarrow> Inl NotIntegral
     | Some v \<Rightarrow> if snd p < 0 then Inl NegativeShift
         else bindE (bit_mask (snd p)) (\<lambda>m.
           concat_loop (shl result (nat (snd p)) OR (v AND m)) ps))"

definition concat_runtime :: "(rt_value \<times> int) list \<Rightarrow> pack_error + int" where
  "concat_runtime parts = bindE (concat_loop 0 parts)
     (\<lambda>r. if length parts < 2 then Inl ConcatArity else Inr r)"

text \<open>The accumulation loops of \<^verbatim>\<open>pack_runtime\<close>: first field at the top, first element at the bottom.\<close>

definition join_msb :: "(nat \<times> int) list \<Rightarrow> int" where
  "join_msb ps = foldl (\<lambda>acc p. shl acc (fst p) OR snd p) 0 ps"

definition join_lsb :: "(nat \<times> int) list \<Rightarrow> int" where
  "join_lsb ps = foldl (\<lambda>acc p. acc OR shl (snd p) (fst p)) 0 ps"

definition pack_scalar :: "hwtype \<Rightarrow> rt_value \<Rightarrow> pack_error + int" where
  "pack_scalar t v = (case as_int v of None \<Rightarrow> Inl NotIntegral
     | Some i \<Rightarrow> if int_fits i t then Inr (i AND ones (width t)) else Inl DoesNotFit)"

function pack_runtime :: "hwtype \<Rightarrow> rt_value \<Rightarrow> pack_error + int" where
  "pack_runtime t v = bindE (require_bit_packable t) (\<lambda>_. case t of
       StructType n fs \<Rightarrow> (case v of
           VDict kvs \<Rightarrow> if set (map fst kvs) \<noteq> set (map fst fs) then Inl WrongFields
             else bindE (mapE (\<lambda>f. bindE (packed_width (snd f)) (\<lambda>w.
                   case map_of kvs (fst f) of None \<Rightarrow> Inl WrongFields
                   | Some x \<Rightarrow> bindE (pack_runtime (snd f) x) (\<lambda>r. Inr (w, r)))) fs)
               (\<lambda>ps. Inr (join_msb ps))
         | _ \<Rightarrow> Inl NotMapping)
     | TupleType ts \<Rightarrow> (case v of
           VTuple xs \<Rightarrow> if length xs \<noteq> length ts then Inl WrongLength
             else bindE (mapE (\<lambda>p. bindE (pack_runtime (fst (snd p)) (snd (snd p))) (\<lambda>r.
                   bindE (tuple_element_lsb ts (int (fst p))) (\<lambda>off. Inr (off, r))))
                 (zip [0..<length ts] (zip ts xs)))
               (\<lambda>ps. Inr (join_lsb ps))
         | _ \<Rightarrow> Inl WrongLength)
     | VecType n e \<Rightarrow> (case seq_items v of None \<Rightarrow> Inl WrongLength
         | Some xs \<Rightarrow> if length xs \<noteq> n then Inl WrongLength
             else bindE (mapE (\<lambda>p. bindE (pack_runtime e (snd p)) (\<lambda>r.
                   bindE (vector_element_lsb n e (int (fst p))) (\<lambda>off. Inr (off, r))))
                 (zip [0..<n] xs))
               (\<lambda>ps. Inr (join_lsb ps)))
     | _ \<Rightarrow> pack_scalar t v)"
  by pat_completeness auto
termination
proof (relation "measure (\<lambda>a. size (fst a))", goal_cases)
  case (3 t v u ts xs z)
  then have "snd z \<in> set (zip ts xs)" by (metis set_zip_rightD prod.collapse)
  then have "fst (snd z) \<in> set ts" by (metis set_zip_leftD prod.collapse)
  then show ?case using 3 by (auto simp: less_Suc_eq_le size_list_estimation' split: prod.split)
qed (auto simp: less_Suc_eq_le intro: size_list_estimation' termination_simp)

declare pack_runtime.simps [simp del]

definition unpack_scalar :: "hwtype \<Rightarrow> int \<Rightarrow> rt_value" where
  "unpack_scalar t r = (let raw = r AND ones (width t)
     in VInt (if is_signed t then wrap_signed (width t) raw else raw))"

function unpack_runtime :: "hwtype \<Rightarrow> int \<Rightarrow> pack_error + rt_value" where
  "unpack_runtime t r = bindE (require_bit_packable t) (\<lambda>_. bindE (packed_width t) (\<lambda>w.
     if r < 0 \<or> r > ones w then Inl RawDoesNotFit else (case t of
       StructType n fs \<Rightarrow>
         bindE (mapE (\<lambda>f. bindE (struct_field_lsb fs (fst f)) (\<lambda>off.
             bindE (packed_width (snd f)) (\<lambda>fw.
               bindE (unpack_runtime (snd f) (shr r off AND ones fw)) (\<lambda>x. Inr (fst f, x))))) fs)
           (\<lambda>kvs. Inr (VDict (dict_of kvs)))
     | TupleType ts \<Rightarrow>
         bindE (mapE (\<lambda>p. bindE (packed_width (snd p)) (\<lambda>ew.
             bindE (tuple_element_lsb ts (int (fst p))) (\<lambda>off.
               unpack_runtime (snd p) (shr r off AND ones ew)))) (zip [0..<length ts] ts))
           (\<lambda>xs. Inr (VTuple xs))
     | VecType n e \<Rightarrow> bindE (packed_width e) (\<lambda>ew.
         bindE (mapE (\<lambda>i. bindE (vector_element_lsb n e (int i)) (\<lambda>off.
             unpack_runtime e (shr r off AND ones ew))) [0..<n])
           (\<lambda>xs. Inr (VList xs)))
     | _ \<Rightarrow> Inr (unpack_scalar t r))))"
  by pat_completeness auto
termination
proof (relation "measure (\<lambda>a. size (fst a))", goal_cases)
  case (3 t r u w ts p)
  then have "snd p \<in> set ts" by (cases p) (auto dest!: set_zip_rightD)
  then show ?case using 3 by (auto simp: less_Suc_eq_le size_list_estimation' split: prod.split)
qed (auto simp: less_Suc_eq_le intro: size_list_estimation' termination_simp)

declare unpack_runtime.simps [simp del]

section \<open>Tagged unions\<close>

fun union_slice_loop :: "(string \<times> hwtype) list \<Rightarrow> int \<Rightarrow> string \<Rightarrow> pack_error + (int \<times> int)" where
  "union_slice_loop [] offset n = Inl (NoUnionField n)"
| "union_slice_loop (f # fs) offset n =
     (let msb = offset - 1; lsb = offset - int (width (snd f))
      in if fst f = n then Inr (msb, lsb) else union_slice_loop fs lsb n)"

definition tagged_union_field_slice :: "union_variant list \<Rightarrow> string \<Rightarrow> string \<Rightarrow> pack_error + (int \<times> int)" where
  "tagged_union_field_slice vs var n = (case union_variant_of vs var of
       None \<Rightarrow> Inl (NoUnionVariant var)
     | Some v \<Rightarrow> union_slice_loop (snd v) (int (payload_width vs)) n)"

fun union_payload_loop :: "(string \<times> hwtype) list \<Rightarrow> (string \<times> rt_value) list \<Rightarrow> int \<Rightarrow> pack_error + int" where
  "union_payload_loop [] kvs payload = Inr payload"
| "union_payload_loop (f # fs) kvs payload = (case map_of kvs (fst f) of None \<Rightarrow> Inl (UnionKey (fst f))
     | Some x \<Rightarrow> bindE (pack_runtime (snd f) x) (\<lambda>r.
         union_payload_loop fs kvs (shl payload (width (snd f)) OR r)))"

text \<open>\<open>pack_tagged_union_runtime vs var kvs\<close>, of a value of the union with variants \<open>vs\<close>.\<close>

definition pack_tagged_union_runtime :: "union_variant list \<Rightarrow> string \<Rightarrow> (string \<times> rt_value) list \<Rightarrow> pack_error + int" where
  "pack_tagged_union_runtime vs var kvs = (case union_variant_of vs var of
       None \<Rightarrow> Inl (NoUnionVariant var)
     | Some v \<Rightarrow> bindE (union_payload_loop (snd v) (dict_of kvs) 0) (\<lambda>payload.
         let padding = payload_width vs - variant_payload_width (snd v); payload' = shl payload padding
         in (case union_tag vs (fst v) of Inl e \<Rightarrow> Inl (NoUnionVariant var)
           | Inr tag \<Rightarrow> Inr (shl (int tag) (payload_width vs) OR payload'))))"

section \<open>Concatenation of fields as a number\<close>

text \<open>The value of a list of (width, contents) pieces, least-significant piece first.\<close>

fun lsbv :: "(nat \<times> int) list \<Rightarrow> int" where
  "lsbv [] = 0"
| "lsbv (p # ps) = snd p + lsbv ps * 2 ^ fst p"

definition total_bits :: "(nat \<times> int) list \<Rightarrow> nat" where
  "total_bits ps = sum_list (map fst ps)"

definition pieces_fit :: "(nat \<times> int) list \<Rightarrow> bool" where
  "pieces_fit ps \<longleftrightarrow> (\<forall>p\<in>set ps. 0 \<le> snd p \<and> snd p < 2 ^ fst p)"

lemma total_bits_simps [simp]:
  "total_bits [] = 0" "total_bits (p # ps) = fst p + total_bits ps" "total_bits (ps @ qs) = total_bits ps + total_bits qs"
  "total_bits (rev ps) = total_bits ps"
  by (simp_all add: total_bits_def sum_list.rev flip: rev_map)

lemma total_map: "total_bits (map (\<lambda>x. (w x, p x)) xs) = sum_list (map w xs)"
  by (simp add: total_bits_def comp_def)

lemma pieces_fit_simps [simp]:
  "pieces_fit []" "pieces_fit (p # ps) \<longleftrightarrow> 0 \<le> snd p \<and> snd p < 2 ^ fst p \<and> pieces_fit ps"
  "pieces_fit (ps @ qs) \<longleftrightarrow> pieces_fit ps \<and> pieces_fit qs" "pieces_fit (rev ps) = pieces_fit ps"
  by (auto simp: pieces_fit_def)

lemma mul_add_bound:
  fixes x y :: int
  assumes "0 \<le> x" "x < 2 ^ a" "0 \<le> y" "y < 2 ^ b"
  shows "0 \<le> x + y * 2 ^ a \<and> x + y * 2 ^ a < 2 ^ (a + b)"
proof -
  have "y + 1 \<le> 2 ^ b" using assms by simp
  then have "(y + 1) * 2 ^ a \<le> 2 ^ b * 2 ^ a" by (intro mult_right_mono) auto
  then show ?thesis using assms by (simp add: power_add algebra_simps)
qed

lemma lsbv_bound: "pieces_fit ps \<Longrightarrow> 0 \<le> lsbv ps \<and> lsbv ps < 2 ^ total_bits ps"
proof (induction ps)
  case (Cons p ps)
  then show ?case using mul_add_bound [of "snd p" "fst p" "lsbv ps" "total_bits ps"] by simp
qed simp

lemma lsbv_append: "lsbv (ps @ qs) = lsbv ps + lsbv qs * 2 ^ total_bits ps"
  by (induction ps) (simp_all add: power_add algebra_simps)

lemma lsbv_piece:
  "pieces_fit ps \<Longrightarrow> i < length ps \<Longrightarrow>
    lsbv ps div 2 ^ total_bits (take i ps) mod 2 ^ fst (ps ! i) = snd (ps ! i)"
proof (induction ps arbitrary: i)
  case (Cons p ps)
  show ?case
  proof (cases i)
    case 0
    then show ?thesis using Cons.prems split_mod_div [of "snd p" "fst p" "lsbv ps"] by simp
  next
    case (Suc j)
    have "(snd p + lsbv ps * 2 ^ fst p) div 2 ^ (fst p + total_bits (take j ps)) = lsbv ps div 2 ^ total_bits (take j ps)"
      using Cons.prems split_mod_div [of "snd p" "fst p" "lsbv ps"]
      by (simp add: power_add zdiv_zmult2_eq)
    then show ?thesis using Cons Suc by simp
  qed
qed simp

lemma join_msb_snoc: "join_msb (ps @ [p]) = shl (join_msb ps) (fst p) OR snd p"
  by (simp add: join_msb_def)

lemma join_msb_lsbv: "pieces_fit ps \<Longrightarrow> join_msb ps = lsbv (rev ps)"
proof (induction ps rule: rev_induct)
  case (snoc p ps)
  then show ?case by (simp add: join_msb_snoc or_shl_add(2))
qed (simp add: join_msb_def)

definition with_offsets :: "(nat \<times> int) list \<Rightarrow> (nat \<times> int) list" where
  "with_offsets ps = map (\<lambda>i. (total_bits (take i ps), snd (ps ! i))) [0..<length ps]"

lemma join_lsb_lsbv: "pieces_fit ps \<Longrightarrow> join_lsb (with_offsets ps) = lsbv ps"
proof (induction ps rule: rev_induct)
  case (snoc p ps)
  have "with_offsets (ps @ [p]) = with_offsets ps @ [(total_bits ps, snd p)]"
    by (simp add: with_offsets_def nth_append)
  moreover have "join_lsb (qs @ [q]) = join_lsb qs OR shl (snd q) (fst q)" for qs q
    by (simp add: join_lsb_def)
  ultimately show ?case
    using snoc lsbv_bound [of ps] by (simp add: or_shl_add(1) lsbv_append)
qed (simp add: join_lsb_def with_offsets_def)

text \<open>Cutting a number into pieces of given widths, and joining them again.\<close>

fun slices :: "nat list \<Rightarrow> int \<Rightarrow> (nat \<times> int) list" where
  "slices [] r = []"
| "slices (w # ws) r = (w, r mod 2 ^ w) # slices ws (r div 2 ^ w)"

lemma slices_simps [simp]: "map fst (slices ws r) = ws" "length (slices ws r) = length ws" "pieces_fit (slices ws r)"
  by (induction ws arbitrary: r) auto

lemma total_slices [simp]: "total_bits (slices ws r) = sum_list ws"
  by (simp add: total_bits_def)

lemma lsbv_slices: "0 \<le> r \<Longrightarrow> r < 2 ^ sum_list ws \<Longrightarrow> lsbv (slices ws r) = r"
proof (induction ws arbitrary: r)
  case (Cons w ws)
  have "r div 2 ^ w < 2 ^ sum_list ws"
    using Cons.prems by (intro div_exp_less) (simp add: power_add mult.commute)
  then show ?case using Cons by (simp add: pos_imp_zdiv_nonneg_iff mod_div_mult_eq)
qed simp

lemma slices_nth:
  "i < length ws \<Longrightarrow> slices ws r ! i = (ws ! i, r div 2 ^ sum_list (take i ws) mod 2 ^ (ws ! i))"
proof (induction ws arbitrary: r i)
  case (Cons w ws)
  then show ?case by (cases i) (simp_all add: power_add zdiv_zmult2_eq)
qed simp

section \<open>Round trips\<close>

text \<open>
  The form in which a value is read back: a bool as an integer, any sequence as a list, the
  items of a dict in declaration order.
\<close>

fun canonical_value :: "hwtype \<Rightarrow> rt_value \<Rightarrow> rt_value" where
  "canonical_value (StructType n fs) v = (case v of
       VDict kvs \<Rightarrow> VDict (map (\<lambda>f. (fst f, canonical_value (snd f) (the (map_of kvs (fst f))))) fs)
     | _ \<Rightarrow> v)"
| "canonical_value (TupleType ts) v = (case v of
       VTuple xs \<Rightarrow> VTuple (map (\<lambda>p. canonical_value (snd p) (fst p)) (zip xs ts)) | _ \<Rightarrow> v)"
| "canonical_value (VecType n t) v = (case seq_items v of
       Some xs \<Rightarrow> VList (map (canonical_value t) xs) | None \<Rightarrow> v)"
| "canonical_value (EnumType e) v = v"
| "canonical_value (TaggedUnionType n vs d) v = v"
| "canonical_value t v = (case as_int v of Some i \<Rightarrow> VInt i | None \<Rightarrow> v)"

definition codec_at :: "hwtype \<Rightarrow> bool" where
  "codec_at t \<longleftrightarrow>
     (\<forall>v. runtime_value_fits v t \<longrightarrow> (\<exists>r. pack_runtime t v = Inr r \<and> 0 \<le> r \<and> r < 2 ^ width t \<and>
        unpack_runtime t r = Inr (canonical_value t v))) \<and>
     (\<forall>v r. pack_runtime t v = Inr r \<longrightarrow> runtime_value_fits v t) \<and>
     (\<forall>r. 0 \<le> r \<and> r < 2 ^ width t \<longrightarrow> (\<exists>v. unpack_runtime t r = Inr v \<and> pack_runtime t v = Inr r))"

lemma codec_atD:
  assumes "codec_at t"
  shows "runtime_value_fits v t \<Longrightarrow> \<exists>r. pack_runtime t v = Inr r \<and> 0 \<le> r \<and> r < 2 ^ width t \<and>
        unpack_runtime t r = Inr (canonical_value t v)"
    and "pack_runtime t v = Inr r \<Longrightarrow> runtime_value_fits v t"
    and "0 \<le> r \<Longrightarrow> r < 2 ^ width t \<Longrightarrow> \<exists>v. unpack_runtime t r = Inr v \<and> pack_runtime t v = Inr r"
  using assms unfolding codec_at_def by blast+

lemma packable_width_pos: "is_bit_packable t \<Longrightarrow> wf_type t \<Longrightarrow> 0 < width t"
proof (induction t rule: is_bit_packable.induct)
  case (2 n fs)
  then show ?case by (cases fs) auto
next
  case (3 ts)
  then show ?case by (cases ts) auto
qed auto

lemma packed_width_ok: "is_bit_packable t \<Longrightarrow> wf_type t \<Longrightarrow> packed_width t = Inr (width t)"
  using packable_width_pos [of t] by (simp add: packed_width_def require_bit_packable_def guardE_def)

lemma unpack_unfold:
  assumes "is_bit_packable t" "wf_type t" "0 \<le> r" "r < 2 ^ width t"
  shows "unpack_runtime t r = (case t of
       StructType n fs \<Rightarrow>
         bindE (mapE (\<lambda>f. bindE (struct_field_lsb fs (fst f)) (\<lambda>off.
             bindE (packed_width (snd f)) (\<lambda>fw.
               bindE (unpack_runtime (snd f) (shr r off AND ones fw)) (\<lambda>x. Inr (fst f, x))))) fs)
           (\<lambda>kvs. Inr (VDict (dict_of kvs)))
     | TupleType ts \<Rightarrow>
         bindE (mapE (\<lambda>p. bindE (packed_width (snd p)) (\<lambda>ew.
             bindE (tuple_element_lsb ts (int (fst p))) (\<lambda>off.
               unpack_runtime (snd p) (shr r off AND ones ew)))) (zip [0..<length ts] ts))
           (\<lambda>xs. Inr (VTuple xs))
     | VecType n e \<Rightarrow> bindE (packed_width e) (\<lambda>ew.
         bindE (mapE (\<lambda>i. bindE (vector_element_lsb n e (int i)) (\<lambda>off.
             unpack_runtime e (shr r off AND ones ew))) [0..<n])
           (\<lambda>xs. Inr (VList xs)))
     | _ \<Rightarrow> Inr (unpack_scalar t r))"
  using assms packed_width_ok [OF assms(1,2)]
  by (subst unpack_runtime.simps) (simp add: require_bit_packable_def guardE_def ones_def)

lemma codec_at_scalar:
  assumes "flat_scalar t" "wf_type t"
  shows "codec_at t"
proof -
  have pk: "is_bit_packable t" using assms by (cases t) auto
  have pack: "pack_runtime t v = pack_scalar t v" for v
    using assms(1) by (cases t) (simp_all add: pack_runtime.simps require_bit_packable_def guardE_def)
  have unpack: "unpack_runtime t r = Inr (unpack_scalar t r)" if "0 \<le> r" "r < 2 ^ width t" for r
    using unpack_unfold [OF pk assms(2) that] assms(1) by (cases t) simp_all
  have fits: "runtime_value_fits v t \<longleftrightarrow> (\<exists>i. as_int v = Some i \<and> int_fits i t)" for v
    using assms(1) by (cases t; cases v) (simp_all add: scalar_fits_def)
  have canon: "canonical_value t v = VInt i" if "as_int v = Some i" for v i
    using assms(1) that by (cases t) simp_all
  let ?dec = "\<lambda>r. if is_signed t then wrap_signed (width t) r else r"
  have dec_fits: "int_fits (?dec r) t \<and> ?dec r mod 2 ^ width t = r" if "0 \<le> r" "r < 2 ^ width t" for r
    using that assms wrap_signed_fits [of "width t" r] wrap_signed_mod [of "width t" r]
    by (cases t) auto
  have enc_dec: "?dec (i mod 2 ^ width t) = i" if "int_fits i t" for i
    using int_fits_unique [OF assms _ that] dec_fits [of "i mod 2 ^ width t"] by simp
  show ?thesis
    unfolding codec_at_def
  proof (intro conjI allI impI)
    fix v assume "runtime_value_fits v t"
    then obtain i where i: "as_int v = Some i" "int_fits i t" using fits by blast
    then show "\<exists>r. pack_runtime t v = Inr r \<and> 0 \<le> r \<and> r < 2 ^ width t \<and>
        unpack_runtime t r = Inr (canonical_value t v)"
      using enc_dec [OF i(2)] by (simp add: pack pack_scalar_def and_ones unpack unpack_scalar_def canon)
  next
    fix v r assume "pack_runtime t v = Inr r"
    then show "runtime_value_fits v t"
      by (auto simp: pack pack_scalar_def fits split: option.splits if_splits)
  next
    fix r :: int assume "0 \<le> r \<and> r < 2 ^ width t"
    then show "\<exists>v. unpack_runtime t r = Inr v \<and> pack_runtime t v = Inr r"
      using dec_fits [of r] by (simp add: unpack unpack_scalar_def pack pack_scalar_def and_ones)
  qed
qed

subsection \<open>Structs\<close>

lemma map_fun_of_distinct:
  assumes "distinct xs" "length ys = length xs"
  shows "\<exists>p. ys = map p xs"
proof
  show "ys = map (\<lambda>x. the (map_of (zip xs ys) x)) xs"
    using assms by (intro nth_equalityI) (simp_all add: map_of_zip_nth)
qed

lemma pairs_eq:
  assumes "map fst ps = map w xs" "map snd ps = map p xs"
  shows "ps = map (\<lambda>x. (w x, p x)) xs"
proof -
  have "ps = zip (map fst ps) (map snd ps)" by (simp add: zip_map_fst_snd)
  then show ?thesis by (simp only: assms zip_map_map zip_same_conv_map) (simp add: comp_def)
qed

lemma struct_field_lsb_nth:
  "distinct (map fst fs) \<Longrightarrow> i < length fs \<Longrightarrow>
    struct_field_lsb fs (fst (fs ! i)) = Inr (sum_list (map (\<lambda>g. width (snd g)) (drop (Suc i) fs)))"
proof (induction fs arbitrary: i)
  case (Cons f fs)
  then show ?case
  proof (cases i)
    case (Suc j)
    then have "fst (fs ! j) \<in> fst ` set fs" using Cons.prems by auto
    with Cons Suc show ?thesis by auto
  qed simp
qed simp

lemma struct_piece:
  assumes "pieces_fit ps" "i < length ps"
  shows "lsbv (rev ps) div 2 ^ total_bits (drop (Suc i) ps) mod 2 ^ fst (ps ! i) = snd (ps ! i)"
proof -
  let ?j = "length ps - Suc i"
  have "take ?j (rev ps) = rev (drop (Suc i) ps)"
    using assms(2) by (simp add: rev_drop)
  moreover have "rev ps ! ?j = ps ! i" using assms(2) by (simp add: rev_nth)
  moreover have "total_bits (take ?j (rev ps)) = total_bits (drop (Suc i) ps)"
    using calculation(1) by simp
  ultimately show ?thesis using lsbv_piece [of "rev ps" ?j] assms by simp
qed

lemma struct_pack:
  assumes "is_bit_packable (StructType n fs)" "wf_type (StructType n fs)"
    and "set (map fst kvs) = set (map fst fs)"
    and "\<And>f. f \<in> set fs \<Longrightarrow> \<exists>x. map_of kvs (fst f) = Some x \<and> pack_runtime (snd f) x = Inr (p f)"
    and "pieces_fit (map (\<lambda>f. (width (snd f), p f)) fs)"
  shows "pack_runtime (StructType n fs) (VDict kvs) = Inr (lsbv (rev (map (\<lambda>f. (width (snd f), p f)) fs)))"
proof -
  have "mapE (\<lambda>f. bindE (packed_width (snd f)) (\<lambda>w.
      case map_of kvs (fst f) of None \<Rightarrow> Inl WrongFields
      | Some x \<Rightarrow> bindE (pack_runtime (snd f) x) (\<lambda>r. Inr (w, r)))) fs =
    Inr (map (\<lambda>f. (width (snd f), p f)) fs)"
  proof (rule mapE_Inr_map)
    fix f assume f: "f \<in> set fs"
    have "packed_width (snd f) = Inr (width (snd f))"
      using packed_width_ok assms(1,2) f by simp
    then show "bindE (packed_width (snd f)) (\<lambda>w. case map_of kvs (fst f) of None \<Rightarrow> Inl WrongFields
        | Some x \<Rightarrow> bindE (pack_runtime (snd f) x) (\<lambda>r. Inr (w, r))) = Inr (width (snd f), p f)"
      using assms(4) [OF f] by auto
  qed
  then show ?thesis
    using assms(1,3) join_msb_lsbv [OF assms(5)]
    by (subst pack_runtime.simps) (simp add: require_bit_packable_def guardE_def)
qed

lemma struct_unpack:
  assumes pk: "is_bit_packable (StructType n fs)" and wf: "wf_type (StructType n fs)"
    and dist: "distinct (map fst fs)"
    and ps: "ps = map (\<lambda>f. (width (snd f), p f)) fs" "pieces_fit ps"
    and un: "\<And>f. f \<in> set fs \<Longrightarrow> unpack_runtime (snd f) (p f) = Inr (y f)"
  shows "unpack_runtime (StructType n fs) (lsbv (rev ps)) = Inr (VDict (map (\<lambda>f. (fst f, y f)) fs))"
proof -
  have r: "0 \<le> lsbv (rev ps)" "lsbv (rev ps) < 2 ^ width (StructType n fs)"
    using lsbv_bound [of "rev ps"] ps by (simp_all add: total_map)
  have "mapE (\<lambda>f. bindE (struct_field_lsb fs (fst f)) (\<lambda>off. bindE (packed_width (snd f)) (\<lambda>fw.
      bindE (unpack_runtime (snd f) (shr (lsbv (rev ps)) off AND ones fw)) (\<lambda>x. Inr (fst f, x))))) fs =
    Inr (map (\<lambda>f. (fst f, y f)) fs)"
  proof (rule mapE_Inr_map)
    fix f assume f: "f \<in> set fs"
    then obtain i where i: "i < length fs" "fs ! i = f" by (auto simp: in_set_conv_nth)
    have "lsbv (rev ps) div 2 ^ sum_list (map (\<lambda>g. width (snd g)) (drop (Suc i) fs)) mod 2 ^ width (snd f) = p f"
      using struct_piece [OF ps(2), of i] i by (simp add: ps(1) total_bits_def drop_map comp_def)
    moreover have "packed_width (snd f) = Inr (width (snd f))" using packed_width_ok pk wf f by simp
    ultimately show "bindE (struct_field_lsb fs (fst f)) (\<lambda>off. bindE (packed_width (snd f)) (\<lambda>fw.
        bindE (unpack_runtime (snd f) (shr (lsbv (rev ps)) off AND ones fw)) (\<lambda>x. Inr (fst f, x)))) = Inr (fst f, y f)"
      using struct_field_lsb_nth [OF dist i(1)] un [OF f] i(2) by (simp add: shr_def and_ones)
  qed
  then show ?thesis
    using unpack_unfold [OF pk wf r] dist by (simp add: comp_def)
qed

lemma codec_at_struct:
  assumes pk: "is_bit_packable (StructType n fs)" and wf: "wf_type (StructType n fs)"
    and dist: "distinct (map fst fs)" and ih: "\<And>f. f \<in> set fs \<Longrightarrow> codec_at (snd f)"
  shows "codec_at (StructType n fs)"
  unfolding codec_at_def
proof (intro conjI allI impI)
  fix v assume "runtime_value_fits v (StructType n fs)"
  then obtain kvs where v: "v = VDict kvs" and keys: "set (map fst kvs) = set (map fst fs)"
    and m: "\<forall>f\<in>set fs. \<exists>x. map_of kvs (fst f) = Some x \<and> runtime_value_fits x (snd f)"
    by (auto split: rt_value.splits option.splits) (metis not_None_eq)
  let ?x = "\<lambda>f. the (map_of kvs (fst f))"
  have "\<forall>f\<in>set fs. \<exists>r. pack_runtime (snd f) (?x f) = Inr r \<and> 0 \<le> r \<and> r < 2 ^ width (snd f) \<and>
      unpack_runtime (snd f) r = Inr (canonical_value (snd f) (?x f))"
    using m codec_atD(1) [OF ih] by fastforce
  then obtain p where p: "\<forall>f\<in>set fs. pack_runtime (snd f) (?x f) = Inr (p f) \<and> 0 \<le> p f \<and>
      p f < 2 ^ width (snd f) \<and> unpack_runtime (snd f) (p f) = Inr (canonical_value (snd f) (?x f))"
    by metis
  let ?ps = "map (\<lambda>f. (width (snd f), p f)) fs"
  have fit: "pieces_fit ?ps" using p by (auto simp: pieces_fit_def)
  have "pack_runtime (StructType n fs) v = Inr (lsbv (rev ?ps))"
    unfolding v using struct_pack [OF pk wf keys _ fit] m p by fastforce
  moreover have "unpack_runtime (StructType n fs) (lsbv (rev ?ps)) = Inr (canonical_value (StructType n fs) v)"
    using struct_unpack [OF pk wf dist refl fit] p v by simp
  moreover have "0 \<le> lsbv (rev ?ps)" "lsbv (rev ?ps) < 2 ^ width (StructType n fs)"
    using lsbv_bound [of "rev ?ps"] fit by (simp_all add: total_map)
  ultimately show "\<exists>r. pack_runtime (StructType n fs) v = Inr r \<and> 0 \<le> r \<and> r < 2 ^ width (StructType n fs) \<and>
      unpack_runtime (StructType n fs) r = Inr (canonical_value (StructType n fs) v)" by blast
next
  fix v r assume "pack_runtime (StructType n fs) v = Inr r"
  then obtain kvs ps where v: "v = VDict kvs" "set (map fst kvs) = set (map fst fs)"
    and ps: "mapE (\<lambda>f. bindE (packed_width (snd f)) (\<lambda>w.
      case map_of kvs (fst f) of None \<Rightarrow> Inl WrongFields
      | Some x \<Rightarrow> bindE (pack_runtime (snd f) x) (\<lambda>r. Inr (w, r)))) fs = Inr ps"
    by (subst (asm) pack_runtime.simps) (auto split: rt_value.splits if_splits)
  have "\<exists>x. map_of kvs (fst f) = Some x \<and> runtime_value_fits x (snd f)" if f: "f \<in> set fs" for f
  proof -
    from f obtain i where i: "i < length fs" "fs ! i = f" by (auto simp: in_set_conv_nth)
    from mapE_Inr_nth [OF ps i(1)] i(2) show ?thesis
      using codec_atD(2) [OF ih [OF f]] by (auto split: option.splits)
  qed
  with v show "runtime_value_fits v (StructType n fs)" by fastforce
next
  fix r :: int assume r: "0 \<le> r \<and> r < 2 ^ width (StructType n fs)"
  let ?ws = "map (\<lambda>f. width (snd f)) fs"
  let ?ps = "rev (slices (rev ?ws) r)"
  have fit: "pieces_fit ?ps" and len: "length ?ps = length fs" by simp_all
  have lsb: "lsbv (rev ?ps) = r" using r by (simp add: lsbv_slices sum_list.rev)
  have "distinct fs" using dist by (simp add: distinct_map)
  from map_fun_of_distinct [OF this, of "map snd ?ps"] len obtain p where p: "map snd ?ps = map p fs" by auto
  have "map fst ?ps = ?ws" by (simp only: rev_map [symmetric] slices_simps rev_rev_ident)
  then have ps: "?ps = map (\<lambda>f. (width (snd f), p f)) fs"
    using p by (intro pairs_eq) simp_all
  have pb: "0 \<le> p f \<and> p f < 2 ^ width (snd f)" if "f \<in> set fs" for f
    using fit that unfolding ps by (auto simp: pieces_fit_def)
  then have "\<forall>f\<in>set fs. \<exists>y. unpack_runtime (snd f) (p f) = Inr y \<and> pack_runtime (snd f) y = Inr (p f)"
    using codec_atD(3) [OF ih] by blast
  then obtain y where y: "\<forall>f\<in>set fs. unpack_runtime (snd f) (p f) = Inr (y f) \<and> pack_runtime (snd f) (y f) = Inr (p f)"
    by metis
  have un: "unpack_runtime (StructType n fs) r = Inr (VDict (map (\<lambda>f. (fst f, y f)) fs))"
    using struct_unpack [OF pk wf dist ps fit] y lsb by simp
  have "map_of (map (\<lambda>f. (fst f, y f)) fs) (fst f) = Some (y f)" if "f \<in> set fs" for f
    using that dist by (intro map_of_is_SomeI) (auto simp: comp_def)
  then have "pack_runtime (StructType n fs) (VDict (map (\<lambda>f. (fst f, y f)) fs)) = Inr r"
    using struct_pack [OF pk wf, of "map (\<lambda>f. (fst f, y f)) fs" p] y fit lsb unfolding ps
    by (simp add: comp_def)
  with un show "\<exists>v. unpack_runtime (StructType n fs) r = Inr v \<and> pack_runtime (StructType n fs) v = Inr r"
    by blast
qed

subsection \<open>Tuples and vectors\<close>

text \<open>Both are sequences of pieces packed least-significant first.\<close>

lemma join_indexed:
  assumes "pieces_fit (map (\<lambda>i. (w i, p i)) [0..<n])"
  shows "join_lsb (map (\<lambda>i. (sum_list (map w [0..<i]), p i)) [0..<n]) = lsbv (map (\<lambda>i. (w i, p i)) [0..<n])"
proof -
  have "with_offsets (map (\<lambda>i. (w i, p i)) [0..<n]) = map (\<lambda>i. (sum_list (map w [0..<i]), p i)) [0..<n]"
    unfolding with_offsets_def
    by (intro map_cong) (simp_all add: take_map total_map)
  then show ?thesis using join_lsb_lsbv [OF assms] by simp
qed

lemma indexed_piece:
  assumes "pieces_fit (map (\<lambda>i. (w i, p i)) [0..<n])" "i < n"
  shows "lsbv (map (\<lambda>i. (w i, p i)) [0..<n]) div 2 ^ sum_list (map w [0..<i]) mod 2 ^ w i = p i"
  using lsbv_piece [OF assms(1), of i] assms(2) by (simp add: take_map total_map)

lemma indexed_slices:
  assumes "0 \<le> r" "r < 2 ^ sum_list (map w [0..<n])"
  shows "\<exists>p. (\<forall>i<n. 0 \<le> p i \<and> p i < 2 ^ w i) \<and> r = lsbv (map (\<lambda>i. (w i, p i)) [0..<n]) \<and>
    pieces_fit (map (\<lambda>i. (w i, p i)) [0..<n])"
proof -
  let ?ps = "slices (map w [0..<n]) r"
  let ?p = "\<lambda>i. snd (?ps ! i)"
  have eq: "?ps = map (\<lambda>i. (w i, ?p i)) [0..<n]"
    by (rule nth_equalityI) (simp_all add: slices_nth)
  have fit: "pieces_fit ?ps" by simp
  have "0 \<le> ?p i \<and> ?p i < 2 ^ w i" if "i < n" for i
  proof -
    have "?ps ! i \<in> set ?ps" using that by (intro nth_mem) simp
    moreover have "fst (?ps ! i) = w i" using that by (simp add: slices_nth)
    ultimately show ?thesis using fit unfolding pieces_fit_def by metis
  qed
  moreover have "r = lsbv (map (\<lambda>i. (w i, ?p i)) [0..<n])"
    unfolding eq [symmetric] using lsbv_slices [OF assms] by simp
  moreover have "pieces_fit (map (\<lambda>i. (w i, ?p i)) [0..<n])"
    unfolding eq [symmetric] by (rule fit)
  ultimately show ?thesis by (intro exI [of _ ?p] conjI) blast+
qed

lemma sum_list_const: "sum_list (map (\<lambda>_. w) [0..<i]) = i * w" for w :: nat
  by (induction i) simp_all

lemma sum_list_take: "sum_list (map f (take i xs)) = sum_list (map (\<lambda>j. f (xs ! j)) [0..<i])"
  if "i \<le> length xs" for f :: "'a \<Rightarrow> nat"
proof -
  have "take i xs = map ((!) xs) [0..<i]" using that by (intro nth_equalityI) simp_all
  then show ?thesis by (simp add: comp_def)
qed

lemma tuple_lsb_nth:
  assumes "is_bit_packable (TupleType ts)" "wf_type (TupleType ts)" "i < length ts"
  shows "tuple_element_lsb ts (int i) = Inr (sum_list (map (\<lambda>j. width (ts ! j)) [0..<i]))"
proof -
  have "\<not> width t < 1" if "t \<in> set ts" for t
    using packable_width_pos [of t] assms(1,2) that by simp
  then have "\<not> (\<exists>t\<in>set ts. width t < 1)" by blast
  moreover have "sum_list (map width (take i ts)) = sum_list (map (\<lambda>j. width (ts ! j)) [0..<i])"
    by (rule sum_list_take) (simp add: assms(3) less_imp_le)
  ultimately show ?thesis
    using assms(3) unfolding tuple_element_lsb_def
    by (simp only: nat_int of_nat_0_le_iff of_nat_less_iff simp_thms if_False)
qed

lemma vector_lsb_nth:
  assumes "is_bit_packable e" "wf_type e" "i < n"
  shows "vector_element_lsb n e (int i) = Inr (sum_list (map (\<lambda>_. width e) [0..<i]))"
  using assms packable_width_pos [of e] by (simp add: vector_element_lsb_def sum_list_const)

lemma zip_zip_upt:
  "length xs = n \<Longrightarrow> length ys = n \<Longrightarrow> zip [0..<n] (zip xs ys) = map (\<lambda>i. (i, xs ! i, ys ! i)) [0..<n]"
  "length xs = n \<Longrightarrow> zip [0..<n] xs = map (\<lambda>i. (i, xs ! i)) [0..<n]"
  by (rule nth_equalityI; simp)+

lemma mapE_map: "mapE f (map g xs) = mapE (\<lambda>x. f (g x)) xs"
  by (induction xs) simp_all

lemma tuple_pack:
  assumes "is_bit_packable (TupleType ts)" "wf_type (TupleType ts)" "length xs = length ts"
    and "\<And>i. i < length ts \<Longrightarrow> pack_runtime (ts ! i) (xs ! i) = Inr (p i)"
    and fit: "pieces_fit (map (\<lambda>i. (width (ts ! i), p i)) [0..<length ts])"
  shows "pack_runtime (TupleType ts) (VTuple xs) = Inr (lsbv (map (\<lambda>i. (width (ts ! i), p i)) [0..<length ts]))"
proof -
  have "mapE (\<lambda>p. bindE (pack_runtime (fst (snd p)) (snd (snd p))) (\<lambda>r.
      bindE (tuple_element_lsb ts (int (fst p))) (\<lambda>off. Inr (off, r)))) (zip [0..<length ts] (zip ts xs)) =
    Inr (map (\<lambda>i. (sum_list (map (\<lambda>j. width (ts ! j)) [0..<i]), p i)) [0..<length ts])"
    unfolding zip_zip_upt(1) [OF refl assms(3)] mapE_map
    by (rule mapE_Inr_map) (simp add: assms(4) tuple_lsb_nth [OF assms(1,2)])
  then show ?thesis
    using assms(1,3) join_indexed [OF fit]
    by (subst pack_runtime.simps) (simp add: require_bit_packable_def guardE_def)
qed

lemma tuple_unpack:
  assumes pk: "is_bit_packable (TupleType ts)" and wf: "wf_type (TupleType ts)"
    and fit: "pieces_fit (map (\<lambda>i. (width (ts ! i), p i)) [0..<length ts])"
    and un: "\<And>i. i < length ts \<Longrightarrow> unpack_runtime (ts ! i) (p i) = Inr (y i)"
  shows "unpack_runtime (TupleType ts) (lsbv (map (\<lambda>i. (width (ts ! i), p i)) [0..<length ts])) =
    Inr (VTuple (map y [0..<length ts]))"
proof -
  let ?r = "lsbv (map (\<lambda>i. (width (ts ! i), p i)) [0..<length ts])"
  have r: "0 \<le> ?r" "?r < 2 ^ width (TupleType ts)"
    using lsbv_bound [OF fit] sum_list_take [of "length ts" ts width] by (simp_all add: total_map)
  have "mapE (\<lambda>p. bindE (packed_width (snd p)) (\<lambda>ew. bindE (tuple_element_lsb ts (int (fst p))) (\<lambda>off.
      unpack_runtime (snd p) (shr ?r off AND ones ew)))) (zip [0..<length ts] ts) = Inr (map y [0..<length ts])"
    unfolding zip_zip_upt(2) [OF refl] mapE_map
  proof (rule mapE_Inr_map)
    fix i assume "i \<in> set [0..<length ts]"
    then have i: "i < length ts" by simp
    have "packed_width (ts ! i) = Inr (width (ts ! i))" using packed_width_ok pk wf i by simp
    then show "bindE (packed_width (snd (i, ts ! i))) (\<lambda>ew. bindE (tuple_element_lsb ts (int (fst (i, ts ! i)))) (\<lambda>off.
        unpack_runtime (snd (i, ts ! i)) (shr ?r off AND ones ew))) = Inr (y i)"
      using indexed_piece [OF fit i] un [OF i] tuple_lsb_nth [OF pk wf i] by (simp add: shr_def and_ones)
  qed
  then show ?thesis using unpack_unfold [OF pk wf r] by simp
qed

lemma vector_pack:
  assumes "is_bit_packable e" "wf_type e" "seq_items v = Some xs" "length xs = n"
    and "\<And>i. i < n \<Longrightarrow> pack_runtime e (xs ! i) = Inr (p i)"
    and fit: "pieces_fit (map (\<lambda>i. (width e, p i)) [0..<n])"
  shows "pack_runtime (VecType n e) v = Inr (lsbv (map (\<lambda>i. (width e, p i)) [0..<n]))"
proof -
  have "mapE (\<lambda>p. bindE (pack_runtime e (snd p)) (\<lambda>r.
      bindE (vector_element_lsb n e (int (fst p))) (\<lambda>off. Inr (off, r)))) (zip [0..<n] xs) =
    Inr (map (\<lambda>i. (sum_list (map (\<lambda>_. width e) [0..<i]), p i)) [0..<n])"
    unfolding zip_zip_upt(2) [OF assms(4)] mapE_map
    by (rule mapE_Inr_map) (simp add: assms(5) vector_lsb_nth [OF assms(1,2)])
  then show ?thesis
    using assms(1,3,4) join_indexed [OF fit]
    by (subst pack_runtime.simps) (simp add: require_bit_packable_def guardE_def)
qed

lemma vector_unpack:
  assumes pk: "is_bit_packable e" and wf: "wf_type (VecType n e)"
    and fit: "pieces_fit (map (\<lambda>i. (width e, p i)) [0..<n])"
    and un: "\<And>i. i < n \<Longrightarrow> unpack_runtime e (p i) = Inr (y i)"
  shows "unpack_runtime (VecType n e) (lsbv (map (\<lambda>i. (width e, p i)) [0..<n])) = Inr (VList (map y [0..<n]))"
proof -
  let ?r = "lsbv (map (\<lambda>i. (width e, p i)) [0..<n])"
  have r: "0 \<le> ?r" "?r < 2 ^ width (VecType n e)"
    using lsbv_bound [OF fit] by (simp_all add: total_map sum_list_const)
  have pw: "packed_width e = Inr (width e)" using packed_width_ok pk wf by simp
  have "mapE (\<lambda>i. bindE (vector_element_lsb n e (int i)) (\<lambda>off.
      unpack_runtime e (shr ?r off AND ones (width e)))) [0..<n] = Inr (map y [0..<n])"
    using indexed_piece [OF fit] un vector_lsb_nth [OF pk] wf
    by (intro mapE_Inr_map) (simp add: shr_def and_ones)
  then show ?thesis using unpack_unfold [OF _ wf r] pk pw by simp
qed

lemma pieces_fit_indexed:
  "(\<And>i. i < n \<Longrightarrow> 0 \<le> p i \<and> p i < 2 ^ w i) \<Longrightarrow> pieces_fit (map (\<lambda>i. (w i, p i)) [0..<n])"
  by (auto simp: pieces_fit_def)

lemma map_zip_indexed:
  "length xs = length ts \<Longrightarrow> map (\<lambda>p. f (snd p) (fst p)) (zip xs ts) = map (\<lambda>i. f (ts ! i) (xs ! i)) [0..<length ts]"
  by (rule nth_equalityI) simp_all

lemma codec_at_tuple:
  assumes pk: "is_bit_packable (TupleType ts)" and wf: "wf_type (TupleType ts)"
    and ih: "\<And>t. t \<in> set ts \<Longrightarrow> codec_at t"
  shows "codec_at (TupleType ts)"
  unfolding codec_at_def
proof (intro conjI allI impI)
  fix v assume "runtime_value_fits v (TupleType ts)"
  then obtain xs where v: "v = VTuple xs" and len: "length xs = length ts"
    and "\<forall>p\<in>set (zip xs ts). runtime_value_fits (fst p) (snd p)"
    by (auto split: rt_value.splits)
  then have m: "runtime_value_fits (xs ! i) (ts ! i)" if "i < length ts" for i
    using that len by (force simp: set_zip)
  have "\<forall>i<length ts. \<exists>r. pack_runtime (ts ! i) (xs ! i) = Inr r \<and> 0 \<le> r \<and> r < 2 ^ width (ts ! i) \<and>
      unpack_runtime (ts ! i) r = Inr (canonical_value (ts ! i) (xs ! i))"
    using m codec_atD(1) [OF ih] by simp
  then obtain p where p: "\<forall>i<length ts. pack_runtime (ts ! i) (xs ! i) = Inr (p i) \<and> 0 \<le> p i \<and>
      p i < 2 ^ width (ts ! i) \<and> unpack_runtime (ts ! i) (p i) = Inr (canonical_value (ts ! i) (xs ! i))"
    by metis
  let ?r = "lsbv (map (\<lambda>i. (width (ts ! i), p i)) [0..<length ts])"
  have fit: "pieces_fit (map (\<lambda>i. (width (ts ! i), p i)) [0..<length ts])"
    using p by (intro pieces_fit_indexed) simp
  have "pack_runtime (TupleType ts) v = Inr ?r" using tuple_pack [OF pk wf len _ fit] p v by simp
  moreover have "unpack_runtime (TupleType ts) ?r = Inr (canonical_value (TupleType ts) v)"
    using tuple_unpack [OF pk wf fit] p v by (simp add: map_zip_indexed [OF len])
  moreover have "0 \<le> ?r" "?r < 2 ^ width (TupleType ts)"
    using lsbv_bound [OF fit] sum_list_take [of "length ts" ts width] by (simp_all add: total_map)
  ultimately show "\<exists>r. pack_runtime (TupleType ts) v = Inr r \<and> 0 \<le> r \<and> r < 2 ^ width (TupleType ts) \<and>
      unpack_runtime (TupleType ts) r = Inr (canonical_value (TupleType ts) v)" by blast
next
  fix v r assume "pack_runtime (TupleType ts) v = Inr r"
  then obtain xs ps where v: "v = VTuple xs" "length xs = length ts"
    and ps: "mapE (\<lambda>p. bindE (pack_runtime (fst (snd p)) (snd (snd p))) (\<lambda>r.
      bindE (tuple_element_lsb ts (int (fst p))) (\<lambda>off. Inr (off, r)))) (zip [0..<length ts] (zip ts xs)) = Inr ps"
    by (subst (asm) pack_runtime.simps) (auto split: rt_value.splits if_splits)
  have "runtime_value_fits (xs ! i) (ts ! i)" if i: "i < length ts" for i
    using mapE_Inr_nth [OF ps, of i] i v(2) codec_atD(2) [OF ih [OF nth_mem [OF i]]] by auto
  with v show "runtime_value_fits v (TupleType ts)" by (auto simp: set_zip)
next
  fix r :: int assume "0 \<le> r \<and> r < 2 ^ width (TupleType ts)"
  then have "0 \<le> r" "r < 2 ^ sum_list (map (\<lambda>i. width (ts ! i)) [0..<length ts])"
    using sum_list_take [of "length ts" ts width] by simp_all
  then obtain p where p: "\<forall>i<length ts. 0 \<le> p i \<and> p i < 2 ^ width (ts ! i)"
    and r: "r = lsbv (map (\<lambda>i. (width (ts ! i), p i)) [0..<length ts])"
    and fit: "pieces_fit (map (\<lambda>i. (width (ts ! i), p i)) [0..<length ts])"
    using indexed_slices by blast
  then have "\<forall>i<length ts. \<exists>y. unpack_runtime (ts ! i) (p i) = Inr y \<and> pack_runtime (ts ! i) y = Inr (p i)"
    using codec_atD(3) [OF ih] by simp
  then obtain y where y: "\<forall>i<length ts. unpack_runtime (ts ! i) (p i) = Inr (y i) \<and> pack_runtime (ts ! i) (y i) = Inr (p i)"
    by metis
  have "unpack_runtime (TupleType ts) r = Inr (VTuple (map y [0..<length ts]))"
    using tuple_unpack [OF pk wf fit] y r by simp
  moreover have "pack_runtime (TupleType ts) (VTuple (map y [0..<length ts])) = Inr r"
    using tuple_pack [OF pk wf _ _ fit] y r by simp
  ultimately show "\<exists>v. unpack_runtime (TupleType ts) r = Inr v \<and> pack_runtime (TupleType ts) v = Inr r" by blast
qed

lemma codec_at_vector:
  assumes pk: "is_bit_packable e" and wf: "wf_type (VecType n e)" and ih: "codec_at e"
  shows "codec_at (VecType n e)"
  unfolding codec_at_def
proof (intro conjI allI impI)
  fix v assume "runtime_value_fits v (VecType n e)"
  then obtain xs where v: "seq_items v = Some xs" and len: "length xs = n"
    and m: "\<And>i. i < n \<Longrightarrow> runtime_value_fits (xs ! i) e"
    by (auto split: option.splits)
  have "\<forall>i<n. \<exists>r. pack_runtime e (xs ! i) = Inr r \<and> 0 \<le> r \<and> r < 2 ^ width e \<and>
      unpack_runtime e r = Inr (canonical_value e (xs ! i))"
    using m codec_atD(1) [OF ih] by simp
  then obtain p where p: "\<forall>i<n. pack_runtime e (xs ! i) = Inr (p i) \<and> 0 \<le> p i \<and>
      p i < 2 ^ width e \<and> unpack_runtime e (p i) = Inr (canonical_value e (xs ! i))"
    by metis
  let ?r = "lsbv (map (\<lambda>i. (width e, p i)) [0..<n])"
  have fit: "pieces_fit (map (\<lambda>i. (width e, p i)) [0..<n])"
    using p by (intro pieces_fit_indexed) simp
  have "map (\<lambda>i. canonical_value e (xs ! i)) [0..<n] = map (canonical_value e) xs"
    using len by (intro nth_equalityI) simp_all
  then have "unpack_runtime (VecType n e) ?r = Inr (canonical_value (VecType n e) v)"
    using vector_unpack [OF pk wf fit] p v by simp
  moreover have "pack_runtime (VecType n e) v = Inr ?r"
    using vector_pack [OF pk _ v len _ fit] wf p by simp
  moreover have "0 \<le> ?r" "?r < 2 ^ width (VecType n e)"
    using lsbv_bound [OF fit] by (simp_all add: total_map sum_list_const)
  ultimately show "\<exists>r. pack_runtime (VecType n e) v = Inr r \<and> 0 \<le> r \<and> r < 2 ^ width (VecType n e) \<and>
      unpack_runtime (VecType n e) r = Inr (canonical_value (VecType n e) v)" by blast
next
  fix v r assume "pack_runtime (VecType n e) v = Inr r"
  then obtain xs ps where v: "seq_items v = Some xs" "length xs = n"
    and ps: "mapE (\<lambda>p. bindE (pack_runtime e (snd p)) (\<lambda>r.
      bindE (vector_element_lsb n e (int (fst p))) (\<lambda>off. Inr (off, r)))) (zip [0..<n] xs) = Inr ps"
    by (subst (asm) pack_runtime.simps) (auto split: option.splits if_splits)
  have "runtime_value_fits (xs ! i) e" if "i < n" for i
    using mapE_Inr_nth [OF ps, of i] that v(2) codec_atD(2) [OF ih] by auto
  with v show "runtime_value_fits v (VecType n e)" by (auto simp: in_set_conv_nth)
next
  fix r :: int assume "0 \<le> r \<and> r < 2 ^ width (VecType n e)"
  then have "0 \<le> r" "r < 2 ^ sum_list (map (\<lambda>i. width e) [0..<n])"
    by (simp_all add: sum_list_const)
  then obtain p where p: "\<forall>i<n. 0 \<le> p i \<and> p i < 2 ^ width e"
    and r: "r = lsbv (map (\<lambda>i. (width e, p i)) [0..<n])"
    and fit: "pieces_fit (map (\<lambda>i. (width e, p i)) [0..<n])"
    using indexed_slices by blast
  then have "\<forall>i<n. \<exists>y. unpack_runtime e (p i) = Inr y \<and> pack_runtime e y = Inr (p i)"
    using codec_atD(3) [OF ih] by simp
  then obtain y where y: "\<forall>i<n. unpack_runtime e (p i) = Inr (y i) \<and> pack_runtime e (y i) = Inr (p i)"
    by metis
  have "unpack_runtime (VecType n e) r = Inr (VList (map y [0..<n]))"
    using vector_unpack [OF pk wf fit] y r by simp
  moreover have "pack_runtime (VecType n e) (VList (map y [0..<n])) = Inr r"
    using vector_pack [OF pk _ _ _ _ fit] wf y r by simp
  ultimately show "\<exists>v. unpack_runtime (VecType n e) r = Inr v \<and> pack_runtime (VecType n e) v = Inr r" by blast
qed

text \<open>The types the codec is defined on.\<close>

definition packable :: "hwtype \<Rightarrow> bool" where
  "packable t \<longleftrightarrow> is_bit_packable t \<and> wf_type t \<and> distinct_fields t"

lemma packable_codec: "packable t \<Longrightarrow> codec_at t"
proof (induction t rule: is_bit_packable.induct)
  case (2 n fs)
  then show ?case by (intro codec_at_struct) (auto simp: packable_def)
next
  case (3 ts)
  then show ?case by (intro codec_at_tuple) (auto simp: packable_def)
next
  case (4 n t)
  then show ?case by (intro codec_at_vector) (auto simp: packable_def)
qed (auto simp: packable_def intro: codec_at_scalar)

interpretation packing: total_codec packable width runtime_value_fits canonical_value
  pack_runtime unpack_runtime
  by unfold_locales (blast dest: packable_codec codec_atD)+

section \<open>Properties of the packed layout\<close>

text \<open>
  C1: packing accepts exactly the values of a packable type, stays within the packed
  width, and unpacking returns the value in its canonical form.
\<close>

theorem pack_unpack_roundtrip:
  assumes "packable t"
  shows "(runtime_value_fits v t \<longrightarrow> (\<exists>r. pack_runtime t v = Inr r \<and> 0 \<le> r \<and> r < 2 ^ width t \<and>
      unpack_runtime t r = Inr (canonical_value t v))) \<and>
    (\<not> runtime_value_fits v t \<longrightarrow> (\<exists>e. pack_runtime t v = Inl e))"
  using packing.enc_member [OF assms] packing.enc_only [OF assms] by (metis sum.exhaust)

definition packet_type :: hwtype where
  "packet_type = StructType ''Packet'' [(''head'', UIntType 4),
     (''data'', VecType 3 (SIntType 5)), (''pair'', TupleType [BitType, BitsType 2])]"

definition packet_value :: rt_value where
  "packet_value = VDict [(''pair'', VTuple [VBool True, VInt 2]), (''head'', VInt 9),
     (''data'', VTuple [VInt (- 16), VInt 3, VInt (- 1)])]"

lemma packet_packable: "packable packet_type"
  by (simp add: packable_def packet_type_def)

theorem pack_unpack_roundtrip_witness:
  "\<exists>r. pack_runtime packet_type packet_value = Inr r \<and> 0 \<le> r \<and> r < 2 ^ width packet_type \<and>
      unpack_runtime packet_type r = Inr (canonical_value packet_type packet_value)"
proof -
  have "runtime_value_fits packet_value packet_type"
    by (simp add: packet_value_def packet_type_def scalar_fits_def insert_commute)
  then show ?thesis using pack_unpack_roundtrip [OF packet_packable, of packet_value] by simp
qed

text \<open>
  C2: every raw word of the packed width unpacks, to a value of the type that packs to the
  same word; every other integer is rejected.
\<close>

theorem unpack_pack_roundtrip:
  assumes "packable t"
  shows "(0 \<le> r \<and> r < 2 ^ width t \<longrightarrow>
      (\<exists>v. unpack_runtime t r = Inr v \<and> runtime_value_fits v t \<and> pack_runtime t v = Inr r)) \<and>
    (\<not> (0 \<le> r \<and> r < 2 ^ width t) \<longrightarrow> unpack_runtime t r = Inl RawDoesNotFit)"
proof -
  have "unpack_runtime t r = Inl RawDoesNotFit" if "\<not> (0 \<le> r \<and> r < 2 ^ width t)"
    using that assms packed_width_ok [of t]
    by (subst unpack_runtime.simps)
      (auto simp: packable_def require_bit_packable_def guardE_def ones_def)
  then show ?thesis using packing.dec_total [OF assms] packing.dec_member [OF assms] by blast
qed

theorem unpack_pack_roundtrip_witness:
  "\<exists>v. unpack_runtime packet_type 900 = Inr v \<and> runtime_value_fits v packet_type \<and>
      pack_runtime packet_type v = Inr 900"
proof -
  have "(900::int) < 2 ^ width packet_type" by (simp add: packet_type_def)
  then show ?thesis using unpack_pack_roundtrip [OF packet_packable, of 900] by simp
qed

lemma slice_runtime_ok:
  "0 \<le> lsb \<Longrightarrow> lsb \<le> msb \<Longrightarrow> msb < w \<Longrightarrow>
    slice_runtime (VInt r) w msb lsb = Inr (r div 2 ^ nat lsb mod 2 ^ nat (msb - lsb + 1))"
  by (simp add: slice_runtime_def slice_width_def bit_mask_def shr_def and_ones)

lemma slice_piece:
  "0 < w \<Longrightarrow> off + w \<le> W \<Longrightarrow>
    slice_runtime (VInt r) (int W) (int (off + w) - 1) (int off) = Inr (r div 2 ^ off mod 2 ^ w)"
  by (subst slice_runtime_ok) (simp_all add: nat_diff_distrib flip: of_nat_add of_nat_diff)

text \<open>
  C5: slicing a packed struct at \<^verbatim>\<open>struct_field_lsb\<close> of a field, over the field's width,
  reads back the packed value of that field.
\<close>

theorem struct_field_slice:
  assumes "packable (StructType n fs)" and "pack_runtime (StructType n fs) (VDict kvs) = Inr r"
    and "(name, t) \<in> set fs"
  shows "\<exists>x lsb p. map_of kvs name = Some x \<and> struct_field_lsb fs name = Inr lsb \<and>
    pack_runtime t x = Inr p \<and>
    slice_runtime (VInt r) (int (width (StructType n fs))) (int (lsb + width t) - 1) (int lsb) = Inr p"
proof -
  from assms(1) have pk: "is_bit_packable (StructType n fs)" "wf_type (StructType n fs)"
    and dist: "distinct (map fst fs)" by (simp_all add: packable_def)
  have "runtime_value_fits (VDict kvs) (StructType n fs)" using packing.enc_only [OF assms(1,2)] .
  then have keys: "set (map fst kvs) = set (map fst fs)"
    and m: "\<forall>f\<in>set fs. \<exists>x. map_of kvs (fst f) = Some x \<and> runtime_value_fits x (snd f)"
    by (auto split: option.splits)
  have "codec_at (snd f)" if "f \<in> set fs" for f
    using assms(1) that by (intro packable_codec) (auto simp: packable_def)
  then have "\<forall>f\<in>set fs. \<exists>p. pack_runtime (snd f) (the (map_of kvs (fst f))) = Inr p \<and> 0 \<le> p \<and> p < 2 ^ width (snd f)"
    using m codec_atD(1) by fastforce
  then obtain p where p: "\<forall>f\<in>set fs. pack_runtime (snd f) (the (map_of kvs (fst f))) = Inr (p f) \<and>
      0 \<le> p f \<and> p f < 2 ^ width (snd f)" by metis
  let ?ps = "map (\<lambda>f. (width (snd f), p f)) fs"
  have fit: "pieces_fit ?ps" using p by (auto simp: pieces_fit_def)
  have r: "r = lsbv (rev ?ps)"
    using struct_pack [OF pk keys _ fit] m p assms(2) by fastforce
  obtain i where i: "i < length fs" "fs ! i = (name, t)" using assms(3) by (auto simp: in_set_conv_nth)
  let ?lsb = "sum_list (map (\<lambda>g. width (snd g)) (drop (Suc i) fs))"
  have "width t > 0" using pk assms(3) by (intro packable_width_pos) auto
  have "sum_list (map (\<lambda>g. width (snd g)) (take i fs)) + (width t + ?lsb) = width (StructType n fs)"
    using i by (subst id_take_nth_drop [OF i(1)]) simp
  then have "slice_runtime (VInt r) (int (width (StructType n fs))) (int (?lsb + width t) - 1) (int ?lsb) =
      Inr (r div 2 ^ ?lsb mod 2 ^ width t)"
    using \<open>width t > 0\<close> by (intro slice_piece) simp_all
  moreover have "r div 2 ^ ?lsb mod 2 ^ width t = p (name, t)"
    using struct_piece [OF fit, of i] i by (simp add: r drop_map total_map)
  moreover have "struct_field_lsb fs name = Inr ?lsb" using struct_field_lsb_nth [OF dist i(1)] i(2) by simp
  ultimately show ?thesis using p m assms(3) by force
qed

theorem struct_field_slice_witness:
  "\<exists>x lsb p. map_of [(''b'', VInt (- 2)), (''a'', VInt 5)] ''b'' = Some x \<and>
    struct_field_lsb [(''a'', UIntType 3), (''b'', SIntType 2)] ''b'' = Inr lsb \<and>
    pack_runtime (SIntType 2) x = Inr p \<and>
    slice_runtime (VInt 22) (int (width (StructType ''S'' [(''a'', UIntType 3), (''b'', SIntType 2)])))
      (int (lsb + width (SIntType 2)) - 1) (int lsb) = Inr p"
proof (rule struct_field_slice)
  show "pack_runtime (StructType ''S'' [(''a'', UIntType 3), (''b'', SIntType 2)])
      (VDict [(''b'', VInt (- 2)), (''a'', VInt 5)]) = Inr 22"
    by (simp add: pack_runtime.simps require_bit_packable_def guardE_def packed_width_def
        pack_scalar_def ones_def join_msb_def shl_def insert_commute)
qed (simp_all add: packable_def)

subsection \<open>Concatenation\<close>

definition parts_of :: "(nat \<times> int) list \<Rightarrow> (rt_value \<times> int) list" where
  "parts_of ps = map (\<lambda>p. (VInt (snd p), int (fst p))) ps"

lemma concat_loop_join:
  "(\<And>p. p \<in> set ps \<Longrightarrow> 0 < fst p) \<Longrightarrow>
    concat_loop acc (parts_of ps) = Inr (foldl (\<lambda>a p. a * 2 ^ fst p + snd p mod 2 ^ fst p) acc ps)"
proof (induction ps arbitrary: acc)
  case (Cons p ps)
  have "shl acc (fst p) OR (snd p mod 2 ^ fst p) = acc * 2 ^ fst p + snd p mod 2 ^ fst p"
    by (simp add: or_shl_add(2))
  with Cons show ?case by (simp add: parts_of_def bit_mask_def and_ones)
qed (simp add: parts_of_def)

lemma foldl_lsbv:
  "foldl (\<lambda>a p. a * 2 ^ fst p + snd p mod 2 ^ fst p) acc ps =
    acc * 2 ^ total_bits ps + lsbv (rev (map (\<lambda>p. (fst p, snd p mod 2 ^ fst p)) ps))"
proof (induction ps arbitrary: acc)
  case (Cons p ps)
  have "total_bits (map (\<lambda>p. (fst p, snd p mod 2 ^ fst p)) ps) = total_bits ps" by (simp add: total_bits_def comp_def)
  with Cons show ?case by (simp add: lsbv_append algebra_simps power_add)
qed simp

lemma concat_parts:
  assumes "2 \<le> length ps" "\<forall>p\<in>set ps. 0 < fst p"
  shows "concat_runtime (parts_of ps) = Inr (lsbv (rev (map (\<lambda>p. (fst p, snd p mod 2 ^ fst p)) ps)))"
    and "0 \<le> lsbv (rev (map (\<lambda>p. (fst p, snd p mod 2 ^ fst p)) ps))"
    and "lsbv (rev (map (\<lambda>p. (fst p, snd p mod 2 ^ fst p)) ps)) < 2 ^ total_bits ps"
proof -
  let ?qs = "map (\<lambda>p. (fst p, snd p mod 2 ^ fst p)) ps"
  show "concat_runtime (parts_of ps) = Inr (lsbv (rev ?qs))"
    using concat_loop_join [of ps 0] foldl_lsbv [of 0 ps] assms by (simp add: concat_runtime_def parts_of_def)
  have "pieces_fit ?qs" "total_bits ?qs = total_bits ps" by (auto simp: pieces_fit_def total_bits_def comp_def)
  then show "0 \<le> lsbv (rev ?qs)" "lsbv (rev ?qs) < 2 ^ total_bits ps"
    using lsbv_bound [of "rev ?qs"] by simp_all
qed

text \<open>
  C6: a concatenation of at least two parts of positive width is a word of the summed
  width, first part at the top: each part is read back, modulo its width, by the slice
  between the widths of the parts after it and the parts after and including it.
\<close>

theorem concat_slices_back:
  assumes "2 \<le> length ps" and "\<forall>p\<in>set ps. 0 < fst p" and "i < length ps"
  shows "\<exists>r. concat_runtime (parts_of ps) = Inr r \<and> 0 \<le> r \<and> r < 2 ^ total_bits ps \<and>
    slice_runtime (VInt r) (int (total_bits ps)) (int (total_bits (drop i ps)) - 1) (int (total_bits (drop (Suc i) ps))) =
      Inr (snd (ps ! i) mod 2 ^ fst (ps ! i))"
proof -
  let ?qs = "map (\<lambda>p. (fst p, snd p mod 2 ^ fst p)) ps"
  have fit: "pieces_fit ?qs" by (auto simp: pieces_fit_def)
  have tot: "total_bits (map (\<lambda>p. (fst p, snd p mod 2 ^ fst p)) xs) = total_bits xs" for xs :: "(nat \<times> int) list"
    by (simp add: total_bits_def comp_def)
  have "concat_runtime (parts_of ps) = Inr (lsbv (rev ?qs))" "0 \<le> lsbv (rev ?qs) \<and> lsbv (rev ?qs) < 2 ^ total_bits ps"
    using concat_parts [OF assms(1,2)] by simp_all
  moreover have d: "total_bits (drop i ps) = total_bits (drop (Suc i) ps) + fst (ps ! i)"
    using assms(3) by (simp flip: Cons_nth_drop_Suc)
  moreover have "total_bits (drop (Suc i) ps) + fst (ps ! i) \<le> total_bits ps"
    using d by (metis append_take_drop_id le_add2 total_bits_simps(3))
  moreover have "lsbv (rev ?qs) div 2 ^ total_bits (drop (Suc i) ps) mod 2 ^ fst (ps ! i) = snd (ps ! i) mod 2 ^ fst (ps ! i)"
    using struct_piece [OF fit, of i] assms(3) by (simp add: drop_map tot)
  moreover have "0 < fst (ps ! i)" using assms(2,3) by simp
  ultimately show ?thesis by (simp only: slice_piece) blast
qed

definition demo_parts :: "(nat \<times> int) list" where
  "demo_parts = [(3, 6), (2, -1), (4, 9)]"

theorem concat_slices_back_witness:
  "\<exists>r. concat_runtime (parts_of demo_parts) = Inr r \<and> 0 \<le> r \<and>
     r < 2 ^ total_bits demo_parts \<and>
    slice_runtime (VInt r) (int (total_bits demo_parts))
      (int (total_bits (drop 1 demo_parts)) - 1) (int (total_bits (drop (Suc 1) demo_parts))) =
      Inr (snd (demo_parts ! 1) mod 2 ^ fst (demo_parts ! 1))"
  by (rule concat_slices_back) (simp_all add: demo_parts_def)

subsection \<open>Tagged unions\<close>

lemma union_payload_loop_lsbv:
  "(\<And>f. f \<in> set fs \<Longrightarrow> \<exists>x. map_of kvs (fst f) = Some x \<and> pack_runtime (snd f) x = Inr (p f)) \<Longrightarrow>
   pieces_fit (map (\<lambda>f. (width (snd f), p f)) fs) \<Longrightarrow>
    union_payload_loop fs kvs acc =
      Inr (acc * 2 ^ variant_payload_width fs + lsbv (rev (map (\<lambda>f. (width (snd f), p f)) fs)))"
proof (induction fs arbitrary: acc)
  case (Cons f fs)
  obtain x where "map_of kvs (fst f) = Some x" "pack_runtime (snd f) x = Inr (p f)"
    using Cons.prems(1) [of f] by auto
  moreover have "shl acc (width (snd f)) OR p f = acc * 2 ^ width (snd f) + p f"
    using Cons.prems(2) by (simp add: or_shl_add(2))
  ultimately show ?case
    using Cons by (simp add: lsbv_append total_map variant_payload_width_def algebra_simps power_add)
qed (simp add: variant_payload_width_def)

lemma union_slice_loop_nth:
  "distinct (map fst fs) \<Longrightarrow> i < length fs \<Longrightarrow>
    union_slice_loop fs off (fst (fs ! i)) =
      Inr (off - int (variant_payload_width (take i fs)) - 1, off - int (variant_payload_width (take (Suc i) fs)))"
proof (induction fs arbitrary: i off)
  case (Cons f fs)
  show ?case
  proof (cases i)
    case 0
    then show ?thesis by (simp add: variant_payload_width_def Let_def)
  next
    case (Suc j)
    then have "fst (fs ! j) \<in> fst ` set fs" using Cons.prems by simp
    moreover have "fst f \<notin> fst ` set fs" using Cons.prems(1) by simp
    ultimately have "fst (fs ! j) \<noteq> fst f" by metis
    with Cons Suc show ?thesis by (simp add: variant_payload_width_def Let_def algebra_simps)
  qed
qed simp

lemma variant_fit:
  assumes "wf_type (TaggedUnionType n vs d)" and "mk_union_value n vs d var kvs = Inr u"
  obtains v where "union_variant_of vs var = Some v" "v \<in> set vs" "fst v = var"
    "distinct (map fst (snd v))" "map fst kvs = map fst (snd v)"
    "\<And>f. f \<in> set (snd v) \<Longrightarrow> packable (snd f) \<and>
      (\<exists>x. map_of kvs (fst f) = Some x \<and> runtime_value_fits x (snd f))"
proof -
  from assms(2) obtain v where v: "union_variant_of vs var = Some v" "map fst kvs = map fst (snd v)"
    and fit: "List.find (\<lambda>p. \<not> runtime_value_fits (snd (snd p)) (snd (fst p))) (zip (snd v) kvs) = None"
    by (auto simp: mk_union_value_def split: option.splits if_splits)
  have vs: "v \<in> set vs" "fst v = var" using v(1) by (auto simp: union_variant_of_def dest: find_key_Some)
  then have dist: "distinct (map fst (snd v))" using assms(1) by auto
  have len: "length kvs = length (snd v)" using v(2) by (metis length_map)
  have "packable (snd f) \<and> (\<exists>x. map_of kvs (fst f) = Some x \<and> runtime_value_fits x (snd f))"
    if f: "f \<in> set (snd v)" for f
  proof -
    from f obtain i where i: "i < length (snd v)" "snd v ! i = f" by (auto simp: in_set_conv_nth)
    have "(f, kvs ! i) \<in> set (zip (snd v) kvs)" using i len by (force simp: set_zip)
    moreover have "\<not> (\<exists>p. p \<in> set (zip (snd v) kvs) \<and> \<not> runtime_value_fits (snd (snd p)) (snd (fst p)))"
      using fit by (simp only: find_None_iff) simp
    ultimately have "runtime_value_fits (snd (kvs ! i)) (snd f)" by (metis fst_conv snd_conv)
    moreover have "fst (kvs ! i) = fst f" using v(2) i len by (metis nth_map)
    then have "map_of kvs (fst f) = Some (snd (kvs ! i))"
      using map_of_distinct_nth [of kvs i] dist v(2) i len by simp
    moreover have "flat_scalar (snd f)" "wf_type (snd f)" using assms(1) vs(1) f by auto
    then have "packable (snd f)" by (cases "snd f") (auto simp: packable_def)
    ultimately show ?thesis by blast
  qed
  with that v vs dist show ?thesis by blast
qed

lemma high_part_mod:
  fixes a b :: int
  assumes "L + w \<le> W"
  shows "(a + b * 2 ^ W) div 2 ^ L mod 2 ^ w = a div 2 ^ L mod 2 ^ w"
proof -
  obtain k where W: "W = L + w + k" using assms le_Suc_ex by blast
  have "a + b * 2 ^ W = a + (b * 2 ^ k * 2 ^ w) * 2 ^ L" by (simp add: W power_add)
  then show ?thesis by (simp only: div_mult_self1 power_not_zero zero_neq_numeral not_False_eq_True
      mod_mult_self1 add.commute [of "a div 2 ^ L"] mod_mult_self3 mod_mult_self4)
qed

lemma union_field_slice:
  assumes v: "union_variant_of vs var = Some v" and dist: "distinct (map fst (snd v))"
    and i: "i < length (snd v)" and le: "variant_payload_width (snd v) \<le> payload_width vs"
    and fit: "pieces_fit (map (\<lambda>f. (width (snd f), p f)) (snd v))" and w: "0 < width (snd (snd v ! i))"
    and r: "r = lsbv (rev (map (\<lambda>f. (width (snd f), p f)) (snd v))) *
      2 ^ (payload_width vs - variant_payload_width (snd v)) + tag * 2 ^ payload_width vs"
    and W: "payload_width vs \<le> W"
  shows "\<exists>msb lsb. tagged_union_field_slice vs var (fst (snd v ! i)) = Inr (msb, lsb) \<and>
    slice_runtime (VInt r) (int W) msb lsb = Inr (p (snd v ! i))"
proof -
  let ?w = "width (snd (snd v ! i))" and ?D = "variant_payload_width (drop (Suc i) (snd v))"
  let ?P = "payload_width vs - variant_payload_width (snd v)"
  let ?ps = "map (\<lambda>f. (width (snd f), p f)) (snd v)"
  have V: "variant_payload_width (snd v) = variant_payload_width (take i (snd v)) + ?w + ?D"
    using i by (subst id_take_nth_drop [OF i]) (simp add: variant_payload_width_def)
  have L: "?P + ?D + ?w \<le> payload_width vs" using V le by linarith
  have "tagged_union_field_slice vs var (fst (snd v ! i)) = Inr (int (?P + ?D + ?w) - 1, int (?P + ?D))"
    using union_slice_loop_nth [OF dist i, of "int (payload_width vs)"] i v V le
    by (simp add: tagged_union_field_slice_def take_Suc_conv_app_nth variant_payload_width_def of_nat_diff)
  moreover have "r div 2 ^ (?P + ?D) mod 2 ^ ?w = p (snd v ! i)"
  proof -
    have "r div 2 ^ (?P + ?D) mod 2 ^ ?w = lsbv (rev ?ps) * 2 ^ ?P div 2 ^ (?P + ?D) mod 2 ^ ?w"
      unfolding r by (rule high_part_mod [OF L])
    also have "lsbv (rev ?ps) * 2 ^ ?P div 2 ^ (?P + ?D) = lsbv (rev ?ps) div 2 ^ ?D"
      by (simp add: power_add zdiv_zmult2_eq)
    also have "\<dots> mod 2 ^ ?w = p (snd v ! i)"
      using struct_piece [OF fit, of i] i by (simp add: drop_map total_map variant_payload_width_def)
    finally show ?thesis .
  qed
  ultimately show ?thesis using slice_piece [OF w, of "?P + ?D" W r] L W by simp
qed

text \<open>
  C3: a tagged-union value packs to its tag above its payload: the word is within the union's
  width, the bits above the payload are the tag of the variant, and for every field of the
  variant the slice \<^verbatim>\<open>tagged_union_field_slice\<close> names reads back the packed field.
\<close>

theorem tagged_union_layout:
  assumes "wf_type (TaggedUnionType n vs d)" and "mk_union_value n vs d var kvs = Inr u"
  shows "\<exists>r tag. pack_tagged_union_runtime vs var kvs = Inr r \<and> union_tag vs var = Inr tag \<and>
    0 \<le> r \<and> r < 2 ^ width (TaggedUnionType n vs d) \<and> shr r (payload_width vs) = int tag \<and>
    (\<forall>name x. map_of kvs name = Some x \<longrightarrow> (\<exists>t p msb lsb.
       (name, t) \<in> set (snd (the (union_variant_of vs var))) \<and> pack_runtime t x = Inr p \<and>
       tagged_union_field_slice vs var name = Inr (msb, lsb) \<and>
       slice_runtime (VInt r) (int (width (TaggedUnionType n vs d))) msb lsb = Inr p))"
proof -
  obtain v where v: "union_variant_of vs var = Some v" "v \<in> set vs" "fst v = var"
    and dist: "distinct (map fst (snd v))" and names: "map fst kvs = map fst (snd v)"
    and fld: "\<And>f. f \<in> set (snd v) \<Longrightarrow> packable (snd f) \<and>
      (\<exists>x. map_of kvs (fst f) = Some x \<and> runtime_value_fits x (snd f))"
    using variant_fit [OF assms] by metis
  let ?W = "payload_width vs" and ?V = "variant_payload_width (snd v)"
  have "\<forall>f\<in>set (snd v). \<exists>p. pack_runtime (snd f) (the (map_of kvs (fst f))) = Inr p \<and>
      0 \<le> p \<and> p < 2 ^ width (snd f)"
    using fld packing.enc_member by fastforce
  then obtain p where p: "\<forall>f\<in>set (snd v). pack_runtime (snd f) (the (map_of kvs (fst f))) = Inr (p f) \<and>
      0 \<le> p f \<and> p f < 2 ^ width (snd f)" by metis
  let ?ps = "map (\<lambda>f. (width (snd f), p f)) (snd v)"
  have fit: "pieces_fit ?ps" using p by (auto simp: pieces_fit_def)
  have "distinct (map fst kvs)" using names dist by simp
  then have loop: "union_payload_loop (snd v) (dict_of kvs) 0 = Inr (lsbv (rev ?ps))"
    using union_payload_loop_lsbv [of "snd v" kvs p 0] fld p fit by fastforce
  have "index_of var (map fst vs) \<noteq> None" using v by (simp only: index_of_None) auto
  then obtain tag where "index_of var (map fst vs) = Some tag" by blast
  then have tag: "union_tag vs var = Inr tag" by (simp add: union_tag_def)
  have le: "?V \<le> ?W" using variant_payload_le [OF v(2)] .
  have tb: "int tag < 2 ^ tag_width vs" using union_tag_bound(1) [OF _ tag] assms(1) by auto
  let ?pay = "lsbv (rev ?ps) * 2 ^ (?W - ?V)"
  have low: "0 \<le> lsbv (rev ?ps)" "lsbv (rev ?ps) < 2 ^ ?V"
    using lsbv_bound [of "rev ?ps"] fit by (simp_all add: total_map variant_payload_width_def)
  have "?pay < 2 ^ ?V * 2 ^ (?W - ?V)" using low by (intro mult_strict_right_mono) auto
  also have "\<dots> = 2 ^ ?W" using le by (simp flip: power_add)
  finally have pay: "0 \<le> ?pay" "?pay < 2 ^ ?W" using low by simp_all
  let ?r = "?pay + int tag * 2 ^ ?W"
  have pack: "pack_tagged_union_runtime vs var kvs = Inr ?r"
    using v tag loop or_shl_add(2) [OF pay, of "int tag"]
    by (simp add: pack_tagged_union_runtime_def Let_def shl_def)
  have bound: "0 \<le> ?r" "?r < 2 ^ (?W + tag_width vs)"
    using mul_add_bound [OF pay, of "int tag" "tag_width vs"] tb by simp_all
  have field: "\<exists>t q msb lsb. (name, t) \<in> set (snd v) \<and> pack_runtime t x = Inr q \<and>
       tagged_union_field_slice vs var name = Inr (msb, lsb) \<and>
       slice_runtime (VInt ?r) (int (width (TaggedUnionType n vs d))) msb lsb = Inr q"
    if nx: "map_of kvs name = Some x" for name x
  proof -
    have "name \<in> fst ` set kvs" using nx by (force dest: map_of_SomeD)
    then have "name \<in> set (map fst (snd v))" using names by (metis set_map)
    then obtain i where i: "i < length (snd v)" "fst (snd v ! i) = name" by (auto simp: in_set_conv_nth)
    then have f: "snd v ! i \<in> set (snd v)" by simp
    have q: "pack_runtime (snd (snd v ! i)) x = Inr (p (snd v ! i))" using p f nx i(2) by force
    have "0 < width (snd (snd v ! i))" using fld [OF f] packable_width_pos by (auto simp: packable_def)
    then have "\<exists>msb lsb. tagged_union_field_slice vs var name = Inr (msb, lsb) \<and>
        slice_runtime (VInt ?r) (int (width (TaggedUnionType n vs d))) msb lsb = Inr (p (snd v ! i))"
      using union_field_slice [OF v(1) dist i(1) le fit _ refl, of "tag_width vs + ?W" "int tag"] i(2)
      unfolding width_union by (simp del: of_nat_add add: add.commute)
    moreover have "(name, snd (snd v ! i)) \<in> set (snd v)" using f i(2) by (metis prod.collapse)
    ultimately show ?thesis using q by blast
  qed
  have "shr ?r ?W = int tag" using split_mod_div(2) [OF pay] by (simp add: shr_def)
  moreover have "?r < 2 ^ width (TaggedUnionType n vs d)"
    using bound(2) by (simp only: width_union add.commute)
  moreover have "snd (the (union_variant_of vs var)) = snd v" using v(1) by simp
  ultimately show ?thesis
    using pack tag bound(1) field by (intro exI [of _ ?r] exI [of _ tag] conjI) (simp_all only: simp_thms, blast)
qed


definition demo_variants :: "union_variant list" where
  "demo_variants = [(''none'', []), (''pair'', [(''x'', UIntType 3), (''y'', SIntType 2)]),
     (''wide'', [(''z'', BitsType 7)])]"

theorem tagged_union_layout_witness:
  "\<exists>r tag. pack_tagged_union_runtime demo_variants ''pair'' [(''x'', VInt 6), (''y'', VInt (- 1))] = Inr r \<and>
    union_tag demo_variants ''pair'' = Inr tag \<and>
    0 \<le> r \<and> r < 2 ^ width (TaggedUnionType ''U'' demo_variants ''pkg.U'') \<and>
    shr r (payload_width demo_variants) = int tag \<and>
    (\<forall>name x. map_of [(''x'', VInt 6), (''y'', VInt (- 1))] name = Some x \<longrightarrow> (\<exists>t p msb lsb.
       (name, t) \<in> set (snd (the (union_variant_of demo_variants ''pair''))) \<and> pack_runtime t x = Inr p \<and>
       tagged_union_field_slice demo_variants ''pair'' name = Inr (msb, lsb) \<and>
       slice_runtime (VInt r) (int (width (TaggedUnionType ''U'' demo_variants ''pkg.U''))) msb lsb = Inr p))"
proof (rule tagged_union_layout)
  show "mk_union_value ''U'' demo_variants ''pkg.U'' ''pair'' [(''x'', VInt 6), (''y'', VInt (- 1))] =
      Inr (VUnion (TaggedUnionType ''U'' demo_variants ''pkg.U'') ''pair'' [(''x'', VInt 6), (''y'', VInt (- 1))])"
    by (simp add: mk_union_value_def demo_variants_def union_variant_of_def scalar_fits_def)
qed (simp add: demo_variants_def)

end
