(* ===== verification/Sim_Values.thy ===== *)
theory Sim_Values
  imports Packing
begin

text \<open>
  Packing of public values at the boundary of the native simulation,
  \<^verbatim>\<open>zlang/simulation_values.py\<close>, and the 64-bit limbs of
  \<^verbatim>\<open>zlang/simulation_primitives.py\<close>.  Unlike \<^verbatim>\<open>ir/packing.py\<close> this codec takes enums (by name or
  code), empty structs and, one way only, tagged unions.  On the union-free types it
  satisfies \<open>partial_codec\<close>, and on the bit-packable ones it agrees with
  \<open>pack_runtime\<close> wherever both answer.
\<close>

section \<open>Definitions\<close>

datatype sim_error =
    EnumMember string | EnumValue | NotAMapping | WrongKeys | WrongArity | WrongVector
  | NotAUnion | EscapedPacking pack_error | Unfit pack_error | BadCode int | Unreadable pack_error

definition pack_enum :: "enum_decl \<Rightarrow> rt_value \<Rightarrow> sim_error + int" where
  "pack_enum e v = (case v of
       VStr m \<Rightarrow> (case member_code e m of Inl _ \<Rightarrow> Inl (EnumMember m) | Inr c \<Rightarrow> Inr c)
     | VInt c \<Rightarrow> if is_valid_code e c then Inr c else Inl EnumValue
     | _ \<Rightarrow> Inl EnumValue)"

function pack_value :: "hwtype \<Rightarrow> rt_value \<Rightarrow> sim_error + int" where
  "pack_value t v = (case t of
       EnumType e \<Rightarrow> pack_enum e v
     | StructType n fs \<Rightarrow> (case v of
           VDict kvs \<Rightarrow> if set (map fst kvs) \<noteq> set (map fst fs) then Inl WrongKeys
             else foldE (\<lambda>f packed. case map_of kvs (fst f) of None \<Rightarrow> Inl WrongKeys
               | Some x \<Rightarrow> bindE (pack_value (snd f) x) (\<lambda>r. Inr (shl packed (width (snd f)) OR r))) fs 0
         | _ \<Rightarrow> Inl NotAMapping)
     | TupleType ts \<Rightarrow> (case v of
           VTuple xs \<Rightarrow> if length xs \<noteq> length ts then Inl WrongArity
             else bindE (foldE (\<lambda>p s. bindE (pack_value (fst p) (snd p)) (\<lambda>r.
                 Inr (fst s OR shl r (snd s), snd s + width (fst p)))) (zip ts xs) (0, 0))
               (\<lambda>s. Inr (fst s))
         | _ \<Rightarrow> Inl WrongArity)
     | VecType n e \<Rightarrow> (case seq_items v of None \<Rightarrow> Inl WrongVector
         | Some xs \<Rightarrow> if length xs \<noteq> n then Inl WrongVector
             else bindE (mapE (\<lambda>p. bindE (pack_value e (snd p)) (\<lambda>r. Inr (shl r (fst p * width e))))
                 (zip [0..<length xs] xs))
               (\<lambda>rs. Inr (sum_list rs)))
     | TaggedUnionType n vs d \<Rightarrow> (case v of
           VUnion (TaggedUnionType n' vs' d') var kvs \<Rightarrow>
             (case pack_tagged_union_runtime vs' var kvs of Inl e \<Rightarrow> Inl (EscapedPacking e) | Inr r \<Rightarrow> Inr r)
         | _ \<Rightarrow> Inl NotAUnion)
     | _ \<Rightarrow> (case pack_runtime t v of Inl e \<Rightarrow> Inl (Unfit e) | Inr r \<Rightarrow> Inr r))"
  by pat_completeness auto
termination
proof (relation "measure (\<lambda>a. size (fst a))", goal_cases)
  case (3 t v ts xs z)
  then have "fst z \<in> set ts" by (metis set_zip_leftD prod.collapse)
  then show ?case using 3 by (auto simp: less_Suc_eq_le size_list_estimation' split: prod.split)
qed (auto simp: less_Suc_eq_le intro: size_list_estimation' termination_simp)

declare pack_value.simps [simp del]

function unpack_value :: "hwtype \<Rightarrow> int \<Rightarrow> sim_error + rt_value" where
  "unpack_value t r = (case t of
       EnumType e \<Rightarrow> if is_valid_code e r then Inr (VInt r) else Inl (BadCode r)
     | StructType n fs \<Rightarrow>
         bindE (foldE (\<lambda>f s. let shift = snd s - width (snd f) in
             bindE (unpack_value (snd f) (shr r shift AND ones (width (snd f)))) (\<lambda>x.
               Inr (dict_set (fst f) x (fst s), shift))) fs ([], width t))
           (\<lambda>s. Inr (VDict (fst s)))
     | TupleType ts \<Rightarrow>
         bindE (foldE (\<lambda>e s. bindE (unpack_value e (shr r (snd s) AND ones (width e))) (\<lambda>x.
             Inr (fst s @ [x], snd s + width e))) ts ([], 0))
           (\<lambda>s. Inr (VTuple (fst s)))
     | VecType n e \<Rightarrow>
         bindE (mapE (\<lambda>i. unpack_value e (shr r (i * width e) AND ones (width e))) [0..<n])
           (\<lambda>xs. Inr (VList xs))
     | TaggedUnionType n vs d \<Rightarrow> Inr (VInt r)
     | _ \<Rightarrow> (case unpack_runtime t r of Inl e \<Rightarrow> Inl (Unreadable e) | Inr v \<Rightarrow> Inr v))"
  by pat_completeness auto
termination
  by (relation "measure (\<lambda>a. size (fst a))")
    (auto simp: less_Suc_eq_le intro: size_list_estimation' termination_simp)

declare unpack_value.simps [simp del]

section \<open>What the codec is defined on\<close>

fun union_free :: "hwtype \<Rightarrow> bool" where
  "union_free (StructType n fs) = (\<forall>f\<in>set fs. union_free (snd f))"
| "union_free (TupleType ts) = (\<forall>t\<in>set ts. union_free t)"
| "union_free (VecType n t) = union_free t"
| "union_free (TaggedUnionType n vs d) = False"
| "union_free t = True"

definition sim_type :: "hwtype \<Rightarrow> bool" where
  "sim_type t \<longleftrightarrow> wf_type t \<and> distinct_fields t \<and> union_free t"

fun sim_member :: "rt_value \<Rightarrow> hwtype \<Rightarrow> bool" where
  "sim_member v (EnumType e) = (case v of
       VStr m \<Rightarrow> m \<in> set (en_members e) | VInt c \<Rightarrow> is_valid_code e c | _ \<Rightarrow> False)"
| "sim_member v (StructType n fs) = (case v of
       VDict kvs \<Rightarrow> set (map fst kvs) = set (map fst fs) \<and>
         (\<forall>f\<in>set fs. case map_of kvs (fst f) of None \<Rightarrow> False | Some x \<Rightarrow> sim_member x (snd f))
     | _ \<Rightarrow> False)"
| "sim_member v (TupleType ts) = (case v of
       VTuple xs \<Rightarrow> length xs = length ts \<and> (\<forall>p\<in>set (zip xs ts). sim_member (fst p) (snd p))
     | _ \<Rightarrow> False)"
| "sim_member v (VecType n t) = (case seq_items v of
       None \<Rightarrow> False | Some xs \<Rightarrow> length xs = n \<and> (\<forall>x\<in>set xs. sim_member x t))"
| "sim_member v t = runtime_value_fits v t"

text \<open>The value that is read back: an enum name as its code, a bool as an integer, a sequence as a list.\<close>

fun sim_canon :: "hwtype \<Rightarrow> rt_value \<Rightarrow> rt_value" where
  "sim_canon (EnumType e) v = (case v of
       VStr m \<Rightarrow> (case member_code e m of Inr c \<Rightarrow> VInt c | Inl _ \<Rightarrow> v) | _ \<Rightarrow> v)"
| "sim_canon (StructType n fs) v = (case v of
       VDict kvs \<Rightarrow> VDict (map (\<lambda>f. (fst f, sim_canon (snd f) (the (map_of kvs (fst f))))) fs) | _ \<Rightarrow> v)"
| "sim_canon (TupleType ts) v = (case v of
       VTuple xs \<Rightarrow> VTuple (map (\<lambda>p. sim_canon (snd p) (fst p)) (zip xs ts)) | _ \<Rightarrow> v)"
| "sim_canon (VecType n t) v = (case seq_items v of
       Some xs \<Rightarrow> VList (map (sim_canon t) xs) | None \<Rightarrow> v)"
| "sim_canon t v = canonical_value t v"

definition sim_codec_at :: "hwtype \<Rightarrow> bool" where
  "sim_codec_at t \<longleftrightarrow>
     (\<forall>v. sim_member v t \<longrightarrow> (\<exists>r. pack_value t v = Inr r \<and> 0 \<le> r \<and> r < 2 ^ width t \<and>
        unpack_value t r = Inr (sim_canon t v))) \<and>
     (\<forall>v r. pack_value t v = Inr r \<longrightarrow> sim_member v t)"

lemma sim_codec_atD:
  assumes "sim_codec_at t"
  shows "sim_member v t \<Longrightarrow> \<exists>r. pack_value t v = Inr r \<and> 0 \<le> r \<and> r < 2 ^ width t \<and>
        unpack_value t r = Inr (sim_canon t v)"
    and "pack_value t v = Inr r \<Longrightarrow> sim_member v t"
  using assms unfolding sim_codec_at_def by blast+

section \<open>Round trip\<close>

lemma member_code_ok:
  assumes "wf_enum e"
  shows "(\<exists>c. member_code e m = Inr c) \<longleftrightarrow> m \<in> set (en_members e)"
    and "member_code e m = Inr c \<Longrightarrow> is_valid_code e c"
proof -
  have "(\<exists>i. index_of m (en_members e) = Some i) \<longleftrightarrow> m \<in> set (en_members e)"
    using index_of_None [of m "en_members e"] by (metis option.exhaust option.distinct(1))
  then show "(\<exists>c. member_code e m = Inr c) \<longleftrightarrow> m \<in> set (en_members e)"
    by (auto simp: member_code_def split: option.splits)
  show "member_code e m = Inr c \<Longrightarrow> is_valid_code e c"
    using length_enum_codes [OF assms] by (auto simp: member_code_def is_valid_code_def split: option.splits dest: index_of_Some)
qed

lemma sim_codec_enum:
  assumes "wf_enum e"
  shows "sim_codec_at (EnumType e)"
proof -
  have code: "0 \<le> c \<and> c < 2 ^ enum_width e" if "is_valid_code e c" for c
    using that enum_code_bounds [OF assms] by (simp add: is_valid_code_def)
  have up: "unpack_value (EnumType e) c = Inr (VInt c)" if "is_valid_code e c" for c
    using that by (simp add: unpack_value.simps)
  have pk: "pack_value (EnumType e) v = pack_enum e v" for v by (simp add: pack_value.simps)
  show ?thesis
    unfolding sim_codec_at_def
  proof (intro conjI allI impI)
    fix v assume m: "sim_member v (EnumType e)"
    then consider (name) s where "v = VStr s" "s \<in> set (en_members e)"
      | (code) c where "v = VInt c" "is_valid_code e c"
      by (auto split: rt_value.splits)
    then show "\<exists>r. pack_value (EnumType e) v = Inr r \<and> 0 \<le> r \<and> r < 2 ^ width (EnumType e) \<and>
        unpack_value (EnumType e) r = Inr (sim_canon (EnumType e) v)"
    proof cases
      case name
      then obtain c where c: "member_code e s = Inr c" using member_code_ok(1) [OF assms] by blast
      then show ?thesis using member_code_ok(2) [OF assms c] code up name by (simp add: pk pack_enum_def)
    next
      case code
      then show ?thesis using \<open>\<And>c. is_valid_code e c \<Longrightarrow> 0 \<le> c \<and> c < 2 ^ enum_width e\<close> up by (simp add: pk pack_enum_def)
    qed
  next
    fix v r assume "pack_value (EnumType e) v = Inr r"
    then show "sim_member v (EnumType e)"
      using member_code_ok(1) [OF assms] by (auto simp: pk pack_enum_def split: rt_value.splits sum.splits if_splits)
  qed
qed

lemma sim_codec_scalar:
  assumes "flat_scalar t" "wf_type t"
  shows "sim_codec_at t"
proof -
  have c: "codec_at t" using codec_at_scalar assms .
  have pk: "pack_value t v = (case pack_runtime t v of Inl e \<Rightarrow> Inl (Unfit e) | Inr r \<Rightarrow> Inr r)" for v
    by (subst pack_value.simps) (use assms(1) in \<open>cases t; simp\<close>)
  have up: "unpack_value t r = (case unpack_runtime t r of Inl e \<Rightarrow> Inl (Unreadable e) | Inr v \<Rightarrow> Inr v)" for r
    by (subst unpack_value.simps) (use assms(1) in \<open>cases t; simp\<close>)
  have mem: "sim_member v t = runtime_value_fits v t" and can: "sim_canon t v = canonical_value t v" for v
    using assms(1) by (cases t; simp)+
  show ?thesis
    unfolding sim_codec_at_def mem can
  proof (intro conjI allI impI)
    fix v assume "runtime_value_fits v t"
    from codec_atD(1) [OF c this] show "\<exists>r. pack_value t v = Inr r \<and> 0 \<le> r \<and> r < 2 ^ width t \<and>
        unpack_value t r = Inr (canonical_value t v)"
      by (auto simp: pk up)
  next
    fix v r assume "pack_value t v = Inr r"
    then have "pack_runtime t v = Inr r" by (simp add: pk split: sum.splits)
    then show "runtime_value_fits v t" by (rule codec_atD(2) [OF c])
  qed
qed

subsection \<open>Structs\<close>

abbreviation field_bits :: "(string \<times> hwtype) list \<Rightarrow> nat" where
  "field_bits fs \<equiv> sum_list (map (\<lambda>f. width (snd f)) fs)"

lemma pack_fields_loop:
  "(\<And>f. f \<in> set fs \<Longrightarrow> \<exists>x. map_of kvs (fst f) = Some x \<and> pack_value (snd f) x = Inr (p f)) \<Longrightarrow>
   pieces_fit (map (\<lambda>f. (width (snd f), p f)) fs) \<Longrightarrow>
    foldE (\<lambda>f packed. case map_of kvs (fst f) of None \<Rightarrow> Inl WrongKeys
      | Some x \<Rightarrow> bindE (pack_value (snd f) x) (\<lambda>r. Inr (shl packed (width (snd f)) OR r))) fs acc =
    Inr (acc * 2 ^ field_bits fs + lsbv (rev (map (\<lambda>f. (width (snd f), p f)) fs)))"
proof (induction fs arbitrary: acc)
  case (Cons f fs)
  then obtain x where x: "map_of kvs (fst f) = Some x" "pack_value (snd f) x = Inr (p f)"
    by (meson list.set_intros(1))
  have t: "total_bits (map (\<lambda>f. (width (snd f), p f)) fs) = field_bits fs" by (simp add: total_map)
  show ?case
    using Cons x or_shl_add(2) [of "p f" "width (snd f)" acc]
    by (simp add: lsbv_append t) (simp add: power_add algebra_simps)
qed simp

lemma unpack_fields_loop:
  "(\<And>i. i < length fs \<Longrightarrow> unpack_value (snd (fs ! i))
      (r div 2 ^ field_bits (drop (Suc i) fs) mod 2 ^ width (snd (fs ! i))) = Inr (y (fs ! i))) \<Longrightarrow>
   distinct (map fst kvs @ map fst fs) \<Longrightarrow>
    foldE (\<lambda>f s. let shift = snd s - width (snd f) in
       bindE (unpack_value (snd f) (shr r shift AND ones (width (snd f)))) (\<lambda>x.
         Inr (dict_set (fst f) x (fst s), shift))) fs (kvs, field_bits fs) =
    Inr (kvs @ map (\<lambda>f. (fst f, y f)) fs, 0)"
proof (induction fs arbitrary: kvs)
  case (Cons f fs)
  have "unpack_value (snd f) (r div 2 ^ field_bits fs mod 2 ^ width (snd f)) = Inr (y f)"
    using Cons.prems(1) [of 0] by simp
  moreover have "fst f \<notin> fst ` set kvs" using Cons.prems(2) by auto
  moreover have "foldE (\<lambda>f s. let shift = snd s - width (snd f) in
       bindE (unpack_value (snd f) (shr r shift AND ones (width (snd f)))) (\<lambda>x.
         Inr (dict_set (fst f) x (fst s), shift))) fs (kvs @ [(fst f, y f)], field_bits fs) =
    Inr ((kvs @ [(fst f, y f)]) @ map (\<lambda>f. (fst f, y f)) fs, 0)"
    using Cons.prems(2) Cons.prems(1) [of "Suc _"] by (intro Cons.IH) auto
  ultimately show ?case by (simp add: dict_set_fresh shr_def and_ones Let_def)
qed simp

lemma sim_codec_struct:
  assumes dist: "distinct (map fst fs)" and ih: "\<And>f. f \<in> set fs \<Longrightarrow> sim_codec_at (snd f)"
  shows "sim_codec_at (StructType n fs)"
  unfolding sim_codec_at_def
proof (intro conjI allI impI)
  fix v assume "sim_member v (StructType n fs)"
  then obtain kvs where v: "v = VDict kvs" and keys: "set (map fst kvs) = set (map fst fs)"
    and m: "\<forall>f\<in>set fs. \<exists>x. map_of kvs (fst f) = Some x \<and> sim_member x (snd f)"
    by (auto split: rt_value.splits option.splits) (metis not_None_eq)
  let ?x = "\<lambda>f. the (map_of kvs (fst f))"
  have "\<forall>f\<in>set fs. \<exists>r. pack_value (snd f) (?x f) = Inr r \<and> 0 \<le> r \<and> r < 2 ^ width (snd f) \<and>
      unpack_value (snd f) r = Inr (sim_canon (snd f) (?x f))"
    using m sim_codec_atD(1) [OF ih] by fastforce
  then obtain p where p: "\<forall>f\<in>set fs. pack_value (snd f) (?x f) = Inr (p f) \<and> 0 \<le> p f \<and>
      p f < 2 ^ width (snd f) \<and> unpack_value (snd f) (p f) = Inr (sim_canon (snd f) (?x f))"
    by metis
  let ?ps = "map (\<lambda>f. (width (snd f), p f)) fs"
  let ?r = "lsbv (rev ?ps)"
  have fit: "pieces_fit ?ps" using p by (auto simp: pieces_fit_def)
  have "\<exists>x. map_of kvs (fst f) = Some x \<and> pack_value (snd f) x = Inr (p f)" if "f \<in> set fs" for f
    using m p that by force
  from pack_fields_loop [OF this fit, of 0] have "pack_value (StructType n fs) v = Inr ?r"
    using keys v by (simp add: pack_value.simps)
  moreover have "unpack_value (StructType n fs) ?r = Inr (sim_canon (StructType n fs) v)"
  proof -
    have "unpack_value (snd (fs ! i)) (?r div 2 ^ field_bits (drop (Suc i) fs) mod 2 ^ width (snd (fs ! i))) =
        Inr (sim_canon (snd (fs ! i)) (?x (fs ! i)))" if "i < length fs" for i
      using struct_piece [OF fit, of i] that p by (simp add: total_bits_def drop_map comp_def)
    from unpack_fields_loop [OF this, of "[]"] dist show ?thesis
      by (simp add: unpack_value.simps v)
  qed
  moreover have "0 \<le> ?r" "?r < 2 ^ width (StructType n fs)"
    using lsbv_bound [of "rev ?ps"] fit by (simp_all add: total_map)
  ultimately show "\<exists>r. pack_value (StructType n fs) v = Inr r \<and> 0 \<le> r \<and> r < 2 ^ width (StructType n fs) \<and>
      unpack_value (StructType n fs) r = Inr (sim_canon (StructType n fs) v)" by blast
next
  fix v r assume "pack_value (StructType n fs) v = Inr r"
  then obtain kvs where v: "v = VDict kvs" "set (map fst kvs) = set (map fst fs)"
    and l: "foldE (\<lambda>f packed. case map_of kvs (fst f) of None \<Rightarrow> Inl WrongKeys
      | Some x \<Rightarrow> bindE (pack_value (snd f) x) (\<lambda>r. Inr (shl packed (width (snd f)) OR r))) fs 0 = Inr r"
    by (subst (asm) pack_value.simps) (auto split: rt_value.splits if_splits)
  from l have "\<forall>f\<in>set fs. \<exists>x r. map_of kvs (fst f) = Some x \<and> pack_value (snd f) x = Inr r"
  proof (induction fs arbitrary: r rule: rev_induct)
    case (snoc f fs)
    then show ?case by (auto simp: foldE_append split: option.splits)
  qed simp
  then have "\<forall>f\<in>set fs. \<exists>x. map_of kvs (fst f) = Some x \<and> sim_member x (snd f)"
    using sim_codec_atD(2) [OF ih] by blast
  with v show "sim_member v (StructType n fs)" by fastforce
qed

subsection \<open>Tuples and vectors\<close>

lemma pack_items_loop:
  "length xs = length ts \<Longrightarrow> length rs = length ts \<Longrightarrow>
   (\<And>i. i < length ts \<Longrightarrow> pack_value (ts ! i) (xs ! i) = Inr (rs ! i)) \<Longrightarrow>
   pieces_fit (zip (map width ts) rs) \<Longrightarrow> 0 \<le> acc \<Longrightarrow> acc < 2 ^ off \<Longrightarrow>
    foldE (\<lambda>p s. bindE (pack_value (fst p) (snd p)) (\<lambda>r.
      Inr (fst s OR shl r (snd s), snd s + width (fst p)))) (zip ts xs) (acc, off) =
    Inr (acc + lsbv (zip (map width ts) rs) * 2 ^ off, off + sum_list (map width ts))"
proof (induction ts arbitrary: xs rs acc off)
  case (Cons t ts)
  obtain x xs' where xs: "xs = x # xs'" using Cons.prems(1) by (cases xs) auto
  obtain r rs' where rs: "rs = r # rs'" using Cons.prems(2) by (cases rs) auto
  have r: "pack_value t x = Inr r" "0 \<le> r" "r < 2 ^ width t"
    using Cons.prems(3) [of 0] Cons.prems(4) xs rs by simp_all
  have b: "0 \<le> acc + r * 2 ^ off" "acc + r * 2 ^ off < 2 ^ (off + width t)"
    using mul_add_bound [OF Cons.prems(5,6) r(2,3)] by simp_all
  have "foldE (\<lambda>p s. bindE (pack_value (fst p) (snd p)) (\<lambda>r.
      Inr (fst s OR shl r (snd s), snd s + width (fst p)))) (zip ts xs') (acc + r * 2 ^ off, off + width t) =
    Inr (acc + r * 2 ^ off + lsbv (zip (map width ts) rs') * 2 ^ (off + width t),
      off + width t + sum_list (map width ts))"
    using Cons.prems Cons.prems(3) [of "Suc _"] xs rs b by (intro Cons.IH) auto
  then show ?case
    using xs rs r or_shl_add(1) [OF Cons.prems(5,6), of r] by (simp add: power_add algebra_simps)
qed simp

lemma unpack_items_loop:
  "length ys = length ts \<Longrightarrow>
   (\<And>i. i < length ts \<Longrightarrow> unpack_value (ts ! i)
      (r div 2 ^ (off + sum_list (map width (take i ts))) mod 2 ^ width (ts ! i)) = Inr (ys ! i)) \<Longrightarrow>
    foldE (\<lambda>e s. bindE (unpack_value e (shr r (snd s) AND ones (width e))) (\<lambda>x.
      Inr (fst s @ [x], snd s + width e))) ts (acc, off) = Inr (acc @ ys, off + sum_list (map width ts))"
proof (induction ts arbitrary: ys acc off)
  case (Cons t ts)
  obtain y ys' where ys: "ys = y # ys'" using Cons.prems(1) by (cases ys) auto
  have "unpack_value t (r div 2 ^ off mod 2 ^ width t) = Inr y" using Cons.prems(2) [of 0] ys by simp
  moreover have "foldE (\<lambda>e s. bindE (unpack_value e (shr r (snd s) AND ones (width e))) (\<lambda>x.
      Inr (fst s @ [x], snd s + width e))) ts (acc @ [y], off + width t) =
    Inr ((acc @ [y]) @ ys', off + width t + sum_list (map width ts))"
    using Cons.prems Cons.prems(2) [of "Suc _"] ys by (intro Cons.IH) (auto simp: add.assoc)
  ultimately show ?case using ys by (simp add: shr_def and_ones)
qed simp

lemma foldE_items_ok:
  assumes "foldE (\<lambda>p s. bindE (f p) (\<lambda>r. Inr (g p s r))) ps s = Inr s'"
  shows "\<forall>p\<in>set ps. \<exists>r. f p = Inr r"
  using assms by (induction ps arbitrary: s) auto

lemma sim_codec_tuple:
  assumes ih: "\<And>t. t \<in> set ts \<Longrightarrow> sim_codec_at t"
  shows "sim_codec_at (TupleType ts)"
  unfolding sim_codec_at_def
proof (intro conjI allI impI)
  fix v assume "sim_member v (TupleType ts)"
  then obtain xs where v: "v = VTuple xs" and len: "length xs = length ts"
    and "\<forall>p\<in>set (zip xs ts). sim_member (fst p) (snd p)"
    by (auto split: rt_value.splits)
  then have m: "sim_member (xs ! i) (ts ! i)" if "i < length ts" for i
    using that len by (force simp: set_zip)
  have "\<forall>i<length ts. \<exists>r. pack_value (ts ! i) (xs ! i) = Inr r \<and> 0 \<le> r \<and> r < 2 ^ width (ts ! i) \<and>
      unpack_value (ts ! i) r = Inr (sim_canon (ts ! i) (xs ! i))"
    using m sim_codec_atD(1) [OF ih] by simp
  then obtain p where p: "\<forall>i<length ts. pack_value (ts ! i) (xs ! i) = Inr (p i) \<and> 0 \<le> p i \<and>
      p i < 2 ^ width (ts ! i) \<and> unpack_value (ts ! i) (p i) = Inr (sim_canon (ts ! i) (xs ! i))"
    by metis
  let ?rs = "map p [0..<length ts]"
  let ?ps = "zip (map width ts) ?rs"
  have fit: "pieces_fit ?ps" using p by (auto simp: pieces_fit_def set_zip)
  have tot: "total_bits ?ps = sum_list (map width ts)" by (simp add: total_bits_def)
  have "pack_value (TupleType ts) v = Inr (lsbv ?ps)"
    using pack_items_loop [OF len, of ?rs 0 0] p fit len v by (simp add: pack_value.simps)
  moreover have "unpack_value (TupleType ts) (lsbv ?ps) = Inr (sim_canon (TupleType ts) v)"
  proof -
    have "unpack_value (ts ! i) (lsbv ?ps div 2 ^ (0 + sum_list (map width (take i ts))) mod 2 ^ width (ts ! i)) =
        Inr (map (\<lambda>p. sim_canon (snd p) (fst p)) (zip xs ts) ! i)" if i: "i < length ts" for i
    proof -
      have "total_bits (take i ?ps) = sum_list (map width (take i ts))"
        using i by (simp add: total_bits_def take_zip take_map)
      then show ?thesis using lsbv_piece [OF fit, of i] i p len by simp
    qed
    from unpack_items_loop [OF _ this, of "[]"] len v show ?thesis by (simp add: unpack_value.simps)
  qed
  moreover have "0 \<le> lsbv ?ps" "lsbv ?ps < 2 ^ width (TupleType ts)"
    using lsbv_bound [OF fit] tot by simp_all
  ultimately show "\<exists>r. pack_value (TupleType ts) v = Inr r \<and> 0 \<le> r \<and> r < 2 ^ width (TupleType ts) \<and>
      unpack_value (TupleType ts) r = Inr (sim_canon (TupleType ts) v)" by blast
next
  fix v r assume "pack_value (TupleType ts) v = Inr r"
  then obtain xs s where v: "v = VTuple xs" "length xs = length ts"
    and l: "foldE (\<lambda>p s. bindE (pack_value (fst p) (snd p)) (\<lambda>r.
      Inr (fst s OR shl r (snd s), snd s + width (fst p)))) (zip ts xs) (0, 0) = Inr s"
    by (subst (asm) pack_value.simps) (auto split: rt_value.splits if_splits)
  have "sim_member (xs ! i) (ts ! i)" if i: "i < length ts" for i
  proof -
    have "(ts ! i, xs ! i) \<in> set (zip ts xs)" using i v(2) by (auto simp: set_zip)
    then show ?thesis using foldE_items_ok [OF l] sim_codec_atD(2) [OF ih] i by fastforce
  qed
  with v show "sim_member v (TupleType ts)" by (auto simp: set_zip)
qed

lemma lsbv_const: "lsbv (map (\<lambda>i. (w, p i)) [0..<n]) = (\<Sum>i\<leftarrow>[0..<n]. shl (p i) (i * w))"
proof (induction n)
  case (Suc n)
  then show ?case by (simp add: lsbv_append total_map sum_list_const shl_def)
qed simp

lemma sim_codec_vector:
  assumes ih: "sim_codec_at e"
  shows "sim_codec_at (VecType n e)"
  unfolding sim_codec_at_def
proof (intro conjI allI impI)
  fix v assume "sim_member v (VecType n e)"
  then obtain xs where v: "seq_items v = Some xs" and len: "length xs = n"
    and m: "\<And>i. i < n \<Longrightarrow> sim_member (xs ! i) e"
    by (auto split: option.splits)
  have "\<forall>i<n. \<exists>r. pack_value e (xs ! i) = Inr r \<and> 0 \<le> r \<and> r < 2 ^ width e \<and>
      unpack_value e r = Inr (sim_canon e (xs ! i))"
    using m sim_codec_atD(1) [OF ih] by simp
  then obtain p where p: "\<forall>i<n. pack_value e (xs ! i) = Inr (p i) \<and> 0 \<le> p i \<and>
      p i < 2 ^ width e \<and> unpack_value e (p i) = Inr (sim_canon e (xs ! i))"
    by metis
  let ?ps = "map (\<lambda>i. (width e, p i)) [0..<n]"
  have fit: "pieces_fit ?ps" using p by (intro pieces_fit_indexed) simp
  have "mapE (\<lambda>q. bindE (pack_value e (snd q)) (\<lambda>r. Inr (shl r (fst q * width e)))) (zip [0..<n] xs) =
      Inr (map (\<lambda>i. shl (p i) (i * width e)) [0..<n])"
    unfolding zip_zip_upt(2) [OF len] mapE_map using p by (intro mapE_Inr_map) simp
  then have "pack_value (VecType n e) v = Inr (lsbv ?ps)"
    using v len by (simp add: pack_value.simps lsbv_const)
  moreover have "mapE (\<lambda>i. unpack_value e (shr (lsbv ?ps) (i * width e) AND ones (width e))) [0..<n] =
      Inr (map (\<lambda>i. sim_canon e (xs ! i)) [0..<n])"
    using indexed_piece [OF fit] p by (intro mapE_Inr_map) (simp add: shr_def and_ones sum_list_const)
  moreover have "map (\<lambda>i. sim_canon e (xs ! i)) [0..<n] = map (sim_canon e) xs"
    using len by (intro nth_equalityI) simp_all
  moreover have "0 \<le> lsbv ?ps" "lsbv ?ps < 2 ^ width (VecType n e)"
    using lsbv_bound [OF fit] by (simp_all add: total_map sum_list_const)
  ultimately show "\<exists>r. pack_value (VecType n e) v = Inr r \<and> 0 \<le> r \<and> r < 2 ^ width (VecType n e) \<and>
      unpack_value (VecType n e) r = Inr (sim_canon (VecType n e) v)"
    using v by (simp add: unpack_value.simps)
next
  fix v r assume "pack_value (VecType n e) v = Inr r"
  then obtain xs rs where v: "seq_items v = Some xs" "length xs = n"
    and ps: "mapE (\<lambda>p. bindE (pack_value e (snd p)) (\<lambda>r. Inr (shl r (fst p * width e)))) (zip [0..<length xs] xs) = Inr rs"
    by (subst (asm) pack_value.simps) (auto split: option.splits if_splits)
  have "sim_member (xs ! i) e" if "i < n" for i
    using mapE_Inr_nth [OF ps, of i] that v(2) sim_codec_atD(2) [OF ih] by auto
  with v show "sim_member v (VecType n e)" by (auto simp: in_set_conv_nth)
qed

lemma sim_codec: "sim_type t \<Longrightarrow> sim_codec_at t"
proof (induction t rule: union_free.induct)
  case (1 n fs)
  then show ?case by (intro sim_codec_struct) (auto simp: sim_type_def)
next
  case (2 ts)
  then show ?case by (intro sim_codec_tuple) (auto simp: sim_type_def)
next
  case (3 n t)
  then show ?case by (intro sim_codec_vector) (auto simp: sim_type_def)
qed (auto simp: sim_type_def intro: sim_codec_scalar sim_codec_enum)

interpretation simulation: partial_codec sim_type width sim_member sim_canon pack_value unpack_value
  by unfold_locales (blast dest: sim_codec sim_codec_atD)+

section \<open>Agreement with \<open>pack_runtime\<close>\<close>

lemma sim_member_packable:
  "is_bit_packable t \<Longrightarrow> sim_member v t = runtime_value_fits v t"
proof (induction t arbitrary: v rule: is_bit_packable.induct)
  case (2 n fs)
  then have "\<forall>f\<in>set fs. \<forall>v. sim_member v (snd f) = runtime_value_fits v (snd f)" by auto
  then show ?case by (auto split: rt_value.splits option.splits)
next
  case (3 ts)
  then have "\<And>x t. t \<in> set ts \<Longrightarrow> sim_member x t = runtime_value_fits x t" by simp
  then have "(\<forall>p\<in>set (zip xs ts). sim_member (fst p) (snd p)) = (\<forall>p\<in>set (zip xs ts). runtime_value_fits (fst p) (snd p))" for xs
    by (intro ball_cong refl) (metis prod.collapse set_zip_rightD)
  then show ?case by (auto split: rt_value.splits)
qed (auto split: option.splits)

lemma pack_value_runtime:
  "packable t \<Longrightarrow> pack_runtime t v = Inr r \<Longrightarrow> pack_value t v = Inr r"
proof (induction t arbitrary: v r rule: is_bit_packable.induct)
  case (2 n fs)
  have cd: "codec_at (snd f)" and pf: "packable (snd f)" if "f \<in> set fs" for f
    using that 2(2) packable_codec by (auto simp: packable_def)
  have "runtime_value_fits v (StructType n fs)" using 2 packing.enc_only by blast
  then obtain kvs where v: "v = VDict kvs" and keys: "set (map fst kvs) = set (map fst fs)"
    and m: "\<forall>f\<in>set fs. \<exists>x. map_of kvs (fst f) = Some x \<and> runtime_value_fits x (snd f)"
    by (auto split: rt_value.splits option.splits) (metis not_None_eq)
  have "\<forall>f\<in>set fs. \<exists>x p. map_of kvs (fst f) = Some x \<and> pack_runtime (snd f) x = Inr p \<and> 0 \<le> p \<and> p < 2 ^ width (snd f)"
    using m codec_atD(1) [OF cd] by blast
  then obtain p where p: "\<forall>f\<in>set fs. \<exists>x. map_of kvs (fst f) = Some x \<and> pack_runtime (snd f) x = Inr (p f) \<and>
      0 \<le> p f \<and> p f < 2 ^ width (snd f)"
    by metis
  have fit: "pieces_fit (map (\<lambda>f. (width (snd f), p f)) fs)" using p by (auto simp: pieces_fit_def)
  have pk: "is_bit_packable (StructType n fs)" "wf_type (StructType n fs)" using 2(2) by (simp_all add: packable_def)
  have "r = lsbv (rev (map (\<lambda>f. (width (snd f), p f)) fs))"
    using struct_pack [OF pk keys _ fit] p 2(3) v by fastforce
  moreover have "\<exists>x. map_of kvs (fst f) = Some x \<and> pack_value (snd f) x = Inr (p f)" if "f \<in> set fs" for f
    using p that 2(1) [OF that pf [OF that]] by blast
  from pack_fields_loop [OF this fit, of 0] have
    "pack_value (StructType n fs) v = Inr (lsbv (rev (map (\<lambda>f. (width (snd f), p f)) fs)))"
    using keys v by (simp add: pack_value.simps)
  ultimately show ?case by simp
next
  case (3 ts)
  have cd: "codec_at t" and pt: "packable t" if "t \<in> set ts" for t
    using that 3(2) packable_codec by (auto simp: packable_def)
  have "runtime_value_fits v (TupleType ts)" using 3 packing.enc_only by blast
  then obtain xs where v: "v = VTuple xs" and len: "length xs = length ts"
    and m: "\<forall>p\<in>set (zip xs ts). runtime_value_fits (fst p) (snd p)"
    by (auto split: rt_value.splits)
  have "\<forall>i<length ts. \<exists>p. pack_runtime (ts ! i) (xs ! i) = Inr p \<and> 0 \<le> p \<and> p < 2 ^ width (ts ! i)"
    using m len codec_atD(1) [OF cd] by (force simp: set_zip)
  then obtain p where p: "\<forall>i<length ts. pack_runtime (ts ! i) (xs ! i) = Inr (p i) \<and> 0 \<le> p i \<and> p i < 2 ^ width (ts ! i)"
    by metis
  have pk: "is_bit_packable (TupleType ts)" "wf_type (TupleType ts)" using 3(2) by (simp_all add: packable_def)
  have fit: "pieces_fit (map (\<lambda>i. (width (ts ! i), p i)) [0..<length ts])"
    using p by (intro pieces_fit_indexed) simp
  have "r = lsbv (map (\<lambda>i. (width (ts ! i), p i)) [0..<length ts])"
    using tuple_pack [OF pk len _ fit] p 3(3) v by simp
  moreover have eq: "zip (map width ts) (map p [0..<length ts]) = map (\<lambda>i. (width (ts ! i), p i)) [0..<length ts]"
    by (rule nth_equalityI) simp_all
  have "pack_value (ts ! i) (xs ! i) = Inr (map p [0..<length ts] ! i)" if "i < length ts" for i
    using 3(1) [of "ts ! i"] pt p that by simp
  from pack_items_loop [OF len _ this, of 0 0] fit have
    "pack_value (TupleType ts) v = Inr (lsbv (map (\<lambda>i. (width (ts ! i), p i)) [0..<length ts]))"
    using len v by (simp add: pack_value.simps eq)
  ultimately show ?case by simp
next
  case (4 n e)
  have cd: "codec_at e" and pe: "packable e" using 4(2) packable_codec by (auto simp: packable_def)
  have "runtime_value_fits v (VecType n e)" using 4 packing.enc_only by blast
  then obtain xs where v: "seq_items v = Some xs" and len: "length xs = n"
    and m: "\<And>i. i < n \<Longrightarrow> runtime_value_fits (xs ! i) e"
    by (auto split: option.splits)
  have "\<forall>i<n. \<exists>p. pack_runtime e (xs ! i) = Inr p \<and> 0 \<le> p \<and> p < 2 ^ width e"
    using m codec_atD(1) [OF cd] by blast
  then obtain p where p: "\<forall>i<n. pack_runtime e (xs ! i) = Inr (p i) \<and> 0 \<le> p i \<and> p i < 2 ^ width e"
    by metis
  have fit: "pieces_fit (map (\<lambda>i. (width e, p i)) [0..<n])" using p by (intro pieces_fit_indexed) simp
  have "r = lsbv (map (\<lambda>i. (width e, p i)) [0..<n])"
    using vector_pack [OF _ _ v len _ fit] pe p 4(3) by (simp add: packable_def)
  moreover have "mapE (\<lambda>q. bindE (pack_value e (snd q)) (\<lambda>r. Inr (shl r (fst q * width e)))) (zip [0..<n] xs) =
      Inr (map (\<lambda>i. shl (p i) (i * width e)) [0..<n])"
    unfolding zip_zip_upt(2) [OF len] mapE_map using p 4(1) pe by (intro mapE_Inr_map) simp
  ultimately show ?case using v len by (simp add: pack_value.simps lsbv_const)
qed (simp_all add: pack_value.simps packable_def)

section \<open>Limbs\<close>

definition int_from_limbs :: "int list \<Rightarrow> int" where
  "int_from_limbs limbs = (\<Sum>p\<leftarrow>zip [0..<length limbs] limbs. shl (snd p) (64 * fst p))"

text \<open>\<^verbatim>\<open>range(0, width, 64)\<close> has \<open>(width + 63) div 64\<close> elements.\<close>

definition int_to_limbs :: "int \<Rightarrow> nat \<Rightarrow> int list" where
  "int_to_limbs v w = map (\<lambda>i. shr v (64 * i) AND ones 64) [0..<(w + 63) div 64]"

lemma int_from_limbs_lsbv: "int_from_limbs limbs = lsbv (map (Pair 64) limbs)"
proof -
  have "map (Pair (64 :: nat)) limbs = map (\<lambda>i. (64, limbs ! i)) [0..<length limbs]"
    by (rule nth_equalityI) simp_all
  moreover have "zip [0..<length limbs] limbs = map (\<lambda>i. (i, limbs ! i)) [0..<length limbs]"
    by (rule nth_equalityI) simp_all
  ultimately show ?thesis
    using lsbv_const [of 64 "(!) limbs" "length limbs"]
    by (simp only: int_from_limbs_def map_map comp_def fst_conv snd_conv mult.commute)
qed

lemma int_to_limbs_slices: "map (Pair 64) (int_to_limbs v w) = slices (replicate ((w + 63) div 64) 64) v"
  by (rule nth_equalityI)
    (simp_all add: int_to_limbs_def slices_nth shr_def and_ones sum_list_replicate mult.commute min_def)

section \<open>Properties\<close>

text \<open>
  C23: on every validated union-free type the simulation boundary accepts exactly the
  members of the type, packs them within the type's width, and unpacking gives the value
  back with enum names replaced by their codes.
\<close>

theorem sim_value_roundtrip:
  assumes "sim_type t"
  shows "if sim_member v t
    then \<exists>r. pack_value t v = Inr r \<and> 0 \<le> r \<and> r < 2 ^ width t \<and> unpack_value t r = Inr (sim_canon t v)
    else \<exists>e. pack_value t v = Inl e"
  using simulation.enc_member [OF assms] simulation.enc_only [OF assms] by (metis sum.exhaust)

definition demo_record :: hwtype where
  "demo_record = StructType ''Rec'' [(''st'', EnumType demo_enum),
     (''v'', VecType 2 (TupleType [SIntType 3, BitType]))]"

definition demo_record_value :: rt_value where
  "demo_record_value = VDict [(''v'', VList [VTuple [VInt (- 4), VBool True], VTuple [VInt 3, VInt 0]]),
     (''st'', VStr ''halt'')]"

theorem sim_value_roundtrip_witness:
  "\<exists>r. pack_value demo_record demo_record_value = Inr r \<and> 0 \<le> r \<and> r < 2 ^ width demo_record \<and>
     unpack_value demo_record r = Inr (sim_canon demo_record demo_record_value)"
proof -
  have "sim_type demo_record" by (auto simp: sim_type_def demo_record_def demo_enum_def wf_enum_def)
  moreover have "sim_member demo_record_value demo_record"
    by (simp add: demo_record_def demo_record_value_def demo_enum_def scalar_fits_def insert_commute)
  ultimately show ?thesis using sim_value_roundtrip [of demo_record demo_record_value] by simp
qed

text \<open>
  C24: on every bit-packable type the simulation boundary and the compiler's own packing
  produce the same word, and reject the same values.
\<close>

theorem sim_pack_agrees:
  assumes "packable t"
  shows "pack_value t v = Inr r \<longleftrightarrow> pack_runtime t v = Inr r"
proof -
  have "pack_value t v = Inr r \<Longrightarrow> sim_member v t"
  proof -
    have "union_free t" using assms unfolding packable_def
      by (induction t rule: union_free.induct) auto
    then show "pack_value t v = Inr r \<Longrightarrow> sim_member v t"
      using simulation.enc_only assms by (auto simp: sim_type_def packable_def)
  qed
  then show ?thesis
    using assms pack_value_runtime packing.enc_member sim_member_packable
    by (metis packable_def sum.inject(2))
qed

theorem sim_pack_agrees_witness:
  "\<exists>r. pack_value packet_type packet_value = Inr r \<and> pack_runtime packet_type packet_value = Inr r"
proof -
  have "runtime_value_fits packet_value packet_type"
    by (simp add: packet_value_def packet_type_def scalar_fits_def insert_commute)
  then show ?thesis
    using sim_pack_agrees [OF packet_packable] packing.enc_member [OF packet_packable] by blast
qed

text \<open>
  the limbs of an unsigned integer of a given width are 64-bit words, as many as the
  width needs, and rebuild the integer.
\<close>

theorem limbs_roundtrip:
  assumes "0 \<le> v" "v < 2 ^ w"
  shows "int_from_limbs (int_to_limbs v w) = v \<and>
    length (int_to_limbs v w) = (w + 63) div 64 \<and> list_all (\<lambda>l. 0 \<le> l \<and> l < 2 ^ 64) (int_to_limbs v w)"
proof -
  have "w \<le> 64 * ((w + 63) div 64)" by linarith
  then have "v < 2 ^ (64 * ((w + 63) div 64))"
    using assms(2) by (meson less_le_trans one_le_numeral power_increasing)
  then have "int_from_limbs (int_to_limbs v w) = v"
    using assms(1) by (simp add: int_from_limbs_lsbv int_to_limbs_slices lsbv_slices sum_list_replicate mult.commute)
  then show ?thesis by (auto simp: int_to_limbs_def list_all_iff and_ones)
qed

theorem limbs_roundtrip_witness:
  "int_from_limbs (int_to_limbs (2 ^ 70 + 5) 80) = 2 ^ 70 + 5 \<and>
    length (int_to_limbs (2 ^ 70 + 5) 80) = (80 + 63) div 64 \<and>
    list_all (\<lambda>l. 0 \<le> l \<and> l < 2 ^ 64) (int_to_limbs (2 ^ 70 + 5) 80)"
  by (rule limbs_roundtrip) simp_all

section \<open>Values of other unions\<close>

definition wide_union :: "nat \<Rightarrow> union_variant list" where
  "wide_union w = [(''wide'', [(''x'', UIntType (Suc w))])]"

lemma pack_wide_union:
  "pack_tagged_union_runtime (wide_union w) ''wide'' [(''x'', VInt (ones (Suc w)))] = Inr (ones (Suc w))"
  by (simp add: wide_union_def pack_tagged_union_runtime_def union_variant_of_def union_tag_def variant_payload_width_def
      payload_width_def pack_runtime.simps require_bit_packable_def guardE_def pack_scalar_def dict_of_def shl_def
      le_ones_iff and_ones) (simp add: ones_def)

lemma pack_recorded_union:
  "pack_value (TaggedUnionType n vs d) (VUnion (TaggedUnionType m ws e) var fs) =
    (case pack_tagged_union_runtime ws var fs of Inl er \<Rightarrow> Inl (EscapedPacking er) | Inr r \<Rightarrow> Inr r)"
  by (subst pack_value.simps) (simp only: hwtype.case rt_value.case)

lemma wide_union_value:
  "mk_union_value m (wide_union w) e ''wide'' [(''x'', VInt (ones (Suc w)))] =
    Inr (VUnion (TaggedUnionType m (wide_union w) e) ''wide'' [(''x'', VInt (ones (Suc w)))])"
  by (simp add: wide_union_def mk_union_value_def union_variant_of_def scalar_fits_def) (simp add: ones_def)

text \<open>
  C31: the tagged-union branch of the boundary packs by the type recorded in the value and never
  compares it with the declared type.  So a value of any union type packs under a declared union
  type exactly as under its own, and for every declared union type there is a validly built value
  of another union type, not a member of the declared one, that is accepted and packs to an
  integer beyond the declared width.
\<close>

theorem foreign_union_exceeds_width:
  assumes "wf_type (TaggedUnionType n vs d)"
  shows "(\<forall>m ws e var fs. pack_value (TaggedUnionType n vs d) (VUnion (TaggedUnionType m ws e) var fs) =
      pack_value (TaggedUnionType m ws e) (VUnion (TaggedUnionType m ws e) var fs)) \<and>
    (\<exists>m ws e var fs v r. wf_type (TaggedUnionType m ws e) \<and> mk_union_value m ws e var fs = Inr v \<and>
      runtime_value_fits v (TaggedUnionType m ws e) \<and> \<not> runtime_value_fits v (TaggedUnionType n vs d) \<and>
      pack_value (TaggedUnionType n vs d) v = Inr r \<and> 2 ^ width (TaggedUnionType n vs d) \<le> r)"
proof
  show "\<forall>m ws e var fs. pack_value (TaggedUnionType n vs d) (VUnion (TaggedUnionType m ws e) var fs) =
      pack_value (TaggedUnionType m ws e) (VUnion (TaggedUnionType m ws e) var fs)"
    by (simp only: pack_recorded_union) simp
next
  let ?w = "width (TaggedUnionType n vs d)"
  let ?ws = "wide_union ?w" and ?fs = "[(''x'', VInt (ones (Suc ?w)))]"
  let ?v = "VUnion (TaggedUnionType ''Other'' ?ws ''pkg.Other'') ''wide'' ?fs"
  have "Suc ?w \<le> width (TaggedUnionType ''Other'' ?ws ''pkg.Other'')" by (simp add: wide_union_def)
  then have "TaggedUnionType ''Other'' ?ws ''pkg.Other'' \<noteq> TaggedUnionType n vs d" by fastforce
  then have "\<not> runtime_value_fits ?v (TaggedUnionType n vs d)" by simp
  moreover have "pack_value (TaggedUnionType n vs d) ?v = Inr (ones (Suc ?w))"
    by (simp only: pack_recorded_union pack_wide_union sum.case)
  moreover have "(2::int) ^ ?w \<le> ones (Suc ?w)" by (simp add: ones_def)
  moreover have "wf_type (TaggedUnionType ''Other'' ?ws ''pkg.Other'')" by (simp add: wide_union_def)
  moreover have "runtime_value_fits ?v (TaggedUnionType ''Other'' ?ws ''pkg.Other'')" by simp
  ultimately show "\<exists>m ws e var fs v r. wf_type (TaggedUnionType m ws e) \<and> mk_union_value m ws e var fs = Inr v \<and>
      runtime_value_fits v (TaggedUnionType m ws e) \<and> \<not> runtime_value_fits v (TaggedUnionType n vs d) \<and>
      pack_value (TaggedUnionType n vs d) v = Inr r \<and> 2 ^ width (TaggedUnionType n vs d) \<le> r"
    using wide_union_value by blast
qed

theorem foreign_union_exceeds_width_witness:
  "\<exists>m ws e var fs v r. wf_type (TaggedUnionType m ws e) \<and> mk_union_value m ws e var fs = Inr v \<and>
      runtime_value_fits v (TaggedUnionType m ws e) \<and> \<not> runtime_value_fits v (TaggedUnionType ''A'' [(''a'', [])] ''pkg.A'') \<and>
      pack_value (TaggedUnionType ''A'' [(''a'', [])] ''pkg.A'') v = Inr r \<and>
      2 ^ width (TaggedUnionType ''A'' [(''a'', [])] ''pkg.A'') \<le> r"
  by (rule conjunct2 [OF foreign_union_exceeds_width]) simp

end
