(* ===== verification/Numeric.thy ===== *)
theory Numeric
  imports Runtime_Values
begin

text \<open>
  Exact scalar operator typing, \<^verbatim>\<open>zlang/ir/numeric.py\<close>.  A rule takes the two operand
  types and returns the common operand type and the result type, or the structured
  reason it does not exist.  The lemmas show what "exact" means: the mathematical sum,
  difference or product of two values of the operand types is a value of the result type,
  so no bit is lost, and the result of a rule is again a type the constructors accept.
\<close>

datatype family = FBit | FUInt | FSInt | FBits | FFixed | FUFixed | FEnum | FStruct | FTuple
  | FUnion | FVec

text \<open>\<^verbatim>\<open>type(t)\<close>, the Python class of a hardware type.\<close>

fun family_of :: "hwtype \<Rightarrow> family" where
  "family_of BitType = FBit"
| "family_of (UIntType _) = FUInt"
| "family_of (SIntType _) = FSInt"
| "family_of (BitsType _) = FBits"
| "family_of (FixedType _ _ _) = FFixed"
| "family_of (UFixedType _ _ _) = FUFixed"
| "family_of (EnumType _) = FEnum"
| "family_of (StructType _ _) = FStruct"
| "family_of (TupleType _) = FTuple"
| "family_of (TaggedUnionType _ _ _) = FUnion"
| "family_of (VecType _ _) = FVec"

datatype reason = FamilyMismatch | FractionMismatch | NominalEnumMismatch | OrderedEnum
  | OrderedBit | OrderedBits | Unsupported

record type_rule =
  operand_type :: hwtype
  result_type :: hwtype

definition rule_of :: "hwtype \<Rightarrow> hwtype \<Rightarrow> reason + type_rule" where
  "rule_of opd res = Inr \<lparr>operand_type = opd, result_type = res\<rparr>"

definition matching_family :: "hwtype \<Rightarrow> hwtype \<Rightarrow> reason + unit" where
  "matching_family l r = guardE (family_of l = family_of r) FamilyMismatch"

text \<open>\<^verbatim>\<open>t.fraction\<close> of a fixed-point type.\<close>

fun fraction :: "hwtype \<Rightarrow> nat" where
  "fraction (FixedType w f p) = f"
| "fraction (UFixedType w f p) = f"
| "fraction _ = 0"

text \<open>The chains of \<^verbatim>\<open>isinstance(left, ...)\<close> tests, after the family check.\<close>

definition addition_cases :: "hwtype \<Rightarrow> hwtype \<Rightarrow> reason + hwtype" where
  "addition_cases l r = (case l of
       UIntType a \<Rightarrow> Inr (UIntType (max a (width r) + 1))
     | SIntType a \<Rightarrow> Inr (SIntType (max a (width r) + 1))
     | FixedType a f p \<Rightarrow> if f \<noteq> fraction r then Inl FractionMismatch
         else Inr (FixedType (max a (width r) + 1) f WrapPolicy)
     | UFixedType a f p \<Rightarrow> if f \<noteq> fraction r then Inl FractionMismatch
         else Inr (UFixedType (max a (width r) + 1) f WrapPolicy)
     | _ \<Rightarrow> Inl Unsupported)"

definition addition_rule :: "hwtype \<Rightarrow> hwtype \<Rightarrow> reason + type_rule" where
  "addition_rule l r = bindE (matching_family l r) (\<lambda>_. bindE (addition_cases l r) (\<lambda>t. rule_of t t))"

definition subtraction_cases :: "hwtype \<Rightarrow> hwtype \<Rightarrow> reason + hwtype" where
  "subtraction_cases l r = (case l of
       UIntType a \<Rightarrow> Inr (UIntType (max a (width r)))
     | SIntType a \<Rightarrow> Inr (SIntType (max a (width r) + 1))
     | FixedType a f p \<Rightarrow> if f \<noteq> fraction r then Inl FractionMismatch
         else Inr (FixedType (max a (width r) + 1) f WrapPolicy)
     | UFixedType a f p \<Rightarrow> if f \<noteq> fraction r then Inl FractionMismatch
         else Inr (UFixedType (max a (width r)) f WrapPolicy)
     | _ \<Rightarrow> Inl Unsupported)"

definition subtraction_rule :: "hwtype \<Rightarrow> hwtype \<Rightarrow> reason + type_rule" where
  "subtraction_rule l r = bindE (matching_family l r) (\<lambda>_. bindE (subtraction_cases l r) (\<lambda>t. rule_of t t))"

definition multiplication_cases :: "hwtype \<Rightarrow> hwtype \<Rightarrow> reason + hwtype" where
  "multiplication_cases l r = (case l of
       UIntType a \<Rightarrow> Inr (UIntType (a + width r))
     | SIntType a \<Rightarrow> Inr (SIntType (a + width r))
     | FixedType a f p \<Rightarrow> Inr (FixedType (a + width r) (f + fraction r) WrapPolicy)
     | UFixedType a f p \<Rightarrow> Inr (UFixedType (a + width r) (f + fraction r) WrapPolicy)
     | _ \<Rightarrow> Inl Unsupported)"

definition multiplication_rule :: "hwtype \<Rightarrow> hwtype \<Rightarrow> reason + type_rule" where
  "multiplication_rule l r =
     bindE (matching_family l r) (\<lambda>_. bindE (multiplication_cases l r) (\<lambda>t. rule_of t t))"

definition bitwise_cases :: "hwtype \<Rightarrow> hwtype \<Rightarrow> reason + hwtype" where
  "bitwise_cases l r = (case l of
       BitType \<Rightarrow> Inr BitType
     | UIntType a \<Rightarrow> Inr (UIntType (max a (width r)))
     | SIntType a \<Rightarrow> Inr (SIntType (max a (width r)))
     | BitsType a \<Rightarrow> Inr (BitsType (max a (width r)))
     | _ \<Rightarrow> Inl Unsupported)"

definition bitwise_rule :: "hwtype \<Rightarrow> hwtype \<Rightarrow> reason + type_rule" where
  "bitwise_rule l r = bindE (matching_family l r) (\<lambda>_. bindE (bitwise_cases l r) (\<lambda>t. rule_of t t))"

definition comparison_cases :: "hwtype \<Rightarrow> hwtype \<Rightarrow> bool \<Rightarrow> reason + hwtype" where
  "comparison_cases l r eq = (case l of
       EnumType e \<Rightarrow> if l \<noteq> r then Inl NominalEnumMismatch
         else if \<not> eq then Inl OrderedEnum else Inr l
     | BitType \<Rightarrow> if \<not> eq then Inl OrderedBit else Inr BitType
     | UIntType a \<Rightarrow> Inr (UIntType (max a (width r)))
     | SIntType a \<Rightarrow> Inr (SIntType (max a (width r)))
     | FixedType a f p \<Rightarrow> if f \<noteq> fraction r then Inl FractionMismatch
         else Inr (FixedType (max a (width r)) f WrapPolicy)
     | UFixedType a f p \<Rightarrow> if f \<noteq> fraction r then Inl FractionMismatch
         else Inr (UFixedType (max a (width r)) f WrapPolicy)
     | BitsType a \<Rightarrow> if \<not> eq then Inl OrderedBits else Inr (BitsType (max a (width r)))
     | _ \<Rightarrow> Inl Unsupported)"

definition comparison_rule :: "hwtype \<Rightarrow> hwtype \<Rightarrow> bool \<Rightarrow> reason + type_rule" where
  "comparison_rule l r eq =
     bindE (matching_family l r) (\<lambda>_. bindE (comparison_cases l r eq) (\<lambda>t. rule_of t BitType))"

lemmas rule_defs = addition_rule_def subtraction_rule_def multiplication_rule_def bitwise_rule_def
  comparison_rule_def rule_of_def matching_family_def

section \<open>Widening keeps a value\<close>

named_theorems fits_intros \<open>introduction rules for membership in a range of bits\<close>

text \<open>A numeric type is a range of integers: every type below is between these bounds.\<close>

fun range_lo :: "hwtype \<Rightarrow> int" where
  "range_lo t = (if is_signed t then - (2 ^ (width t - 1)) else 0)"

fun range_hi :: "hwtype \<Rightarrow> int" where
  "range_hi t = (if is_signed t then 2 ^ (width t - 1) - 1 else 2 ^ width t - 1)"

lemma int_fits_range: "flat_scalar t \<Longrightarrow> int_fits v t \<longleftrightarrow> range_lo t \<le> v \<and> v \<le> range_hi t"
  by (cases t) auto

text \<open>Membership in a range of \<open>n\<close> bits, signed and unsigned.\<close>

definition sfits :: "int \<Rightarrow> nat \<Rightarrow> bool" where
  "sfits v w \<longleftrightarrow> - (2 ^ (w - 1)) \<le> v \<and> v < 2 ^ (w - 1)"

definition ufits :: "int \<Rightarrow> nat \<Rightarrow> bool" where
  "ufits v w \<longleftrightarrow> 0 \<le> v \<and> v < 2 ^ w"

lemma int_fits_sfits:
  "int_fits v (SIntType w) \<longleftrightarrow> sfits v w" "int_fits v (FixedType w f p) \<longleftrightarrow> sfits v w"
  "int_fits v (UIntType w) \<longleftrightarrow> ufits v w" "int_fits v (BitsType w) \<longleftrightarrow> ufits v w"
  "int_fits v (UFixedType w f p) \<longleftrightarrow> ufits v w"
  by (simp_all add: sfits_def ufits_def)

lemma sfits_mono: "sfits v a \<Longrightarrow> a \<le> b \<Longrightarrow> sfits v b"
proof -
  assume a: "sfits v a" "a \<le> b"
  then have "(2::int) ^ (a - 1) \<le> 2 ^ (b - 1)" by (intro power_increasing) auto
  then show "sfits v b" using a(1) unfolding sfits_def by linarith
qed

lemma ufits_mono: "ufits v a \<Longrightarrow> a \<le> b \<Longrightarrow> ufits v b"
proof -
  assume a: "ufits v a" "a \<le> b"
  then have "(2::int) ^ a \<le> 2 ^ b" by (intro power_increasing) auto
  then show "ufits v b" using a(1) unfolding ufits_def by linarith
qed

lemma sfits_Suc: "sfits v (Suc w) \<longleftrightarrow> - (2 ^ w) \<le> v \<and> v < 2 ^ w"
  by (simp add: sfits_def)

lemma sfits_sum:
  assumes "0 < w" "sfits x w" "sfits y w"
  shows "sfits (x + y) (Suc w)" "sfits (x - y) (Suc w)"
  using assms by (cases w; auto simp: sfits_def)+

lemma ufits_sum: "ufits x w \<Longrightarrow> ufits y w \<Longrightarrow> ufits (x + y) (Suc w)"
  by (auto simp: ufits_def)

lemma ufits_product: "ufits x a \<Longrightarrow> ufits y b \<Longrightarrow> ufits (x * y) (a + b)"
  by (auto simp: ufits_def power_add intro: mult_strict_mono)

lemma sfits_product:
  assumes "0 < a" "0 < b" "sfits x a" "sfits y b"
  shows "sfits (x * y) (a + b)"
proof -
  have "\<bar>x\<bar> \<le> 2 ^ (a - 1)" "\<bar>y\<bar> \<le> 2 ^ (b - 1)" using assms by (auto simp: sfits_def)
  then have "\<bar>x * y\<bar> \<le> 2 ^ (a - 1) * 2 ^ (b - 1)"
    by (simp add: abs_mult mult_mono)
  also have "\<dots> = 2 ^ (a - 1 + (b - 1))" by (simp add: power_add)
  also have "\<dots> < 2 ^ (a + b - 1)" using assms(1,2) by (intro power_strict_increasing) auto
  finally show ?thesis by (auto simp: sfits_def)
qed

lemma fits_widened [fits_intros]:
  "sfits x a \<Longrightarrow> sfits x (max a b)" "sfits y b \<Longrightarrow> sfits y (max a b)"
  "sfits x a \<Longrightarrow> sfits x (Suc (max a b))" "sfits y b \<Longrightarrow> sfits y (Suc (max a b))"
  "ufits x a \<Longrightarrow> ufits x (max a b)" "ufits y b \<Longrightarrow> ufits y (max a b)"
  "ufits x a \<Longrightarrow> ufits x (Suc (max a b))" "ufits y b \<Longrightarrow> ufits y (Suc (max a b))"
  by (auto elim!: sfits_mono ufits_mono)

lemma fits_combined [fits_intros]:
  "0 < a \<Longrightarrow> sfits x a \<Longrightarrow> sfits y b \<Longrightarrow> sfits (x + y) (Suc (max a b))"
  "0 < a \<Longrightarrow> sfits x a \<Longrightarrow> sfits y b \<Longrightarrow> sfits (x - y) (Suc (max a b))"
  "ufits x a \<Longrightarrow> ufits y b \<Longrightarrow> ufits (x + y) (Suc (max a b))"
  by (auto intro!: sfits_sum ufits_sum elim!: sfits_mono ufits_mono)

lemma ufits_difference [fits_intros]:
  assumes "ufits x a" "ufits y b"
  shows "y \<le> x \<Longrightarrow> ufits (x - y) (max a b)"
    and "\<not> y \<le> x \<Longrightarrow> ufits (x - y + 2 ^ max a b) (max a b)"
  using ufits_mono [OF assms(1), of "max a b"] ufits_mono [OF assms(2), of "max a b"]
  by (auto simp: ufits_def)

declare ufits_product [fits_intros] sfits_product [fits_intros]

lemmas fits_fixed [fits_intros] = fits_combined(1,2) [OF order.strict_trans1 [OF le0]]
  sfits_product [OF order.strict_trans1 [OF le0] order.strict_trans1 [OF le0]]

section \<open>Exactness\<close>

text \<open>Two types of one family are two types of one constructor.\<close>

lemma family_cases:
  assumes "family_of l = family_of r"
  obtains (bit) "l = BitType" "r = BitType"
  | (uint) a b where "l = UIntType a" "r = UIntType b"
  | (sint) a b where "l = SIntType a" "r = SIntType b"
  | (bits) a b where "l = BitsType a" "r = BitsType b"
  | (fixed) a f p b g q where "l = FixedType a f p" "r = FixedType b g q"
  | (ufixed) a f p b g q where "l = UFixedType a f p" "r = UFixedType b g q"
  | (enum) a b where "l = EnumType a" "r = EnumType b"
  | (aggregate) "family_of l \<in> {FStruct, FTuple, FUnion, FVec}"
  using assms by (cases l; cases r) auto

lemma rule_Inr:
  "addition_rule l r = Inr ru \<longleftrightarrow> addition_cases l r = Inr (result_type ru) \<and>
     family_of l = family_of r \<and> operand_type ru = result_type ru"
  "subtraction_rule l r = Inr ru \<longleftrightarrow> subtraction_cases l r = Inr (result_type ru) \<and>
     family_of l = family_of r \<and> operand_type ru = result_type ru"
  "multiplication_rule l r = Inr ru \<longleftrightarrow> multiplication_cases l r = Inr (result_type ru) \<and>
     family_of l = family_of r \<and> operand_type ru = result_type ru"
  "bitwise_rule l r = Inr ru \<longleftrightarrow> bitwise_cases l r = Inr (result_type ru) \<and>
     family_of l = family_of r \<and> operand_type ru = result_type ru"
  "comparison_rule l r eq = Inr ru \<longleftrightarrow> comparison_cases l r eq = Inr (operand_type ru) \<and>
     family_of l = family_of r \<and> result_type ru = BitType"
  by (cases ru; force simp: rule_defs)+

lemma aggregate_no_rule:
  "family_of l \<in> {FStruct, FTuple, FUnion, FVec} \<Longrightarrow> addition_cases l r = Inl Unsupported"
  "family_of l \<in> {FStruct, FTuple, FUnion, FVec} \<Longrightarrow> subtraction_cases l r = Inl Unsupported"
  "family_of l \<in> {FStruct, FTuple, FUnion, FVec} \<Longrightarrow> multiplication_cases l r = Inl Unsupported"
  "family_of l \<in> {FStruct, FTuple, FUnion, FVec} \<Longrightarrow> bitwise_cases l r = Inl Unsupported"
  "family_of l \<in> {FStruct, FTuple, FUnion, FVec} \<Longrightarrow> comparison_cases l r eq = Inl Unsupported"
  by (cases l; simp add: addition_cases_def subtraction_cases_def multiplication_cases_def
      bitwise_cases_def comparison_cases_def)+

lemmas case_defs = addition_cases_def subtraction_cases_def multiplication_cases_def
  bitwise_cases_def comparison_cases_def

lemma addition_cases_exact:
  assumes fam: "family_of l = family_of r" and "addition_cases l r = Inr t" "wf_type l" "wf_type r"
    and "int_fits x l" "int_fits y r"
  shows "int_fits (x + y) t \<and> int_fits x t \<and> int_fits y t"
  using fam
proof (cases rule: family_cases)
  case aggregate
  with assms show ?thesis by (simp add: aggregate_no_rule)
qed (use assms in \<open>auto simp: case_defs int_fits_sfits simp del: int_fits.simps split: if_splits
    intro: fits_intros\<close>)

lemma subtraction_cases_exact:
  assumes fam: "family_of l = family_of r" and "subtraction_cases l r = Inr t" "wf_type l" "wf_type r"
    and "int_fits x l" "int_fits y r"
  shows "if is_signed l \<or> y \<le> x then int_fits (x - y) t else int_fits (x - y + 2 ^ width t) t"
  using fam
proof (cases rule: family_cases)
  case aggregate
  with assms show ?thesis by (simp add: aggregate_no_rule)
qed (use assms in \<open>auto simp: case_defs int_fits_sfits simp del: int_fits.simps split: if_splits
    intro: fits_intros\<close>)

lemma multiplication_cases_exact:
  assumes fam: "family_of l = family_of r" and "multiplication_cases l r = Inr t" "wf_type l" "wf_type r"
    and "int_fits x l" "int_fits y r"
  shows "int_fits (x * y) t"
  using fam
proof (cases rule: family_cases)
  case aggregate
  with assms show ?thesis by (simp add: aggregate_no_rule)
qed (use assms in \<open>auto simp: case_defs int_fits_sfits simp del: int_fits.simps split: if_splits
    intro: fits_intros\<close>)

lemma multiplication_cases_format:
  assumes "family_of l = family_of r" and "multiplication_cases l r = Inr t"
  shows "width t = width l + width r \<and> fraction t = fraction l + fraction r"
  using assms(1)
proof (cases rule: family_cases)
  case aggregate
  with assms show ?thesis by (simp add: aggregate_no_rule)
qed (use assms in \<open>auto simp: case_defs\<close>)

lemma rule_cases_wf:
  assumes "family_of l = family_of r" "wf_type l" "wf_type r"
    and "addition_cases l r = Inr t \<or> subtraction_cases l r = Inr t \<or>
      multiplication_cases l r = Inr t \<or> bitwise_cases l r = Inr t \<or> comparison_cases l r eq = Inr t"
  shows "wf_type t"
  using assms(1)
proof (cases rule: family_cases)
  case aggregate
  with assms show ?thesis by (simp add: aggregate_no_rule)
qed (use assms in \<open>auto simp: case_defs split: if_splits\<close>)

text \<open>
  C7: the addition rule is exact.  The sum of any values of the two operand types is a
  value of the result type, and each operand is a value of the common operand type.
\<close>

theorem addition_exact:
  assumes "addition_rule l r = Inr ru" and "wf_type l" and "wf_type r"
    and "int_fits x l" and "int_fits y r"
  shows "int_fits (x + y) (result_type ru) \<and> int_fits x (operand_type ru) \<and> int_fits y (operand_type ru)"
  using assms addition_cases_exact by (auto simp: rule_Inr)

theorem addition_exact_witness:
  "int_fits (100 + - 7) (result_type \<lparr>operand_type = SIntType 9, result_type = SIntType 9\<rparr>) \<and>
    int_fits 100 (operand_type \<lparr>operand_type = SIntType 9, result_type = SIntType 9\<rparr>) \<and>
    int_fits (- 7) (operand_type \<lparr>operand_type = SIntType 9, result_type = SIntType 9\<rparr>)"
  by (rule addition_exact [where l = "SIntType 8" and r = "SIntType 4"])
    (simp_all add: rule_defs case_defs guardE_def)

text \<open>
  subtraction is exact on the signed families.  On the unsigned ones it keeps the operand
  width: it is exact when the difference is not negative, and otherwise the difference is
  off by exactly one wrap-around of the result width.
\<close>

theorem subtraction_exact_or_wraps:
  assumes "subtraction_rule l r = Inr ru" and "wf_type l" and "wf_type r"
    and "int_fits x l" and "int_fits y r"
  shows "if is_signed l \<or> y \<le> x then int_fits (x - y) (result_type ru)
     else int_fits (x - y + 2 ^ width (result_type ru)) (result_type ru)"
  using assms by (intro subtraction_cases_exact [of l r]) (simp_all add: rule_Inr)

theorem subtraction_exact_or_wraps_witness:
  "if is_signed (UIntType 4) \<or> (5::int) \<le> 3
     then int_fits (3 - 5) (result_type \<lparr>operand_type = UIntType 6, result_type = UIntType 6\<rparr>)
     else int_fits (3 - 5 + 2 ^ width (result_type \<lparr>operand_type = UIntType 6, result_type = UIntType 6\<rparr>))
       (result_type \<lparr>operand_type = UIntType 6, result_type = UIntType 6\<rparr>)"
  by (rule subtraction_exact_or_wraps [where r = "UIntType 6"])
    (simp_all add: rule_defs case_defs guardE_def)

text \<open>
  C8: multiplication is full precision: the product of any two values of the operand types
  is a value of the result type, whose fractional width is the sum of the operands'.
\<close>

theorem multiplication_exact:
  assumes "multiplication_rule l r = Inr ru" and "wf_type l" and "wf_type r"
    and "int_fits x l" and "int_fits y r"
  shows "int_fits (x * y) (result_type ru) \<and> width (result_type ru) = width l + width r \<and>
    fraction (result_type ru) = fraction l + fraction r"
proof -
  from assms(1) have c: "family_of l = family_of r" "multiplication_cases l r = Inr (result_type ru)"
    by (simp_all add: rule_Inr)
  with multiplication_cases_exact [OF c assms(2-5)] multiplication_cases_format
  show ?thesis by blast
qed

theorem multiplication_exact_witness:
  "int_fits (- 8 * 7) (result_type \<lparr>operand_type = FixedType 9 3 WrapPolicy,
       result_type = FixedType 9 3 WrapPolicy\<rparr>) \<and>
   width (result_type \<lparr>operand_type = FixedType 9 3 WrapPolicy,
       result_type = FixedType 9 3 WrapPolicy\<rparr>) =
     width (FixedType 4 2 SaturatePolicy) + width (FixedType 5 1 WrapPolicy) \<and>
   fraction (result_type \<lparr>operand_type = FixedType 9 3 WrapPolicy,
       result_type = FixedType 9 3 WrapPolicy\<rparr>) =
     fraction (FixedType 4 2 SaturatePolicy) + fraction (FixedType 5 1 WrapPolicy)"
  by (rule multiplication_exact) (simp_all add: rule_defs case_defs guardE_def)

text \<open>
  The numeric rules are closed: applied to validated types they only name types the
  constructors accept, so building the result type never raises.
\<close>

theorem rules_closed:
  assumes "wf_type l" and "wf_type r"
    and "addition_rule l r = Inr ru \<or> subtraction_rule l r = Inr ru \<or> multiplication_rule l r = Inr ru \<or>
      bitwise_rule l r = Inr ru \<or> comparison_rule l r eq = Inr ru"
  shows "built (operand_type ru) \<and> built (result_type ru)"
proof -
  have fam: "family_of l = family_of r" using assms(3) by (auto simp: rule_Inr)
  note wf = rule_cases_wf [OF fam assms(1,2), of _ eq]
  have "wf_type (operand_type ru) \<and> wf_type (result_type ru)"
    using assms(3) wf [of "result_type ru"] wf [of "operand_type ru"] by (auto simp: rule_Inr)
  then show ?thesis using wf_built by blast
qed

theorem rules_closed_witness:
  "built (operand_type \<lparr>operand_type = BitsType 8, result_type = BitType\<rparr>) \<and>
   built (result_type \<lparr>operand_type = BitsType 8, result_type = BitType\<rparr>)"
  by (rule rules_closed [where l = "BitsType 8" and r = "BitsType 3" and eq = True])
    (simp_all add: rule_defs case_defs guardE_def)

end
