(* ===== verification/Fixed_Point.thy ===== *)
theory Fixed_Point
  imports Zl_Prelude
begin

text \<open>
  Exact fixed-point arithmetic, \<^verbatim>\<open>zlang/fixed_point.py\<close>: rounding a rational under a named
  policy, applying an overflow policy to a raw integer, and quantising a rational.  A policy
  is the string the code compares; an unknown name is the ValueError.  Each rounding mode is
  characterised by what it promises of the rational, each overflow mode by its range.
\<close>

section \<open>Definitions\<close>

datatype fixed_error = DenominatorNotPositive | UnknownRounding string | UnknownOverflow string

definition round_magnitude :: "bool \<Rightarrow> int \<Rightarrow> int \<Rightarrow> int \<Rightarrow> string \<Rightarrow> fixed_error + int" where
  "round_magnitude negative magnitude remainder denominator name =
    (if name = ''toward_zero'' then Inr magnitude
     else if name = ''floor'' then Inr (magnitude + (if negative \<and> remainder \<noteq> 0 then 1 else 0))
     else if name = ''away_zero'' then Inr (magnitude + (if remainder \<noteq> 0 then 1 else 0))
     else if name = ''nearest_even'' then
       (let doubled = remainder * 2 in
        Inr (magnitude + (if doubled > denominator \<or> doubled = denominator \<and> magnitude AND 1 \<noteq> 0 then 1 else 0)))
     else Inl (UnknownRounding name))"

definition round_ratio :: "int \<Rightarrow> int \<Rightarrow> string \<Rightarrow> fixed_error + int" where
  "round_ratio numerator denominator name =
    (if denominator \<le> 0 then Inl DenominatorNotPositive
     else let magnitude = \<bar>numerator\<bar> div denominator; remainder = \<bar>numerator\<bar> mod denominator;
              negative = numerator < 0
       in bindE (round_magnitude negative magnitude remainder denominator name)
            (\<lambda>rounded. Inr (if negative then - rounded else rounded)))"

definition range_min :: "bool \<Rightarrow> nat \<Rightarrow> int" where
  "range_min sg w = (if sg then - (2 ^ (w - 1)) else 0)"

definition range_max :: "bool \<Rightarrow> nat \<Rightarrow> int" where
  "range_max sg w = (if sg then 2 ^ (w - 1) - 1 else ones w)"

definition apply_overflow :: "int \<Rightarrow> nat \<Rightarrow> bool \<Rightarrow> string \<Rightarrow> fixed_error + int" where
  "apply_overflow v w sg name =
    (if name = ''saturate'' then Inr (min (max v (range_min sg w)) (range_max sg w))
     else if name \<noteq> ''wrap'' then Inl (UnknownOverflow name)
     else let raw = v AND ones w
       in Inr (if sg \<and> raw \<ge> 2 ^ (w - 1) then raw - 2 ^ w else raw))"

definition quantize_rational ::
    "int \<Rightarrow> int \<Rightarrow> nat \<Rightarrow> nat \<Rightarrow> bool \<Rightarrow> string \<Rightarrow> string \<Rightarrow> fixed_error + int" where
  "quantize_rational numerator denominator fraction w sg rounding overflow =
     bindE (round_ratio (shl numerator fraction) denominator rounding)
       (\<lambda>rounded. apply_overflow rounded w sg overflow)"

definition rounding_modes :: "string list" where
  "rounding_modes = [''toward_zero'', ''floor'', ''away_zero'', ''nearest_even'']"

definition overflow_modes :: "string list" where
  "overflow_modes = [''saturate'', ''wrap'']"

section \<open>Rounding\<close>

text \<open>What a mode promises of the integer \<open>r\<close> that stands for \<open>n / d\<close>.\<close>

definition rounds_to :: "string \<Rightarrow> int \<Rightarrow> int \<Rightarrow> int \<Rightarrow> bool" where
  "rounds_to mode n d r \<longleftrightarrow>
    (if mode = ''toward_zero'' then \<bar>r * d\<bar> \<le> \<bar>n\<bar> \<and> \<bar>n - r * d\<bar> < d \<and> 0 \<le> r * n
     else if mode = ''floor'' then r * d \<le> n \<and> n < (r + 1) * d
     else if mode = ''away_zero'' then \<bar>n\<bar> \<le> \<bar>r * d\<bar> \<and> \<bar>n - r * d\<bar> < d \<and> 0 \<le> r * n
     else 2 * \<bar>n - r * d\<bar> \<le> d \<and> (2 * \<bar>n - r * d\<bar> = d \<longrightarrow> even r))"

lemma and_one_odd: "(x :: int) AND 1 \<noteq> 0 \<longleftrightarrow> odd x"
  by (simp add: and_one_eq odd_iff_mod_2_eq_one)

lemma round_magnitude_exact:
  assumes "0 < d" "0 \<le> a" "mode \<in> set rounding_modes"
  shows "\<exists>q. round_magnitude neg (a div d) (a mod d) d mode = Inr q \<and> 0 \<le> q \<and>
    rounds_to mode (if neg then - a else a) d (if neg then - q else q)"
proof -
  define q r where "q = a div d" and "r = a mod d"
  have a: "a = q * d + r" "0 \<le> r" "r < d" "0 \<le> q"
    using assms by (simp_all add: q_def r_def pos_imp_zdiv_nonneg_iff)
  have qd: "0 \<le> q * d" using a assms by simp
  have sgn: "q * (- (q * d) - r) \<le> 0" "0 \<le> q * (q * d + r)"
    using mult_nonneg_nonpos [of q "- (q * d) - r"] mult_nonneg_nonneg [of q "q * d + r"] a qd by linarith+
  consider "mode = ''toward_zero''" | "mode = ''floor''" | "mode = ''away_zero''" | "mode = ''nearest_even''"
    using assms(3) by (auto simp: rounding_modes_def)
  then show ?thesis
    unfolding q_def [symmetric] r_def [symmetric]
  proof cases
    case 1
    then show "\<exists>x. round_magnitude neg q r d mode = Inr x \<and> 0 \<le> x \<and>
        rounds_to mode (if neg then - a else a) d (if neg then - x else x)"
      using a qd sgn by (auto simp: round_magnitude_def rounds_to_def)
  next
    case 2
    then show "\<exists>x. round_magnitude neg q r d mode = Inr x \<and> 0 \<le> x \<and>
        rounds_to mode (if neg then - a else a) d (if neg then - x else x)"
      using a qd by (auto simp: round_magnitude_def rounds_to_def algebra_simps)
  next
    case 3
    define x where "x = q + (if r \<noteq> 0 then 1 else 0)"
    have x: "0 \<le> x" "a \<le> x * d" "x * d - a < d" "0 \<le> x * a"
      using a qd by (auto simp: x_def algebra_simps)
    have "round_magnitude neg q r d mode = Inr x" using 3 by (simp add: round_magnitude_def x_def)
    moreover have "rounds_to mode (if neg then - a else a) d (if neg then - x else x)"
      using x assms(2) 3 by (auto simp: rounds_to_def)
    ultimately show "\<exists>x. round_magnitude neg q r d mode = Inr x \<and> 0 \<le> x \<and>
        rounds_to mode (if neg then - a else a) d (if neg then - x else x)"
      using x(1) by blast
  next
    case 4
    then show "\<exists>x. round_magnitude neg q r d mode = Inr x \<and> 0 \<le> x \<and>
        rounds_to mode (if neg then - a else a) d (if neg then - x else x)"
      using a qd by (auto simp: round_magnitude_def rounds_to_def and_one_odd algebra_simps Let_def)
  qed
qed

lemma round_ratio_ok:
  assumes "0 < d" "mode \<in> set rounding_modes"
  shows "\<exists>r. round_ratio n d mode = Inr r \<and> rounds_to mode n d r"
  using round_magnitude_exact [OF assms(1) abs_ge_zero assms(2), of "n < 0" n] assms(1)
  by (auto simp: round_ratio_def Let_def split: if_splits)

text \<open>
  C25: for a positive denominator every rounding mode returns the integer its name promises
  (truncation, floor, rounding away from zero, nearest with ties to even); a denominator
  that is not positive and an unknown mode are rejected.
\<close>

theorem round_ratio_spec:
  "case round_ratio n d mode of
     Inr r \<Rightarrow> 0 < d \<and> mode \<in> set rounding_modes \<and> rounds_to mode n d r
   | Inl DenominatorNotPositive \<Rightarrow> d \<le> 0
   | Inl (UnknownRounding m) \<Rightarrow> m = mode \<and> mode \<notin> set rounding_modes
   | Inl (UnknownOverflow m) \<Rightarrow> False"
proof (cases "0 < d \<and> mode \<in> set rounding_modes")
  case True
  then show ?thesis using round_ratio_ok [of d mode n] by auto
next
  case False
  then show ?thesis
    by (auto simp: round_ratio_def round_magnitude_def rounding_modes_def Let_def)
qed

section \<open>Overflow\<close>

lemma range_nonempty: "range_min sg w \<le> range_max sg w"
  by (simp add: range_min_def range_max_def)

lemma apply_wrap:
  assumes "0 < w"
  shows "\<exists>r. apply_overflow v w sg ''wrap'' = Inr r \<and> range_min sg w \<le> r \<and> r \<le> range_max sg w \<and>
    r mod 2 ^ w = v mod 2 ^ w"
proof -
  obtain k where w: "w = Suc k" using assms by (cases w) auto
  define raw where "raw = v mod 2 ^ w"
  have raw: "0 \<le> raw" "raw < 2 * 2 ^ k" using w by (simp_all add: raw_def flip: power_Suc)
  define r where "r = (if sg \<and> raw \<ge> 2 ^ (w - 1) then raw - 2 ^ w else raw)"
  have "apply_overflow v w sg ''wrap'' = Inr r"
    by (simp add: apply_overflow_def and_ones raw_def r_def Let_def)
  moreover have "range_min sg w \<le> r" "r \<le> range_max sg w"
    using raw by (auto simp: r_def range_min_def range_max_def ones_def w)
  moreover have "r mod 2 ^ w = v mod 2 ^ w" by (simp add: r_def raw_def)
  ultimately show ?thesis by blast
qed

lemma overflow_in_range:
  assumes "0 < w" "policy \<in> set overflow_modes"
  shows "\<exists>r. apply_overflow v w sg policy = Inr r \<and> range_min sg w \<le> r \<and> r \<le> range_max sg w \<and>
    (if policy = ''wrap'' then r mod 2 ^ w = v mod 2 ^ w
     else \<forall>x. range_min sg w \<le> x \<and> x \<le> range_max sg w \<longrightarrow> \<bar>v - r\<bar> \<le> \<bar>v - x\<bar>) \<and>
    (range_min sg w \<le> v \<and> v \<le> range_max sg w \<longrightarrow> r = v)"
proof (cases "policy = ''wrap''")
  case True
  obtain r where r: "apply_overflow v w sg policy = Inr r" "range_min sg w \<le> r" "r \<le> range_max sg w"
    "r mod 2 ^ w = v mod 2 ^ w" using apply_wrap [OF assms(1)] True by blast
  moreover have "r = v" if v: "range_min sg w \<le> v" "v \<le> range_max sg w"
  proof -
    obtain k where w: "w = Suc k" using assms(1) by (cases w) auto
    have span: "range_max sg w - range_min sg w < 2 ^ w"
      by (auto simp: range_min_def range_max_def ones_def w)
    have "2 ^ w dvd r - v" using r(4) by (simp add: mod_eq_dvd_iff)
    moreover have "\<bar>r - v\<bar> < 2 ^ w" using r v span by linarith
    ultimately show ?thesis using zdvd_not_zless by (metis abs_ge_zero dvd_abs_iff eq_iff_diff_eq_0 abs_eq_0 le_less)
  qed
  ultimately show ?thesis using True by auto
next
  case False
  then have "policy = ''saturate''" using assms(2) by (auto simp: overflow_modes_def)
  then show ?thesis using range_nonempty [of sg w] by (auto simp: apply_overflow_def)
qed

text \<open>
  C27: both overflow policies return a value of the target range.  Wrapping keeps the value
  modulo \<open>2 ^ w\<close>, saturation returns the value of the range that is nearest to the
  original; both leave a value of the range unchanged.
\<close>

theorem apply_overflow_spec:
  assumes "0 < w" "policy \<in> set overflow_modes"
  shows "\<exists>r. apply_overflow v w sg policy = Inr r \<and> range_min sg w \<le> r \<and> r \<le> range_max sg w \<and>
    (if policy = ''wrap'' then r mod 2 ^ w = v mod 2 ^ w
     else \<forall>x. range_min sg w \<le> x \<and> x \<le> range_max sg w \<longrightarrow> \<bar>v - r\<bar> \<le> \<bar>v - x\<bar>) \<and>
    (range_min sg w \<le> v \<and> v \<le> range_max sg w \<longrightarrow> r = v)"
  using overflow_in_range [OF assms] .

theorem apply_overflow_spec_witness:
  "\<exists>r. apply_overflow (- 200) 8 True ''saturate'' = Inr r \<and> range_min True 8 \<le> r \<and> r \<le> range_max True 8 \<and>
    (if ''saturate'' = ''wrap'' then r mod 2 ^ 8 = - 200 mod 2 ^ 8
     else \<forall>x. range_min True 8 \<le> x \<and> x \<le> range_max True 8 \<longrightarrow> \<bar>- 200 - r\<bar> \<le> \<bar>- 200 - x\<bar>) \<and>
    (range_min True 8 \<le> - 200 \<and> - 200 \<le> range_max True 8 \<longrightarrow> r = - 200)"
  by (rule apply_overflow_spec) (simp_all add: overflow_modes_def)

lemma rounds_to_close: "rounds_to mode n d r \<Longrightarrow> 0 < d \<Longrightarrow> mode \<in> set rounding_modes \<Longrightarrow> \<bar>n - r * d\<bar> < d"
  by (auto simp: rounds_to_def rounding_modes_def algebra_simps split: if_splits)

text \<open>
  C26: quantising a rational under known policies always succeeds: the rational scaled by
  \<open>2 ^ f\<close> is rounded with an error below one unit of the last place (at most half a unit
  for nearest rounding), and the rounded value is kept whenever the format holds it.
\<close>

theorem quantize_error:
  assumes "0 < d" "0 < w" "rounding \<in> set rounding_modes" "overflow \<in> set overflow_modes"
  shows "\<exists>x r. quantize_rational n d f w sg rounding overflow = Inr r \<and>
    rounds_to rounding (n * 2 ^ f) d x \<and> \<bar>n * 2 ^ f - x * d\<bar> < d \<and>
    range_min sg w \<le> r \<and> r \<le> range_max sg w \<and>
    (range_min sg w \<le> x \<and> x \<le> range_max sg w \<longrightarrow> r = x)"
proof -
  obtain x where x: "round_ratio (n * 2 ^ f) d rounding = Inr x" "rounds_to rounding (n * 2 ^ f) d x"
    using round_ratio_ok [OF assms(1,3)] by blast
  then have "\<bar>n * 2 ^ f - x * d\<bar> < d" using rounds_to_close assms by blast
  moreover obtain r where "apply_overflow x w sg overflow = Inr r" "range_min sg w \<le> r" "r \<le> range_max sg w"
    "range_min sg w \<le> x \<and> x \<le> range_max sg w \<longrightarrow> r = x"
    using overflow_in_range [OF assms(2,4)] by blast
  ultimately show ?thesis using x by (auto simp: quantize_rational_def shl_def)
qed

theorem quantize_error_witness:
  "\<exists>x r. quantize_rational (- 10) 3 4 8 True ''nearest_even'' ''wrap'' = Inr r \<and>
    rounds_to ''nearest_even'' (- 10 * 2 ^ 4) 3 x \<and> \<bar>- 10 * 2 ^ 4 - x * 3\<bar> < 3 \<and>
    range_min True 8 \<le> r \<and> r \<le> range_max True 8 \<and>
    (range_min True 8 \<le> x \<and> x \<le> range_max True 8 \<longrightarrow> r = x)"
  by (rule quantize_error) (simp_all add: rounding_modes_def overflow_modes_def)

end
