(* ===== verification/Logic4.thy ===== *)
theory Logic4
  imports Zl_Prelude
begin

text \<open>
  Four-state values of the native simulation, \<^verbatim>\<open>zlang/simulation_logic.py\<close>: two bit planes,
  \<open>unknown\<close> marking the bits that are not binary and \<open>plane\<close> telling 0 from 1 and U from X.
  Parsing and printing are shown to be mutually inverse, and the predicates to say what
  the printed form shows.
\<close>

section \<open>Definitions\<close>

datatype logic_bit = LZero | LOne | LUninit | LUnknown

record logic_vector =
  lwidth :: nat
  plane :: int
  unknown :: int

datatype logic_error =
    LogicWidth | PlanesDoNotFit | EmptySpelling | WrongBitCount | InvalidCharacter char
  | NotBinary bool bool

definition plane_fits :: "int \<Rightarrow> int \<Rightarrow> bool" where
  "plane_fits w item \<longleftrightarrow> \<not> (item < 0 \<or> item AND NOT (ones (nat w)) \<noteq> 0)"

definition mk_logic :: "int \<Rightarrow> int \<Rightarrow> int \<Rightarrow> logic_error + logic_vector" where
  "mk_logic w v u = (if w < 1 then Inl LogicWidth
     else if \<not> (plane_fits w v \<and> plane_fits w u) then Inl PlanesDoNotFit
     else Inr \<lparr>lwidth = nat w, plane = v, unknown = u\<rparr>)"

definition is_binary :: "logic_vector \<Rightarrow> bool" where
  "is_binary l \<longleftrightarrow> unknown l = 0"

definition has_uninitialized :: "logic_vector \<Rightarrow> bool" where
  "has_uninitialized l \<longleftrightarrow> unknown l AND NOT (plane l) \<noteq> 0"

definition has_unknown :: "logic_vector \<Rightarrow> bool" where
  "has_unknown l \<longleftrightarrow> unknown l AND plane l \<noteq> 0"

definition known :: "int \<Rightarrow> nat \<Rightarrow> logic_error + logic_vector" where
  "known v w = mk_logic (int w) (v AND ones w) 0"

definition filled :: "logic_bit \<Rightarrow> nat \<Rightarrow> logic_error + logic_vector" where
  "filled b w = (case b of
       LZero \<Rightarrow> mk_logic (int w) 0 0
     | LOne \<Rightarrow> mk_logic (int w) (ones w) 0
     | LUninit \<Rightarrow> mk_logic (int w) 0 (ones w)
     | LUnknown \<Rightarrow> mk_logic (int w) (ones w) (ones w))"

text \<open>\<^verbatim>\<open>str.lower\<close> on the ASCII letters.\<close>

definition lower_char :: "char \<Rightarrow> char" where
  "lower_char c = (let n = of_char c :: nat in if 65 \<le> n \<and> n \<le> 90 then char_of (n + 32) else c)"

definition normalized :: "string \<Rightarrow> string" where
  "normalized s = filter (\<lambda>c. c \<noteq> CHR ''_'') (map lower_char s)"

definition broadcast :: "string \<Rightarrow> nat \<Rightarrow> string" where
  "broadcast s w = (if length s = 1 then concat (replicate w s) else s)"

fun parse_planes :: "string \<Rightarrow> nat \<Rightarrow> int \<Rightarrow> int \<Rightarrow> int \<times> int" where
  "parse_planes [] i v u = (v, u)"
| "parse_planes (c # cs) i v u = parse_planes cs (Suc i)
     (if c = CHR ''1'' \<or> c = CHR ''x'' then v OR shl 1 i else v)
     (if c = CHR ''u'' \<or> c = CHR ''x'' then u OR shl 1 i else u)"

definition parse_logic :: "string \<Rightarrow> nat \<Rightarrow> logic_error + logic_vector" where
  "parse_logic s w = (if s = [] then Inl EmptySpelling
     else let t = broadcast (normalized s) w in
       if length t \<noteq> w then Inl WrongBitCount
       else (case List.find (\<lambda>c. c \<notin> set ''01ux'') t of
           Some c \<Rightarrow> Inl (InvalidCharacter c)
         | None \<Rightarrow> (case parse_planes (rev t) 0 0 0 of (v, u) \<Rightarrow> mk_logic (int w) v u)))"

definition bit_char :: "logic_vector \<Rightarrow> nat \<Rightarrow> char" where
  "bit_char l i = (if \<not> unknown l AND shl 1 i \<noteq> 0
     then (if plane l AND shl 1 i \<noteq> 0 then CHR ''1'' else CHR ''0'')
     else (if plane l AND shl 1 i \<noteq> 0 then CHR ''x'' else CHR ''u''))"

definition to_bits_str :: "logic_vector \<Rightarrow> string" where
  "to_bits_str l = map (bit_char l) (rev [0..<lwidth l])"

definition require_binary :: "logic_vector \<Rightarrow> logic_error + int" where
  "require_binary l = (if unknown l \<noteq> 0 then Inl (NotBinary (has_uninitialized l) (has_unknown l))
     else Inr (plane l))"

section \<open>Bits of a plane\<close>

lemma and_shl_one: "(x :: int) AND shl 1 i \<noteq> 0 \<longleftrightarrow> bit x i"
proof -
  have "x AND shl 1 i = (if bit x i then 2 ^ i else 0)"
    by (rule bit_eqI) (auto simp: shl_def bit_and_iff bit_exp_iff)
  then show ?thesis by simp
qed

lemma bit_or_shl: "bit ((x :: int) OR shl 1 i) k \<longleftrightarrow> bit x k \<or> k = i"
  by (auto simp: shl_def bit_or_iff bit_exp_iff)

lemma plane_fits_iff: "0 < w \<Longrightarrow> plane_fits w v \<longleftrightarrow> 0 \<le> v \<and> v < 2 ^ nat w"
proof -
  have "v AND NOT (ones n) = v - v mod 2 ^ n" for n
    using and_ones [of v n] by (metis (no_types) add_diff_cancel_left' and.commute
      bit.conj_disj_distrib bit.disj_cancel_right disjunctive_add_eq_or and.assoc and.right_neutral bit.conj_cancel_right and_zero_eq)
  moreover have "v = v mod 2 ^ n \<Longrightarrow> v < 2 ^ n" for n
    by (metis pos_mod_bound zero_less_numeral zero_less_power)
  ultimately show ?thesis by (auto simp: plane_fits_def)
qed

lemma bit_bound: "0 \<le> v \<Longrightarrow> v < 2 ^ w \<Longrightarrow> bit v k \<Longrightarrow> k < w" for v :: int
  by (metis bit_take_bit_iff take_bit_int_eq_self)

lemma bits_bound: "(\<And>k. bit v k \<Longrightarrow> k < w) \<Longrightarrow> 0 \<le> v \<and> v < 2 ^ w" for v :: int
proof -
  assume "\<And>k. bit v k \<Longrightarrow> k < w"
  then have "take_bit w v = v" by (intro bit_eqI) (auto simp: bit_take_bit_iff)
  then show ?thesis by (metis take_bit_nonnegative take_bit_int_less_exp)
qed

definition wf_logic :: "logic_vector \<Rightarrow> bool" where
  "wf_logic l \<longleftrightarrow> 0 < lwidth l \<and> 0 \<le> plane l \<and> plane l < 2 ^ lwidth l \<and> 0 \<le> unknown l \<and> unknown l < 2 ^ lwidth l"

lemma mk_logic_wf: "mk_logic w v u = Inr l \<longleftrightarrow> wf_logic l \<and> w = int (lwidth l) \<and> v = plane l \<and> u = unknown l"
  by (cases l) (auto simp: mk_logic_def wf_logic_def plane_fits_iff split: if_splits)

section \<open>Parsing and printing\<close>

lemma parse_planes_bits:
  "parse_planes cs i v u = (v', u') \<Longrightarrow>
    bit v' k = (bit v k \<or> i \<le> k \<and> k < i + length cs \<and> (cs ! (k - i) = CHR ''1'' \<or> cs ! (k - i) = CHR ''x'')) \<and>
    bit u' k = (bit u k \<or> i \<le> k \<and> k < i + length cs \<and> (cs ! (k - i) = CHR ''u'' \<or> cs ! (k - i) = CHR ''x''))"
proof (induction cs i v u rule: parse_planes.induct)
  case (2 c cs i v u)
  note ih = 2(1) [OF 2(2) [unfolded parse_planes.simps]]
  consider "k < i" | "k = i" | "i < k" by linarith
  then show ?case
  proof cases
    case 3
    then obtain j where "k - i = Suc j" "k - Suc i = j" by (metis Suc_diff_Suc)
    then show ?thesis using ih 3 by (auto simp: bit_or_shl)
  qed (use ih in \<open>auto simp: bit_or_shl\<close>)
qed auto

lemma parse_planes_0:
  assumes "parse_planes cs 0 0 0 = (v, u)"
  shows "bit v k \<longleftrightarrow> k < length cs \<and> (cs ! k = CHR ''1'' \<or> cs ! k = CHR ''x'')"
    and "bit u k \<longleftrightarrow> k < length cs \<and> (cs ! k = CHR ''u'' \<or> cs ! k = CHR ''x'')"
  using parse_planes_bits [OF assms, of k] by simp_all

lemma bit_char_cases:
  "bit_char l i = (if bit (unknown l) i then (if bit (plane l) i then CHR ''x'' else CHR ''u'')
     else (if bit (plane l) i then CHR ''1'' else CHR ''0''))"
  by (simp add: bit_char_def and_shl_one)

lemma to_bits_nth: "i < lwidth l \<Longrightarrow> to_bits_str l ! i = bit_char l (lwidth l - Suc i)"
  by (simp add: to_bits_str_def rev_nth)

lemma lower_digit: "c \<in> set ''01ux'' \<Longrightarrow> lower_char c = c \<and> c \<noteq> CHR ''_''"
  by (auto simp: lower_char_def)

lemma normalized_digits: "set s \<subseteq> set ''01ux'' \<Longrightarrow> normalized s = s"
proof -
  assume "set s \<subseteq> set ''01ux''"
  then have d: "lower_char c = c \<and> c \<noteq> CHR ''_''" if "c \<in> set s" for c using lower_digit that by blast
  then have "map lower_char s = s" by (simp add: map_idI)
  then show ?thesis using d by (simp add: normalized_def filter_id_conv)
qed

lemma to_bits_props:
  "length (to_bits_str l) = lwidth l" "set (to_bits_str l) \<subseteq> set ''01ux''"
  by (auto simp: to_bits_str_def bit_char_cases)

lemma broadcast_full: "length s = w \<Longrightarrow> broadcast s w = s"
  by (auto simp: broadcast_def)

lemma parse_to_bits:
  assumes "wf_logic l"
  shows "parse_logic (to_bits_str l) (lwidth l) = Inr l"
proof -
  let ?t = "to_bits_str l" and ?w = "lwidth l"
  obtain v u where vu: "parse_planes (rev ?t) 0 0 0 = (v, u)" by (cases "parse_planes (rev ?t) 0 0 0")
  have nth: "rev ?t ! k = bit_char l k" if "k < ?w" for k
    using that by (simp add: to_bits_str_def rev_map [symmetric])
  have small: "k < ?w" if "bit (plane l) k \<or> bit (unknown l) k" for k
    using assms that bit_bound by (auto simp: wf_logic_def)
  have "v = plane l"
    by (rule bit_eqI) (use parse_planes_0(1) [OF vu] small nth to_bits_props(1) in \<open>auto simp: bit_char_cases split: if_splits\<close>)
  moreover have "u = unknown l"
    by (rule bit_eqI) (use parse_planes_0(2) [OF vu] small nth to_bits_props(1) in \<open>auto simp: bit_char_cases split: if_splits\<close>)
  moreover have "?t \<noteq> []" using assms to_bits_props(1) [of l] by (auto simp: wf_logic_def)
  moreover have "List.find (\<lambda>c. c \<notin> set ''01ux'') ?t = None"
    using to_bits_props(2) by (auto simp: find_None_iff)
  ultimately show ?thesis
    using vu assms normalized_digits [OF to_bits_props(2)] broadcast_full [OF to_bits_props(1)] to_bits_props(1)
    by (simp add: parse_logic_def Let_def mk_logic_wf)
qed

lemma to_bits_parse:
  assumes "parse_logic s w = Inr l"
  shows "wf_logic l" "lwidth l = w" "to_bits_str l = broadcast (normalized s) w"
proof -
  let ?t = "broadcast (normalized s) w"
  obtain v u where vu: "parse_planes (rev ?t) 0 0 0 = (v, u)" by (cases "parse_planes (rev ?t) 0 0 0")
  have t: "length ?t = w" "set ?t \<subseteq> set ''01ux''" and l: "mk_logic (int w) v u = Inr l"
    using assms vu by (auto simp: parse_logic_def Let_def find_None_iff split: if_splits option.splits)
  then have l: "wf_logic l" "w = lwidth l" "v = plane l" "u = unknown l" by (simp_all add: mk_logic_wf)
  show "wf_logic l" "lwidth l = w" using l by simp_all
  show "to_bits_str l = ?t"
  proof (rule nth_equalityI)
    show "length (to_bits_str l) = length ?t" using t l by (simp add: to_bits_props)
    fix i assume "i < length (to_bits_str l)"
    then have i: "i < w" using l by (simp add: to_bits_props)
    let ?k = "w - Suc i"
    have "rev ?t ! ?k = ?t ! i" using i t by (simp add: rev_nth)
    then have bits: "bit (plane l) ?k \<longleftrightarrow> ?t ! i = CHR ''1'' \<or> ?t ! i = CHR ''x''"
      "bit (unknown l) ?k \<longleftrightarrow> ?t ! i = CHR ''u'' \<or> ?t ! i = CHR ''x''"
      using parse_planes_0 [OF vu, of ?k] i l(3,4) t(1) by simp_all
    have "?t ! i \<in> set ?t" using i t(1) by simp
    then have "?t ! i \<in> set ''01ux''" using t(2) by (rule subsetD [rotated])
    then consider "?t ! i = CHR ''0''" | "?t ! i = CHR ''1''" | "?t ! i = CHR ''u''" | "?t ! i = CHR ''x''"
      by (simp only: list.set insert_iff empty_iff) blast
    moreover have "to_bits_str l ! i = bit_char l ?k" using i l(2) by (simp only: to_bits_nth)
    ultimately show "to_bits_str l ! i = ?t ! i"
      by cases (simp_all only: bit_char_cases bits, simp_all)
  qed
qed

text \<open>
  C28: printing and parsing four-state values are inverse: every valid vector prints to a
  spelling that parses to it, and whatever spelling is accepted, the vector built from it
  is valid and prints as the spelling with letters lowered, underscores removed and a
  single character repeated to the width.
\<close>

theorem logic_print_parse:
  "(wf_logic l \<longrightarrow> parse_logic (to_bits_str l) (lwidth l) = Inr l) \<and>
   (parse_logic s w = Inr l \<longrightarrow> wf_logic l \<and> lwidth l = w \<and> to_bits_str l = broadcast (normalized s) w)"
  using parse_to_bits to_bits_parse by blast

theorem logic_print_parse_witness:
  "parse_logic ''1x0u'' 4 = Inr \<lparr>lwidth = 4, plane = 12, unknown = 5\<rparr> \<and>
   to_bits_str \<lparr>lwidth = 4, plane = 12, unknown = 5\<rparr> = broadcast (normalized ''1x0u'') 4"
proof -
  have "parse_logic ''1x0u'' 4 = Inr \<lparr>lwidth = 4, plane = 12, unknown = 5\<rparr>" by code_simp
  then show ?thesis
    using logic_print_parse [of "\<lparr>lwidth = 4, plane = 12, unknown = 5\<rparr>" "''1x0u''" 4] by simp
qed

section \<open>Predicates and binary access\<close>

lemma and_not_bits: "(x :: int) AND NOT y \<noteq> 0 \<longleftrightarrow> (\<exists>k. bit x k \<and> \<not> bit y k)"
  by (auto simp: bit_eq_iff bit_and_iff bit_not_iff)

lemma and_bits: "(x :: int) AND y \<noteq> 0 \<longleftrightarrow> (\<exists>k. bit x k \<and> bit y k)"
  by (auto simp: bit_eq_iff bit_and_iff)

lemma printed_char:
  assumes "wf_logic l"
  shows "c \<in> set (to_bits_str l) \<longleftrightarrow> (\<exists>k<lwidth l. bit_char l k = c)"
  by (auto simp: to_bits_str_def)

text \<open>
  The predicates of a valid vector are visible in its printed form: it has an
  uninitialised (unknown) bit exactly when it prints a \<open>u\<close> (an \<open>x\<close>), and its binary value
  is returned exactly when it prints only 0 and 1; the refusal names the kinds that occur.
\<close>

theorem logic_predicates_printed:
  assumes "wf_logic l"
  shows "has_uninitialized l = (CHR ''u'' \<in> set (to_bits_str l)) \<and>
    has_unknown l = (CHR ''x'' \<in> set (to_bits_str l)) \<and>
    require_binary l = (if set (to_bits_str l) \<subseteq> {CHR ''0'', CHR ''1''} then Inr (plane l)
      else Inl (NotBinary (CHR ''u'' \<in> set (to_bits_str l)) (CHR ''x'' \<in> set (to_bits_str l))))"
proof -
  have small: "k < lwidth l" if "bit (unknown l) k" for k
    using assms that bit_bound by (auto simp: wf_logic_def)
  have u: "has_uninitialized l \<longleftrightarrow> CHR ''u'' \<in> set (to_bits_str l)"
    unfolding has_uninitialized_def and_not_bits printed_char [OF assms] using small
    by (auto simp: bit_char_cases split: if_splits)
  have x: "has_unknown l \<longleftrightarrow> CHR ''x'' \<in> set (to_bits_str l)"
    unfolding has_unknown_def and_bits printed_char [OF assms] using small
    by (auto simp: bit_char_cases split: if_splits)
  have "unknown l = 0 \<longleftrightarrow> (\<forall>k. \<not> bit (unknown l) k)" by (auto simp: bit_eq_iff)
  also have "\<dots> \<longleftrightarrow> set (to_bits_str l) \<subseteq> {CHR ''0'', CHR ''1''}"
  proof
    assume "\<forall>k. \<not> bit (unknown l) k"
    then show "set (to_bits_str l) \<subseteq> {CHR ''0'', CHR ''1''}" by (auto simp: to_bits_str_def bit_char_cases)
  next
    assume s: "set (to_bits_str l) \<subseteq> {CHR ''0'', CHR ''1''}"
    have "bit_char l k \<in> {CHR ''0'', CHR ''1''}" if "k < lwidth l" for k
      using s printed_char [OF assms, of "bit_char l k"] that by blast
    then show "\<forall>k. \<not> bit (unknown l) k" using small by (fastforce simp: bit_char_cases split: if_splits)
  qed
  finally show ?thesis using u x by (simp add: require_binary_def)
qed

theorem logic_predicates_printed_witness:
  "has_uninitialized \<lparr>lwidth = 3, plane = 6, unknown = 4\<rparr> =
     (CHR ''u'' \<in> set (to_bits_str \<lparr>lwidth = 3, plane = 6, unknown = 4\<rparr>)) \<and>
   has_unknown \<lparr>lwidth = 3, plane = 6, unknown = 4\<rparr> =
     (CHR ''x'' \<in> set (to_bits_str \<lparr>lwidth = 3, plane = 6, unknown = 4\<rparr>)) \<and>
   require_binary \<lparr>lwidth = 3, plane = 6, unknown = 4\<rparr> = Inl (NotBinary False True)"
  using logic_predicates_printed [of "\<lparr>lwidth = 3, plane = 6, unknown = 4\<rparr>"]
  by (simp add: wf_logic_def require_binary_def has_uninitialized_def has_unknown_def)

lemma ones_bound: "ones w < 2 ^ w"
  by (simp add: ones_def)

lemma bit_ones: "bit (ones w) k \<longleftrightarrow> k < w"
  by (simp add: ones_def bit_mask_iff flip: mask_eq_exp_minus_1)

fun logic_char :: "logic_bit \<Rightarrow> char" where
  "logic_char LZero = CHR ''0''"
| "logic_char LOne = CHR ''1''"
| "logic_char LUninit = CHR ''u''"
| "logic_char LUnknown = CHR ''x''"

text \<open>
  For every positive width the constructors succeed: a filled vector prints the same
  character in every position, and a known vector is binary and reads back as the value
  modulo \<open>2 ^ w\<close>.
\<close>

theorem logic_constructors:
  "(\<exists>l. filled b (Suc n) = Inr l \<and> wf_logic l \<and> to_bits_str l = replicate (Suc n) (logic_char b)) \<and>
   (\<exists>l. known v (Suc n) = Inr l \<and> wf_logic l \<and> is_binary l \<and> require_binary l = Inr (v mod 2 ^ Suc n))"
proof
  define p u where "p = (if b = LOne \<or> b = LUnknown then ones (Suc n) else 0)"
    and "u = (if b = LUninit \<or> b = LUnknown then ones (Suc n) else 0)"
  let ?l = "\<lparr>lwidth = Suc n, plane = p, unknown = u\<rparr>"
  have wf: "wf_logic ?l" using ones_bound [of "Suc n"] by (auto simp: wf_logic_def p_def u_def)
  then have "mk_logic (int (Suc n)) p u = Inr ?l" by (simp only: mk_logic_wf) simp
  then have "filled b (Suc n) = Inr ?l" by (cases b) (simp_all add: filled_def p_def u_def)
  moreover have "to_bits_str ?l = replicate (Suc n) (logic_char b)"
  proof (rule nth_equalityI)
    fix i assume "i < length (to_bits_str ?l)"
    then have i: "i < Suc n" by (simp add: to_bits_props(1))
    have "bit p (n - i) \<longleftrightarrow> b = LOne \<or> b = LUnknown" "bit u (n - i) \<longleftrightarrow> b = LUninit \<or> b = LUnknown"
      using le_imp_less_Suc [OF diff_le_self [of n i]] by (simp_all add: p_def u_def bit_ones)
    then have "bit_char ?l (n - i) = logic_char b" by (cases b) (simp_all add: bit_char_cases)
    then show "to_bits_str ?l ! i = replicate (Suc n) (logic_char b) ! i"
      using i by (simp add: to_bits_nth del: replicate_Suc)
  qed (simp add: to_bits_props(1))
  ultimately show "\<exists>l. filled b (Suc n) = Inr l \<and> wf_logic l \<and> to_bits_str l = replicate (Suc n) (logic_char b)"
    using wf by blast
  let ?k = "\<lparr>lwidth = Suc n, plane = v mod 2 ^ Suc n, unknown = 0\<rparr>"
  have "wf_logic ?k" by (simp add: wf_logic_def del: power_Suc)
  moreover from this have "known v (Suc n) = Inr ?k" by (simp only: known_def and_ones mk_logic_wf) simp
  ultimately show "\<exists>l. known v (Suc n) = Inr l \<and> wf_logic l \<and> is_binary l \<and> require_binary l = Inr (v mod 2 ^ Suc n)"
    by (auto simp: is_binary_def require_binary_def)
qed

end
