(* ===== verification/Comptime.thy ===== *)
theory Comptime
  imports Zl_Prelude
begin

text \<open>
  Compile-time integer expressions over bounded binders, the first half of
  \<^verbatim>\<open>zlang/ir/functional_regions.py\<close>: the validation of binders and expressions, their
  evaluation under bindings, and the interval \<open>compile_time_range\<close>.  The range is shown
  to bound every value the expression can take, and to prove that evaluation succeeds
  for every choice of the binders in their domains.
\<close>

section \<open>Definitions\<close>

datatype ct_operator =
    CtLiteral | CtBinder | CtAdd | CtSubtract | CtMultiply | CtFloorDivide | CtModulo | CtNegate

record ct_binder =
  bd_identity :: string
  bd_name :: string
  bd_start :: int
  bd_stop :: int

datatype ct_expr = CtExpr ct_operator "ct_operand list"
  and ct_operand = OpInt int | OpRef ct_binder | OpExpr ct_expr

datatype ct_error =
    BinderIdentityEmpty | BinderNameEmpty | BinderDomainEmpty
  | CtArity ct_operator nat | LiteralNotInteger | BinderNotReference
  | NotBound string | EscapedDomain string | DivisionByZero | ModuloByZero
  | DivisorMayBeZero | ModuloNotConstant | ModuloNotPositive | Malformed

definition mk_binder :: "string \<Rightarrow> string \<Rightarrow> int \<Rightarrow> int \<Rightarrow> ct_error + ct_binder" where
  "mk_binder i n a b =
     (if i = [] then Inl BinderIdentityEmpty
      else if n = [] then Inl BinderNameEmpty
      else if b \<le> a then Inl BinderDomainEmpty
      else Inr \<lparr>bd_identity = i, bd_name = n, bd_start = a, bd_stop = b\<rparr>)"

fun ct_arity :: "ct_operator \<Rightarrow> nat" where
  "ct_arity CtLiteral = 1"
| "ct_arity CtBinder = 1"
| "ct_arity CtAdd = 2"
| "ct_arity CtSubtract = 2"
| "ct_arity CtMultiply = 2"
| "ct_arity CtFloorDivide = 2"
| "ct_arity CtModulo = 2"
| "ct_arity CtNegate = 1"

fun is_op_int :: "ct_operand \<Rightarrow> bool" where
  "is_op_int (OpInt _) = True" | "is_op_int _ = False"

fun is_op_ref :: "ct_operand \<Rightarrow> bool" where
  "is_op_ref (OpRef _) = True" | "is_op_ref _ = False"

definition mk_ct_expr :: "ct_operator \<Rightarrow> ct_operand list \<Rightarrow> ct_error + ct_expr" where
  "mk_ct_expr p xs =
     (if length xs \<noteq> ct_arity p then Inl (CtArity p (ct_arity p))
      else if p = CtLiteral \<and> \<not> is_op_int (hd xs) then Inl LiteralNotInteger
      else if p = CtBinder \<and> \<not> is_op_ref (hd xs) then Inl BinderNotReference
      else Inr (CtExpr p xs))"

definition ct_literal :: "int \<Rightarrow> ct_error + ct_expr" where
  "ct_literal v = mk_ct_expr CtLiteral [OpInt v]"

definition ct_ref :: "ct_binder \<Rightarrow> ct_error + ct_expr" where
  "ct_ref b = mk_ct_expr CtBinder [OpRef b]"

text \<open>The final arithmetic of \<^verbatim>\<open>evaluate_compile_time\<close>; Python's \<^verbatim>\<open>//\<close> and \<^verbatim>\<open>%\<close> are \<open>div\<close> and \<open>mod\<close>.\<close>

definition apply_ct :: "ct_operator \<Rightarrow> int list \<Rightarrow> ct_error + int" where
  "apply_ct p vs = (case (p, vs) of
       (CtAdd, [a, b]) \<Rightarrow> Inr (a + b)
     | (CtSubtract, [a, b]) \<Rightarrow> Inr (a - b)
     | (CtMultiply, [a, b]) \<Rightarrow> Inr (a * b)
     | (CtFloorDivide, [a, b]) \<Rightarrow> if b = 0 then Inl DivisionByZero else Inr (a div b)
     | (CtModulo, [a, b]) \<Rightarrow> if b = 0 then Inl ModuloByZero else Inr (a mod b)
     | (CtNegate, [a]) \<Rightarrow> Inr (- a)
     | _ \<Rightarrow> Inl Malformed)"

definition lookup_binder :: "(string \<Rightarrow> int option) \<Rightarrow> ct_binder \<Rightarrow> ct_error + int" where
  "lookup_binder bindings b = (case bindings (bd_identity b) of
       None \<Rightarrow> Inl (NotBound (bd_name b))
     | Some v \<Rightarrow> if \<not> (bd_start b \<le> v \<and> v < bd_stop b) then Inl (EscapedDomain (bd_name b)) else Inr v)"

fun evaluate_compile_time :: "(string \<Rightarrow> int option) \<Rightarrow> ct_expr \<Rightarrow> ct_error + int"
  and evaluate_operand :: "(string \<Rightarrow> int option) \<Rightarrow> ct_operand \<Rightarrow> ct_error + int" where
  "evaluate_compile_time \<rho> (CtExpr p xs) = (case p of
       CtLiteral \<Rightarrow> (case xs of OpInt v # _ \<Rightarrow> Inr v | _ \<Rightarrow> Inl Malformed)
     | CtBinder \<Rightarrow> (case xs of OpRef b # _ \<Rightarrow> lookup_binder \<rho> b | _ \<Rightarrow> Inl Malformed)
     | _ \<Rightarrow> bindE (mapE (evaluate_operand \<rho>) xs) (apply_ct p))"
| "evaluate_operand \<rho> (OpInt v) = Inr v"
| "evaluate_operand \<rho> (OpRef b) = lookup_binder \<rho> b"
| "evaluate_operand \<rho> (OpExpr e) = evaluate_compile_time \<rho> e"

type_synonym interval = "int \<times> int"

definition min_list4 :: "int list \<Rightarrow> int" where
  "min_list4 xs = foldr min (tl xs) (hd xs)"

definition max_list4 :: "int list \<Rightarrow> int" where
  "max_list4 xs = foldr max (tl xs) (hd xs)"

definition corners :: "(int \<Rightarrow> int \<Rightarrow> int) \<Rightarrow> interval \<Rightarrow> interval \<Rightarrow> int list" where
  "corners f a b = [f (fst a) (fst b), f (fst a) (snd b), f (snd a) (fst b), f (snd a) (snd b)]"

definition range_ct :: "ct_operator \<Rightarrow> interval list \<Rightarrow> ct_error + interval" where
  "range_ct p rs = (case (p, rs) of
       (CtAdd, [a, b]) \<Rightarrow> Inr (fst a + fst b, snd a + snd b)
     | (CtSubtract, [a, b]) \<Rightarrow> Inr (fst a - snd b, snd a - fst b)
     | (CtMultiply, [a, b]) \<Rightarrow> Inr (min_list4 (corners (*) a b), max_list4 (corners (*) a b))
     | (CtNegate, [a]) \<Rightarrow> Inr (- snd a, - fst a)
     | (CtFloorDivide, [a, b]) \<Rightarrow>
         if fst b \<le> 0 \<and> 0 \<le> snd b then Inl DivisorMayBeZero
         else Inr (min_list4 (corners (div) a b), max_list4 (corners (div) a b))
     | (CtModulo, [a, b]) \<Rightarrow>
         if fst b \<le> 0 \<and> 0 \<le> snd b then Inl DivisorMayBeZero
         else if fst b \<noteq> snd b then Inl ModuloNotConstant
         else if fst b \<le> 0 then Inl ModuloNotPositive
         else Inr (0, fst b - 1)
     | _ \<Rightarrow> Inl Malformed)"

fun compile_time_range :: "ct_expr \<Rightarrow> ct_error + interval"
  and operand_range :: "ct_operand \<Rightarrow> ct_error + interval" where
  "compile_time_range (CtExpr p xs) = (case p of
       CtLiteral \<Rightarrow> (case xs of OpInt v # _ \<Rightarrow> Inr (v, v) | _ \<Rightarrow> Inl Malformed)
     | CtBinder \<Rightarrow> (case xs of OpRef b # _ \<Rightarrow> Inr (bd_start b, bd_stop b - 1) | _ \<Rightarrow> Inl Malformed)
     | _ \<Rightarrow> bindE (mapE operand_range xs) (range_ct p))"
| "operand_range (OpInt v) = Inr (v, v)"
| "operand_range (OpRef b) = Inr (bd_start b, bd_stop b - 1)"
| "operand_range (OpExpr e) = compile_time_range e"

text \<open>The binders an expression refers to.\<close>

fun ct_binders :: "ct_expr \<Rightarrow> ct_binder list"
  and operand_binders :: "ct_operand \<Rightarrow> ct_binder list" where
  "ct_binders (CtExpr p xs) = concat (map operand_binders xs)"
| "operand_binders (OpInt v) = []"
| "operand_binders (OpRef b) = [b]"
| "operand_binders (OpExpr e) = ct_binders e"

definition admissible :: "(string \<Rightarrow> int option) \<Rightarrow> ct_binder list \<Rightarrow> bool" where
  "admissible \<rho> bs \<longleftrightarrow> (\<forall>b\<in>set bs. \<exists>v. \<rho> (bd_identity b) = Some v \<and> bd_start b \<le> v \<and> v < bd_stop b)"

section \<open>Corners of an interval\<close>

definition within :: "int \<Rightarrow> interval \<Rightarrow> bool" where
  "within v r \<longleftrightarrow> fst r \<le> v \<and> v \<le> snd r"

lemma corner_bounds:
  "c \<in> set (corners f a b) \<Longrightarrow> min_list4 (corners f a b) \<le> c \<and> c \<le> max_list4 (corners f a b)"
  by (auto simp: corners_def min_list4_def max_list4_def)

text \<open>A function monotone (either way) in each argument is extreme at a corner.\<close>

lemma corners_monotone:
  assumes row: "\<And>y. within y b \<Longrightarrow> within x a \<Longrightarrow> min (f (fst a) y) (f (snd a) y) \<le> f x y \<and> f x y \<le> max (f (fst a) y) (f (snd a) y)"
    and col: "\<And>x. x \<in> {fst a, snd a} \<Longrightarrow> within y b \<Longrightarrow>
      min (f x (fst b)) (f x (snd b)) \<le> f x y \<and> f x y \<le> max (f x (fst b)) (f x (snd b))"
    and x: "within x a" and y: "within y b"
  shows "min_list4 (corners f a b) \<le> f x y \<and> f x y \<le> max_list4 (corners f a b)"
proof -
  have "min (f (fst a) y) (f (snd a) y) \<le> f x y" "f x y \<le> max (f (fst a) y) (f (snd a) y)"
    using row [OF y x] by simp_all
  moreover have "min (f (fst a) (fst b)) (f (fst a) (snd b)) \<le> f (fst a) y"
    "f (fst a) y \<le> max (f (fst a) (fst b)) (f (fst a) (snd b))"
    "min (f (snd a) (fst b)) (f (snd a) (snd b)) \<le> f (snd a) y"
    "f (snd a) y \<le> max (f (snd a) (fst b)) (f (snd a) (snd b))"
    using col [OF _ y] by simp_all
  ultimately show ?thesis by (simp add: corners_def min_list4_def max_list4_def min_le_iff_disj le_max_iff_disj) linarith
qed

lemma mult_between:
  fixes x :: int
  assumes "l \<le> x" "x \<le> h"
  shows "min (l * y) (h * y) \<le> x * y \<and> x * y \<le> max (l * y) (h * y)"
proof (cases "0 \<le> y")
  case True
  then show ?thesis using assms by (simp add: mult_right_mono min.coboundedI1 max.coboundedI2)
next
  case False
  then show ?thesis using assms by (simp add: mult_right_mono_neg min.coboundedI2 max.coboundedI1)
qed

lemma multiply_corners:
  "within x a \<Longrightarrow> within y b \<Longrightarrow>
    min_list4 (corners (*) a b) \<le> x * y \<and> x * y \<le> max_list4 (corners (*) a b)"
  using mult_between [of "fst b" y "snd b"] 
  by (intro corners_monotone) (auto simp: within_def mult_between mult.commute [of _ y] mult.commute [of _ "fst b"] mult.commute [of _ "snd b"])

lemma div_between_num:
  fixes x :: int
  assumes "l \<le> x" "x \<le> h" "y \<noteq> 0"
  shows "min (l div y) (h div y) \<le> x div y \<and> x div y \<le> max (l div y) (h div y)"
proof (cases "0 < y")
  case True
  then show ?thesis using assms by (simp add: zdiv_mono1 min.coboundedI1 max.coboundedI2)
next
  case False
  then have "y < 0" using assms by simp
  then show ?thesis using assms by (simp add: zdiv_mono1_neg min.coboundedI2 max.coboundedI1)
qed

lemma div_between_pos:
  fixes x :: int
  assumes "c \<le> y" "y \<le> d" "0 < c"
  shows "min (x div c) (x div d) \<le> x div y \<and> x div y \<le> max (x div c) (x div d)"
proof (cases "0 \<le> x")
  case True
  then show ?thesis using assms by (simp add: zdiv_mono2 min.coboundedI2 max.coboundedI1)
next
  case False
  then show ?thesis using assms by (simp add: zdiv_mono2_neg min.coboundedI1 max.coboundedI2)
qed

lemma div_between_den:
  fixes x :: int
  assumes "c \<le> y" "y \<le> d" "0 < c \<or> d < 0"
  shows "min (x div c) (x div d) \<le> x div y \<and> x div y \<le> max (x div c) (x div d)"
proof (cases "0 < c")
  case True
  then show ?thesis using div_between_pos assms by blast
next
  case False
  then show ?thesis using div_between_pos [of "- d" "- y" "- c" "- x"] assms by (simp add: min.commute max.commute)
qed

lemma divide_corners:
  assumes "within x a" "within y b" "\<not> (fst b \<le> 0 \<and> 0 \<le> snd b)"
  shows "min_list4 (corners (div) a b) \<le> x div y \<and> x div y \<le> max_list4 (corners (div) a b)"
proof (rule corners_monotone [OF _ _ assms(1,2)])
  fix z assume "within z b" "within x a"
  then show "min (fst a div z) (snd a div z) \<le> x div z \<and> x div z \<le> max (fst a div z) (snd a div z)"
    using assms(3) by (intro div_between_num) (auto simp: within_def)
next
  fix z assume "within y b"
  then show "min (z div fst b) (z div snd b) \<le> z div y \<and> z div y \<le> max (z div fst b) (z div snd b)"
    using assms(3) by (intro div_between_den) (auto simp: within_def)
qed

section \<open>The range bounds the value\<close>

lemma apply_in_range:
  assumes "range_ct p rs = Inr r" "list_all2 within vs rs"
  shows "\<exists>v. apply_ct p vs = Inr v \<and> within v r"
proof -
  have one: "\<exists>v. vs = [v] \<and> within v a" if "rs = [a]" for a
    using assms(2) that by (auto simp: list_all2_Cons2)
  have two: "\<exists>v w. vs = [v, w] \<and> within v a \<and> within w b" if "rs = [a, b]" for a b
    using assms(2) that by (auto simp: list_all2_Cons2)
  show ?thesis
  proof (cases p)
    case CtAdd
    then obtain a b where "rs = [a, b]" "r = (fst a + fst b, snd a + snd b)"
      using assms(1) by (auto simp: range_ct_def split: list.splits)
    then show ?thesis using two [of a b] CtAdd by (auto simp: apply_ct_def within_def)
  next
    case CtSubtract
    then obtain a b where "rs = [a, b]" "r = (fst a - snd b, snd a - fst b)"
      using assms(1) by (auto simp: range_ct_def split: list.splits)
    then show ?thesis using two [of a b] CtSubtract by (auto simp: apply_ct_def within_def)
  next
    case CtMultiply
    then obtain a b where "rs = [a, b]" "r = (min_list4 (corners (*) a b), max_list4 (corners (*) a b))"
      using assms(1) by (auto simp: range_ct_def split: list.splits)
    moreover obtain v w where "vs = [v, w]" "within v a" "within w b" using two calculation by blast
    ultimately show ?thesis using CtMultiply multiply_corners [of v a w b]
      by (simp add: apply_ct_def within_def [of "v * w"])
  next
    case CtFloorDivide
    then obtain a b where rs: "rs = [a, b]" "\<not> (fst b \<le> 0 \<and> 0 \<le> snd b)"
      "r = (min_list4 (corners (div) a b), max_list4 (corners (div) a b))"
      using assms(1) by (auto simp: range_ct_def split: list.splits if_splits)
    obtain v w where vw: "vs = [v, w]" "within v a" "within w b" using two rs by blast
    have "w \<noteq> 0" using vw rs by (auto simp: within_def)
    then show ?thesis using vw rs divide_corners [OF vw(2,3) rs(2)] CtFloorDivide
      by (simp add: apply_ct_def within_def [of "v div w"])
  next
    case CtModulo
    then obtain a b where rs: "rs = [a, b]" "fst b = snd b" "0 < fst b" "r = (0, fst b - 1)"
      using assms(1) by (auto simp: range_ct_def split: list.splits if_splits)
    obtain v w where vw: "vs = [v, w]" "within v a" "within w b" using two rs by blast
    then have "w = fst b" using rs by (simp add: within_def)
    then show ?thesis using vw rs CtModulo by (simp add: apply_ct_def) (simp add: within_def [of "v mod snd b"])
  next
    case CtNegate
    then obtain a where "rs = [a]" "r = (- snd a, - fst a)"
      using assms(1) by (auto simp: range_ct_def split: list.splits)
    then show ?thesis using one [of a] CtNegate by (auto simp: apply_ct_def within_def)
  qed (use assms(1) in \<open>simp_all add: range_ct_def\<close>)
qed

lemma binder_in_range:
  "\<rho> (bd_identity b) = Some v \<Longrightarrow> bd_start b \<le> v \<Longrightarrow> v < bd_stop b \<Longrightarrow>
    lookup_binder \<rho> b = Inr v \<and> within v (bd_start b, bd_stop b - 1)"
  by (simp add: lookup_binder_def within_def)

lemma mapE_range:
  assumes "\<And>x r. x \<in> set xs \<Longrightarrow> g x = Inr r \<Longrightarrow> \<exists>v. f x = Inr v \<and> within v r" "mapE g xs = Inr rs"
  shows "\<exists>vs. mapE f xs = Inr vs \<and> list_all2 within vs rs"
  using assms by (induction xs arbitrary: rs) fastforce+

lemma range_evaluates:
  "compile_time_range e = Inr r \<Longrightarrow> admissible \<rho> (ct_binders e) \<Longrightarrow>
     \<exists>v. evaluate_compile_time \<rho> e = Inr v \<and> within v r"
  "operand_range x = Inr r \<Longrightarrow> admissible \<rho> (operand_binders x) \<Longrightarrow>
     \<exists>v. evaluate_operand \<rho> x = Inr v \<and> within v r"
proof (induction e and x arbitrary: r and r rule: compile_time_range_operand_range.induct)
  case (1 p xs)
  show ?case
  proof (cases "p = CtLiteral \<or> p = CtBinder")
    case True
    then consider (lit) v ys where "p = CtLiteral" "xs = OpInt v # ys" "r = (v, v)"
      | (ref) b ys where "p = CtBinder" "xs = OpRef b # ys" "r = (bd_start b, bd_stop b - 1)"
      using 1(7) by (auto split: list.splits ct_operand.splits)
    then show ?thesis
    proof cases
      case lit
      then show ?thesis by (simp add: within_def)
    next
      case ref
      then show ?thesis using 1(8) binder_in_range by (fastforce simp: admissible_def)
    qed
  next
    case False
    then obtain rs where rs: "mapE operand_range xs = Inr rs" "range_ct p rs = Inr r"
      using 1(7) by (cases p) auto
    have "\<exists>v. evaluate_operand \<rho> x = Inr v \<and> within v s" if "x \<in> set xs" "operand_range x = Inr s" for x s
    proof -
      have "admissible \<rho> (operand_binders x)" using 1(8) that by (auto simp: admissible_def)
      then show ?thesis using 1(1-6) False that by (cases p) blast+
    qed
    then obtain vs where "mapE (evaluate_operand \<rho>) xs = Inr vs" "list_all2 within vs rs"
      using mapE_range [OF _ rs(1)] by blast
    then show ?thesis using apply_in_range [OF rs(2)] False by (cases p) auto
  qed
next
  case (3 b)
  then show ?case using binder_in_range by (fastforce simp: admissible_def)
qed (auto simp: within_def)

text \<open>
  C29: whenever \<open>compile_time_range\<close> accepts an expression, evaluation succeeds for every
  binding of its binders inside their domains (no division by zero, no unbound binder),
  and the value lies in the interval.
\<close>

theorem compile_time_range_sound:
  assumes "compile_time_range e = Inr (lo, hi)" "admissible \<rho> (ct_binders e)"
  shows "\<exists>v. evaluate_compile_time \<rho> e = Inr v \<and> lo \<le> v \<and> v \<le> hi"
  using range_evaluates(1) [OF assms] by (auto simp: within_def)

definition demo_binder :: ct_binder where
  "demo_binder = \<lparr>bd_identity = ''i#0'', bd_name = ''i'', bd_start = - 3, bd_stop = 9\<rparr>"

definition demo_ct :: ct_expr where
  "demo_ct = CtExpr CtSubtract [OpExpr (CtExpr CtMultiply [OpRef demo_binder, OpInt (- 2)]),
     OpExpr (CtExpr CtModulo [OpRef demo_binder, OpInt 4])]"

theorem compile_time_range_sound_witness:
  "\<exists>v. evaluate_compile_time [''i#0'' \<mapsto> 5] demo_ct = Inr v \<and> - 19 \<le> v \<and> v \<le> 6"
  by (rule compile_time_range_sound)
    (simp_all add: demo_ct_def demo_binder_def range_ct_def corners_def min_list4_def max_list4_def admissible_def)

section \<open>Validated expressions\<close>

text \<open>The expressions that the validating constructors build.\<close>

inductive built_ct :: "ct_expr \<Rightarrow> bool" where
  "mk_ct_expr p xs = Inr e \<Longrightarrow> (\<And>e'. OpExpr e' \<in> set xs \<Longrightarrow> built_ct e') \<Longrightarrow> built_ct e"

inductive_cases built_ctE: "built_ct (CtExpr p xs)"

lemma mk_ct_expr_iff:
  "mk_ct_expr p xs = Inr e \<longleftrightarrow> e = CtExpr p xs \<and> length xs = ct_arity p \<and>
     (p = CtLiteral \<longrightarrow> is_op_int (hd xs)) \<and> (p = CtBinder \<longrightarrow> is_op_ref (hd xs))"
  by (auto simp: mk_ct_expr_def)

lemma mapE_Inl: "mapE f xs = Inl e \<Longrightarrow> \<exists>x\<in>set xs. f x = Inl e"
  by (induction xs) (auto simp: bindE_Inl_iff)

text \<open>
  Every expression inside an expression, and what a result says of the binders \<open>bs\<close> and the
  nodes \<open>ns\<close> that were evaluated: a value, that no binder and no divisor stood in its way; an
  error, which binder or divisor did.
\<close>

fun ct_nodes :: "ct_expr \<Rightarrow> ct_expr list"
  and operand_nodes :: "ct_operand \<Rightarrow> ct_expr list" where
  "ct_nodes (CtExpr p xs) = CtExpr p xs # concat (map operand_nodes xs)"
| "operand_nodes (OpInt v) = []"
| "operand_nodes (OpRef b) = []"
| "operand_nodes (OpExpr e) = ct_nodes e"

definition zero_divisor :: "(string \<Rightarrow> int option) \<Rightarrow> ct_operator \<Rightarrow> ct_expr list \<Rightarrow> bool" where
  "zero_divisor \<rho> p ns \<longleftrightarrow> (\<exists>a b. CtExpr p [a, b] \<in> set ns \<and> evaluate_operand \<rho> b = Inr 0)"

definition error_cause :: "(string \<Rightarrow> int option) \<Rightarrow> ct_binder list \<Rightarrow> ct_expr list \<Rightarrow> ct_error \<Rightarrow> bool" where
  "error_cause \<rho> bs ns er = (case er of
       DivisionByZero \<Rightarrow> zero_divisor \<rho> CtFloorDivide ns
     | ModuloByZero \<Rightarrow> zero_divisor \<rho> CtModulo ns
     | NotBound n \<Rightarrow> (\<exists>b\<in>set bs. bd_name b = n \<and> \<rho> (bd_identity b) = None)
     | EscapedDomain n \<Rightarrow> (\<exists>b\<in>set bs. bd_name b = n \<and>
         (\<exists>v. \<rho> (bd_identity b) = Some v \<and> (v < bd_start b \<or> bd_stop b \<le> v)))
     | _ \<Rightarrow> False)"

definition explained :: "(string \<Rightarrow> int option) \<Rightarrow> ct_binder list \<Rightarrow> ct_expr list \<Rightarrow> ct_error + 'a \<Rightarrow> bool" where
  "explained \<rho> bs ns r = (case r of
       Inr v \<Rightarrow> admissible \<rho> bs \<and> \<not> zero_divisor \<rho> CtFloorDivide ns \<and> \<not> zero_divisor \<rho> CtModulo ns
     | Inl er \<Rightarrow> error_cause \<rho> bs ns er)"

lemma error_cause_mono:
  "error_cause \<rho> bs ns er \<Longrightarrow> set bs \<subseteq> set bs' \<Longrightarrow> set ns \<subseteq> set ns' \<Longrightarrow> error_cause \<rho> bs' ns' er"
  by (cases er) (auto simp: error_cause_def zero_divisor_def)

lemma explained_lookup: "explained \<rho> [b] [] (lookup_binder \<rho> b)"
  by (auto simp: explained_def lookup_binder_def error_cause_def admissible_def zero_divisor_def split: option.split)

lemma zero_divisor_concat: "zero_divisor \<rho> p (concat (map f xs)) \<longleftrightarrow> (\<exists>x\<in>set xs. zero_divisor \<rho> p (f x))"
  by (induction xs) (simp_all add: zero_divisor_def conj_disj_distribR ex_disj_distrib)

lemma admissible_concat: "admissible \<rho> (concat (map g xs)) \<longleftrightarrow> (\<forall>x\<in>set xs. admissible \<rho> (g x))"
  by (induction xs) (simp_all add: admissible_def ball_Un)

lemma explained_operands:
  assumes "\<And>x. x \<in> set xs \<Longrightarrow> explained \<rho> (operand_binders x) (operand_nodes x) (evaluate_operand \<rho> x)"
  shows "explained \<rho> (concat (map operand_binders xs)) (concat (map operand_nodes xs)) (mapE (evaluate_operand \<rho>) xs)"
proof (cases "mapE (evaluate_operand \<rho>) xs")
  case (Inl er)
  then obtain x where x: "x \<in> set xs" "evaluate_operand \<rho> x = Inl er" using mapE_Inl [OF Inl] by blast
  then have cause: "error_cause \<rho> (operand_binders x) (operand_nodes x) er" using assms [OF x(1)] by (simp add: explained_def)
  have "set (operand_binders x) \<subseteq> set (concat (map operand_binders xs))"
    "set (operand_nodes x) \<subseteq> set (concat (map operand_nodes xs))" using x(1) by auto
  from error_cause_mono [OF cause this] show ?thesis using Inl by (simp add: explained_def)
next
  case (Inr vs)
  have "admissible \<rho> (operand_binders x) \<and> \<not> zero_divisor \<rho> CtFloorDivide (operand_nodes x) \<and>
      \<not> zero_divisor \<rho> CtModulo (operand_nodes x)" if x: "x \<in> set xs" for x
  proof -
    obtain i where i: "i < length xs" "x = xs ! i" using x by (metis in_set_conv_nth)
    have "evaluate_operand \<rho> x = Inr (vs ! i)" using mapE_Inr_nth [OF Inr i(1)] i(2) by simp
    then show ?thesis using assms [OF x] by (simp add: explained_def)
  qed
  then show ?thesis using Inr by (simp add: explained_def zero_divisor_concat admissible_concat)
qed

text \<open>The last step of a node, over operands that evaluated.\<close>

lemma explained_apply:
  assumes "mapE (evaluate_operand \<rho>) xs = Inr vs" "explained \<rho> bs ns (Inr vs)" "length xs = ct_arity p"
    "p \<noteq> CtLiteral" "p \<noteq> CtBinder"
  shows "explained \<rho> bs (CtExpr p xs # ns) (apply_ct p vs)"
proof -
  have two: "\<exists>a b v w. xs = [a, b] \<and> vs = [v, w] \<and> evaluate_operand \<rho> b = Inr w" if "ct_arity p = 2"
    using assms(1,3) that by (auto simp: numeral_2_eq_2 length_Suc_conv)
  have one: "\<exists>a v. xs = [a] \<and> vs = [v]" if "ct_arity p = 1"
    using assms(1,3) that by (auto simp: length_Suc_conv)
  show ?thesis using assms(2,4,5) two one
    by (cases p) (auto simp: apply_ct_def explained_def error_cause_def zero_divisor_def, blast+)
qed

lemma evaluation_explained:
  "built_ct e \<Longrightarrow> explained \<rho> (ct_binders e) (ct_nodes e) (evaluate_compile_time \<rho> e)"
proof (induction rule: built_ct.induct)
  case (1 p xs e)
  then have e: "e = CtExpr p xs" and len: "length xs = ct_arity p"
    and h: "p = CtLiteral \<longrightarrow> is_op_int (hd xs)" "p = CtBinder \<longrightarrow> is_op_ref (hd xs)"
    by (simp_all add: mk_ct_expr_iff)
  show ?case
  proof (cases "p = CtLiteral \<or> p = CtBinder")
    case True
    then obtain x where x: "xs = [x]" using len by (auto simp: length_Suc_conv)
    show ?thesis
    proof (cases x)
      case (OpRef b)
      then have "p = CtBinder" using True h x by auto
      then show ?thesis using explained_lookup [of \<rho> b] e x OpRef
        by (auto simp: explained_def zero_divisor_def error_cause_def split: sum.splits ct_error.splits)
    qed (use True h x e in \<open>auto simp: explained_def admissible_def zero_divisor_def\<close>)
  next
    case False
    have "explained \<rho> (operand_binders x) (operand_nodes x) (evaluate_operand \<rho> x)" if "x \<in> set xs" for x
    proof (cases x)
      case (OpRef b)
      then show ?thesis using explained_lookup by simp
    next
      case (OpExpr e')
      then show ?thesis using 1(3) [of e'] that by simp
    qed (simp add: explained_def admissible_def zero_divisor_def)
    then have ops: "explained \<rho> (ct_binders e) (concat (map operand_nodes xs)) (mapE (evaluate_operand \<rho>) xs)"
      using explained_operands [of xs \<rho>] e by simp
    have ev: "evaluate_compile_time \<rho> e = bindE (mapE (evaluate_operand \<rho>) xs) (apply_ct p)"
      using False e by (cases p) auto
    show ?thesis
    proof (cases "mapE (evaluate_operand \<rho>) xs")
      case (Inl er)
      then have "error_cause \<rho> (ct_binders e) (concat (map operand_nodes xs)) er" using ops by (simp add: explained_def)
      then have "error_cause \<rho> (ct_binders e) (ct_nodes e) er" by (rule error_cause_mono) (auto simp: e)
      then show ?thesis using ev Inl by (simp add: explained_def)
    next
      case (Inr vs)
      then show ?thesis using explained_apply [OF Inr] ops ev e len False by simp
    qed
  qed
qed

text \<open>
  C30: evaluating an expression built by the validating constructors returns an integer only if
  every binder it mentions is bound inside its domain and no division or modulo in it has a
  divisor that evaluates to zero.  Otherwise it reports the cause: a division or a modulo of the
  expression whose divisor evaluates to zero, a binder of the expression that is not bound, or
  one that is bound outside its domain, by name.  No internal assertion fails.
\<close>

theorem compile_time_evaluation_errors:
  assumes "built_ct e"
  shows "case evaluate_compile_time \<rho> e of
      Inr v \<Rightarrow> admissible \<rho> (ct_binders e) \<and>
        (\<forall>p a b. CtExpr p [a, b] \<in> set (ct_nodes e) \<and> p \<in> {CtFloorDivide, CtModulo} \<longrightarrow> evaluate_operand \<rho> b \<noteq> Inr 0)
    | Inl er \<Rightarrow>
        er = DivisionByZero \<and> (\<exists>a b. CtExpr CtFloorDivide [a, b] \<in> set (ct_nodes e) \<and> evaluate_operand \<rho> b = Inr 0) \<or>
        er = ModuloByZero \<and> (\<exists>a b. CtExpr CtModulo [a, b] \<in> set (ct_nodes e) \<and> evaluate_operand \<rho> b = Inr 0) \<or>
        (\<exists>b\<in>set (ct_binders e). er = NotBound (bd_name b) \<and> \<rho> (bd_identity b) = None) \<or>
        (\<exists>b\<in>set (ct_binders e). er = EscapedDomain (bd_name b) \<and>
           (\<exists>v. \<rho> (bd_identity b) = Some v \<and> \<not> (bd_start b \<le> v \<and> v < bd_stop b)))"
proof (cases "evaluate_compile_time \<rho> e")
  case (Inl er)
  then show ?thesis using evaluation_explained [OF assms, of \<rho>]
    by (cases er) (auto simp: explained_def error_cause_def zero_divisor_def)
next
  case (Inr v)
  then show ?thesis using evaluation_explained [OF assms, of \<rho>] by (auto simp: explained_def zero_divisor_def)
qed

definition demo_quotient :: ct_expr where
  "demo_quotient = CtExpr CtFloorDivide [OpInt 7, OpRef demo_binder]"

theorem compile_time_evaluation_errors_witness:
  "evaluate_compile_time [''i#0'' \<mapsto> 0] demo_quotient = Inl DivisionByZero \<and>
   (\<exists>a b. CtExpr CtFloorDivide [a, b] \<in> set (ct_nodes demo_quotient) \<and> evaluate_operand [''i#0'' \<mapsto> 0] b = Inr 0)"
proof
  have "built_ct demo_quotient"
    unfolding demo_quotient_def
    by (rule built_ct.intros [of CtFloorDivide "[OpInt 7, OpRef demo_binder]"]) (simp_all add: mk_ct_expr_def)
  note errors = compile_time_evaluation_errors [OF this, of "[''i#0'' \<mapsto> 0]"]
  show eval: "evaluate_compile_time [''i#0'' \<mapsto> 0] demo_quotient = Inl DivisionByZero"
    by (simp add: demo_quotient_def demo_binder_def lookup_binder_def apply_ct_def)
  then show "\<exists>a b. CtExpr CtFloorDivide [a, b] \<in> set (ct_nodes demo_quotient) \<and> evaluate_operand [''i#0'' \<mapsto> 0] b = Inr 0"
    using errors by simp
qed

end
