(* ===== verification/Reduction.thy ===== *)
theory Reduction
  imports Numeric
begin

text \<open>
  Exact reduction schedules, the second half of \<^verbatim>\<open>zlang/ir/functional_regions.py\<close>: the
  validated records of a schedule (operations, levels, plans), and the builder that turns
  the recursive midpoint tree into levels of adjacent pairs.  The builder is shown never to
  fail one of its internal checks or a validation of the records it builds; running the
  levels of the plan it returns computes the value of the tree; and for the built-in
  addition every intermediate sum fits the type the plan declares for it.
\<close>

section \<open>Validated records\<close>

datatype red_error =
    AddFractions | AddFamilies
  | CombineNominal | CombineEmpty
  | OperandsNotAdjacent | OperationNominal | OperationEmpty | OperationResultType
  | LevelInputs | LevelNoOperation | LevelOrder | LevelIndex | LevelOverlap | LevelLeftType
  | LevelRightType | LevelCarries
  | PlanLength | PlanOrdering | PlanIdentity | PlanNoLevels | PlanChain | PlanSourceOrder
  | PlanRoot | PlanTopology
  | BuildLength | ScheduleNotReady | ScheduleTopology | PythonIndexError | PythonStopIteration
  | Resolver string

definition builtin_exact_add_result_type :: "hwtype \<Rightarrow> hwtype \<Rightarrow> red_error + hwtype" where
  "builtin_exact_add_result_type l r = (case addition_rule l r of
       Inr ru \<Rightarrow> Inr (result_type ru)
     | Inl FractionMismatch \<Rightarrow> Inl AddFractions
     | Inl _ \<Rightarrow> Inl AddFamilies)"

record combine =
  cb_type :: hwtype
  cb_function :: "string option"
  cb_callee :: "string option"

definition mk_combine :: "hwtype \<Rightarrow> string option \<Rightarrow> string option \<Rightarrow> red_error + combine" where
  "mk_combine t f c =
     (if (f = None) \<noteq> (c = None) then Inl CombineNominal
      else if f = Some [] \<or> c = Some [] then Inl CombineEmpty
      else Inr \<lparr>cb_type = t, cb_function = f, cb_callee = c\<rparr>)"

record red_op =
  op_left :: nat
  op_right :: nat
  op_left_type :: hwtype
  op_right_type :: hwtype
  op_result :: hwtype
  op_function :: "string option"
  op_callee :: "string option"

definition mk_red_op ::
    "int \<Rightarrow> int \<Rightarrow> hwtype \<Rightarrow> hwtype \<Rightarrow> hwtype \<Rightarrow> string option \<Rightarrow> string option \<Rightarrow> red_error + red_op" where
  "mk_red_op l r lt rt res f c =
     (if l < 0 \<or> r \<noteq> l + 1 then Inl OperandsNotAdjacent
      else if (f = None) \<noteq> (c = None) then Inl OperationNominal
      else if f = Some [] \<or> c = Some [] then Inl OperationEmpty
      else bindE (if f = None then bindE (builtin_exact_add_result_type lt rt)
               (\<lambda>expected. guardE (res = expected) OperationResultType) else Inr ())
        (\<lambda>_. Inr \<lparr>op_left = nat l, op_right = nat r, op_left_type = lt, op_right_type = rt,
          op_result = res, op_function = f, op_callee = c\<rparr>))"

record red_level =
  lv_inputs :: "hwtype list"
  lv_ops :: "red_op list"
  lv_carries :: "nat list"

text \<open>The loop over the operations, with the set \<^verbatim>\<open>consumed\<close>.\<close>

definition check_level_op :: "hwtype list \<Rightarrow> red_op \<Rightarrow> nat set \<Rightarrow> red_error + nat set" where
  "check_level_op ts p consumed =
     (if op_right p \<ge> length ts then Inl LevelIndex
      else if op_left p \<in> consumed \<or> op_right p \<in> consumed then Inl LevelOverlap
      else if ts ! op_left p \<noteq> op_left_type p then Inl LevelLeftType
      else if ts ! op_right p \<noteq> op_right_type p then Inl LevelRightType
      else Inr (consumed \<union> {op_left p, op_right p}))"

definition mk_level :: "hwtype list \<Rightarrow> red_op list \<Rightarrow> nat list \<Rightarrow> red_error + red_level" where
  "mk_level ts ops carries =
     (if length ts < 2 then Inl LevelInputs
      else if ops = [] then Inl LevelNoOperation
      else let starts = map op_left ops in
        if starts \<noteq> sort starts \<or> \<not> distinct starts then Inl LevelOrder
        else bindE (foldE (check_level_op ts) ops {}) (\<lambda>consumed.
          if carries \<noteq> filter (\<lambda>i. i \<notin> consumed) [0..<length ts] then Inl LevelCarries
          else Inr \<lparr>lv_inputs = ts, lv_ops = ops, lv_carries = carries\<rparr>))"

text \<open>\<^verbatim>\<open>{item.left_index: item for item in operations}\<close>.\<close>

definition by_left :: "red_op list \<Rightarrow> nat \<Rightarrow> red_op option" where
  "by_left ops = map_of (rev (map (\<lambda>p. (op_left p, p)) ops))"

text \<open>
  The loop \<^verbatim>\<open>while index < len(items)\<close> that the code runs over types, spans and subtrees: an
  item without an operation is kept, an operation consumes the item and its right
  neighbour (\<open>None\<close> past the end).
\<close>

function merge_pairs ::
    "(nat \<Rightarrow> 'o option) \<Rightarrow> ('o \<Rightarrow> 'a \<Rightarrow> 'a option \<Rightarrow> 's \<Rightarrow> 'e + ('a \<times> 's)) \<Rightarrow> nat \<Rightarrow> 'a list \<Rightarrow> 's \<Rightarrow> 'e + ('a list \<times> 's)" where
  "merge_pairs pick join i [] s = Inr ([], s)"
| "merge_pairs pick join i (x # xs) s = (case pick i of
       None \<Rightarrow> bindE (merge_pairs pick join (Suc i) xs s) (\<lambda>r. Inr (x # fst r, snd r))
     | Some p \<Rightarrow> bindE (join p x (case xs of [] \<Rightarrow> None | y # _ \<Rightarrow> Some y) s) (\<lambda>z.
         bindE (merge_pairs pick join (i + 2) (tl xs) (snd z)) (\<lambda>r. Inr (fst z # fst r, snd r))))"
  by pat_completeness auto
termination by (relation "measure (\<lambda>(pick, join, i, xs, s). length xs)") auto

definition output_types :: "red_level \<Rightarrow> red_error + hwtype list" where
  "output_types lv = bindE (merge_pairs (by_left (lv_ops lv)) (\<lambda>p _ _ s. Inr (op_result p, s)) 0 (lv_inputs lv) ())
     (\<lambda>r. Inr (fst r))"

type_synonym span = "nat \<times> nat"

definition join_spans :: "red_op \<Rightarrow> span \<Rightarrow> span option \<Rightarrow> (span \<times> span) list \<Rightarrow> red_error + (span \<times> (span \<times> span) list)" where
  "join_spans p l r joins = (case r of None \<Rightarrow> Inl PythonIndexError
     | Some r \<Rightarrow> if snd l \<noteq> fst r then Inl PlanSourceOrder
         else Inr ((fst l, snd r), joins @ [(l, r)]))"

text \<open>The recursion on an empty span, which the code never starts, is not modelled.\<close>

function midpoint_joins :: "nat \<Rightarrow> nat \<Rightarrow> (span \<times> span) list" where
  "midpoint_joins a b = (if b \<le> Suc a then []
     else let m = a + (b - a) div 2 in midpoint_joins a m @ midpoint_joins m b @ [((a, m), (m, b))])"
  by pat_completeness auto
termination by (relation "measure (\<lambda>(a, b). b - a)") auto

declare midpoint_joins.simps [simp del]

record red_plan =
  pl_length :: nat
  pl_leaf :: hwtype
  pl_root :: hwtype
  pl_levels :: "red_level list"

definition check_plan_level ::
    "red_level \<Rightarrow> hwtype list \<times> span list \<times> (span \<times> span) list \<Rightarrow>
      red_error + (hwtype list \<times> span list \<times> (span \<times> span) list)" where
  "check_plan_level lv s = (case s of (expected, spans, joins) \<Rightarrow>
     if lv_inputs lv \<noteq> expected then Inl PlanChain
     else bindE (merge_pairs (by_left (lv_ops lv)) join_spans 0 spans joins) (\<lambda>r.
       bindE (output_types lv) (\<lambda>ts. Inr (ts, fst r, snd r))))"

definition mk_plan :: "int \<Rightarrow> hwtype \<Rightarrow> hwtype \<Rightarrow> red_level list \<Rightarrow> string \<Rightarrow> red_error + red_plan" where
  "mk_plan n leaf root levels order =
     (let plan = \<lparr>pl_length = nat n, pl_leaf = leaf, pl_root = root, pl_levels = levels\<rparr> in
      if n < 1 then Inl PlanLength
      else if order \<noteq> ''balanced_source_order'' then Inl PlanOrdering
      else if n = 1 then (if levels \<noteq> [] \<or> root \<noteq> leaf then Inl PlanIdentity else Inr plan)
      else if levels = [] then Inl PlanNoLevels
      else bindE (foldE check_plan_level levels
            (replicate (nat n) leaf, map (\<lambda>i. (i, Suc i)) [0..<nat n], [])) (\<lambda>(expected, spans, joins).
          if expected \<noteq> [root] \<or> spans \<noteq> [(0, nat n)] then Inl PlanRoot
          else if set joins \<noteq> set (midpoint_joins 0 (nat n)) then Inl PlanTopology
          else Inr plan))"

section \<open>The builder\<close>

datatype rtree =
    RLeaf nat nat hwtype
  | RNode nat nat hwtype nat rtree rtree combine

fun rt_start :: "rtree \<Rightarrow> nat" where
  "rt_start (RLeaf a b t) = a" | "rt_start (RNode a b t h l r c) = a"

fun rt_stop :: "rtree \<Rightarrow> nat" where
  "rt_stop (RLeaf a b t) = b" | "rt_stop (RNode a b t h l r c) = b"

fun rt_type :: "rtree \<Rightarrow> hwtype" where
  "rt_type (RLeaf a b t) = t" | "rt_type (RNode a b t h l r c) = t"

fun rt_height :: "rtree \<Rightarrow> nat" where
  "rt_height (RLeaf a b t) = 0" | "rt_height (RNode a b t h l r c) = h"

type_synonym resolver = "hwtype \<Rightarrow> hwtype \<Rightarrow> red_error + combine"

function build_tree :: "resolver \<Rightarrow> hwtype \<Rightarrow> nat \<Rightarrow> nat \<Rightarrow> red_error + rtree" where
  "build_tree res el a b = (if b \<le> Suc a then Inr (RLeaf a b el)
     else let m = a + (b - a) div 2 in
       bindE (build_tree res el a m) (\<lambda>l. bindE (build_tree res el m b) (\<lambda>r.
         bindE (res (rt_type l) (rt_type r)) (\<lambda>c.
           Inr (RNode a b (cb_type c) (max (rt_height l) (rt_height r) + 1) l r c)))))"
  by pat_completeness auto
termination by (relation "measure (\<lambda>(res, el, a, b). b - a)") auto

declare build_tree.simps [simp del]

type_synonym pending = "(nat \<times> rtree list) list"

definition pending_get :: "pending \<Rightarrow> nat \<Rightarrow> rtree list" where
  "pending_get p h = (case map_of p h of None \<Rightarrow> [] | Some ns \<Rightarrow> ns)"

fun collect :: "rtree \<Rightarrow> pending \<Rightarrow> pending" where
  "collect (RLeaf a b t) p = p"
| "collect (RNode a b t h l r c) p =
     collect r (collect l (dict_set h (pending_get p h @ [RNode a b t h l r c]) p))"

definition same_span :: "rtree \<Rightarrow> rtree \<Rightarrow> bool" where
  "same_span x y \<longleftrightarrow> rt_start x = rt_start y \<and> rt_stop x = rt_stop y"

fun find_index :: "('a \<Rightarrow> bool) \<Rightarrow> 'a list \<Rightarrow> nat option" where
  "find_index P [] = None"
| "find_index P (x # xs) = (if P x then Some 0 else map_option Suc (find_index P xs))"

definition schedule_node :: "rtree list \<Rightarrow> rtree \<Rightarrow> red_op list \<Rightarrow> red_error + red_op list" where
  "schedule_node active n ops = (case n of
       RLeaf _ _ _ \<Rightarrow> Inl ScheduleNotReady
     | RNode a b t h l r c \<Rightarrow> (case find_index (\<lambda>item. same_span item l) active of
         None \<Rightarrow> Inl ScheduleNotReady
       | Some i \<Rightarrow> if Suc i \<ge> length active then Inl ScheduleNotReady
           else if \<not> same_span (active ! Suc i) r then Inl ScheduleTopology
           else bindE (mk_red_op (int i) (int i + 1) (rt_type l) (rt_type r) t (cb_function c) (cb_callee c))
             (\<lambda>p. Inr (ops @ [p]))))"

definition next_node :: "rtree list \<Rightarrow> red_op \<Rightarrow> rtree \<Rightarrow> rtree option \<Rightarrow> unit \<Rightarrow> red_error + (rtree \<times> unit)" where
  "next_node nodes p l r s = (case r of None \<Rightarrow> Inl PythonIndexError
     | Some r \<Rightarrow> (case List.find (\<lambda>n. rt_start n = rt_start l \<and> rt_stop n = rt_stop r) nodes of
         None \<Rightarrow> Inl PythonStopIteration | Some n \<Rightarrow> Inr (n, ())))"

definition build_level :: "pending \<Rightarrow> nat \<Rightarrow> rtree list \<times> red_level list \<Rightarrow> red_error + (rtree list \<times> red_level list)" where
  "build_level pending h s = (case s of (active, levels) \<Rightarrow>
     let nodes = sort_key rt_start (pending_get pending h) in
     bindE (foldE (schedule_node active) nodes []) (\<lambda>ops.
       let consumed = op_left ` set ops \<union> op_right ` set ops in
       bindE (mk_level (map rt_type active) ops (filter (\<lambda>i. i \<notin> consumed) [0..<length active])) (\<lambda>lv.
         bindE (merge_pairs (by_left ops) (next_node nodes) 0 active ()) (\<lambda>r.
           Inr (fst r, levels @ [lv])))))"

definition build_exact_reduction_plan :: "hwtype \<Rightarrow> int \<Rightarrow> resolver \<Rightarrow> red_error + red_plan" where
  "build_exact_reduction_plan el n res =
     (if n < 1 then Inl BuildLength
      else bindE (build_tree res el 0 (nat n)) (\<lambda>root.
        if n = 1 then mk_plan n el (rt_type root) [] ''balanced_source_order''
        else let pending = collect root [] in
          bindE (foldE (build_level pending) (sort (map fst pending))
              (map (\<lambda>i. RLeaf i (Suc i) el) [0..<nat n], []))
            (\<lambda>(active, levels). mk_plan n el (rt_type root) levels ''balanced_source_order'')))"

section \<open>Frontiers of the tree\<close>

text \<open>
  After the levels up to height \<open>k\<close> the active items are the maximal subtrees of height at
  most \<open>k\<close>, in order: the frontier.  \<open>step_ops k i t\<close> are the nodes combined at the next
  level, with the index of their left child in a frontier that starts at index \<open>i\<close>.
\<close>

fun rt_left :: "rtree \<Rightarrow> rtree" where
  "rt_left (RNode a b t h l r c) = l" | "rt_left x = x"

fun rt_right :: "rtree \<Rightarrow> rtree" where
  "rt_right (RNode a b t h l r c) = r" | "rt_right x = x"

fun rt_combine :: "rtree \<Rightarrow> combine" where
  "rt_combine (RNode a b t h l r c) = c"
| "rt_combine (RLeaf a b t) = \<lparr>cb_type = t, cb_function = None, cb_callee = None\<rparr>"

fun wf_rtree :: "resolver \<Rightarrow> hwtype \<Rightarrow> rtree \<Rightarrow> bool" where
  "wf_rtree res el (RLeaf a b t) = (b = Suc a \<and> t = el)"
| "wf_rtree res el (RNode a b t h l r c) = (a = rt_start l \<and> rt_stop l = rt_start r \<and> b = rt_stop r \<and>
     h = Suc (max (rt_height l) (rt_height r)) \<and> res (rt_type l) (rt_type r) = Inr c \<and> t = cb_type c \<and>
     wf_rtree res el l \<and> wf_rtree res el r)"

fun frontier :: "nat \<Rightarrow> rtree \<Rightarrow> rtree list" where
  "frontier k (RLeaf a b t) = [RLeaf a b t]"
| "frontier k (RNode a b t h l r c) = (if h \<le> k then [RNode a b t h l r c] else frontier k l @ frontier k r)"

fun nodes_at :: "nat \<Rightarrow> rtree \<Rightarrow> rtree list" where
  "nodes_at k (RLeaf a b t) = []"
| "nodes_at k (RNode a b t h l r c) = (if h = k then [RNode a b t h l r c] else nodes_at k l @ nodes_at k r)"

fun step_ops :: "nat \<Rightarrow> nat \<Rightarrow> rtree \<Rightarrow> (nat \<times> rtree) list" where
  "step_ops k i (RLeaf a b t) = []"
| "step_ops k i (RNode a b t h l r c) = (if h \<le> k then []
     else if h = Suc k then [(i, RNode a b t h l r c)]
     else step_ops k i l @ step_ops k (i + length (frontier k l)) r)"

fun tree_joins :: "rtree \<Rightarrow> (span \<times> span) list" where
  "tree_joins (RLeaf a b t) = []"
| "tree_joins (RNode a b t h l r c) = tree_joins l @ tree_joins r @
     [((rt_start l, rt_stop l), (rt_start r, rt_stop r))]"

lemma build_tree_wf:
  "build_tree res el a b = Inr t \<Longrightarrow> a < b \<Longrightarrow>
    wf_rtree res el t \<and> rt_start t = a \<and> rt_stop t = b \<and> tree_joins t = midpoint_joins a b"
proof (induction res el a b arbitrary: t rule: build_tree.induct)
  case (1 res el a b)
  show ?case
  proof (cases "b \<le> Suc a")
    case True
    then have "b = Suc a" using 1(4) by simp
    then show ?thesis using 1(3) by (auto simp: build_tree.simps midpoint_joins.simps)
  next
    case False
    define m where "m = a + (b - a) div 2"
    have m: "a < m" "m < b" using False by (auto simp: m_def)
    obtain l r c where lr: "build_tree res el a m = Inr l" "build_tree res el m b = Inr r"
      "res (rt_type l) (rt_type r) = Inr c"
      "t = RNode a b (cb_type c) (max (rt_height l) (rt_height r) + 1) l r c"
      using 1(3) False by (subst (asm) build_tree.simps) (auto simp: Let_def m_def)
    have "wf_rtree res el l \<and> rt_start l = a \<and> rt_stop l = m \<and> tree_joins l = midpoint_joins a m"
      using 1(1) [OF False m_def lr(1) m(1)] .
    moreover have "wf_rtree res el r \<and> rt_start r = m \<and> rt_stop r = b \<and> tree_joins r = midpoint_joins m b"
      using 1(2) [OF False m_def lr(1,2) m(2)] .
    moreover have "midpoint_joins a b = midpoint_joins a m @ midpoint_joins m b @ [((a, m), (m, b))]"
      using False by (subst midpoint_joins.simps) (simp add: Let_def m_def)
    ultimately show ?thesis using lr(3,4) by simp
  qed
qed

lemma wf_span: "wf_rtree res el t \<Longrightarrow> rt_start t < rt_stop t"
  by (induction t) auto

lemma frontier_low: "rt_height t \<le> k \<Longrightarrow> frontier k t = [t]"
  by (cases t) auto

lemma frontier_nonempty: "frontier k t \<noteq> []"
  by (induction t) auto

lemma nodes_at_low: "wf_rtree res el t \<Longrightarrow> rt_height t < h \<Longrightarrow> nodes_at h t = []"
  by (induction t) auto

lemma nodes_at_props:
  "wf_rtree res el t \<Longrightarrow> n \<in> set (nodes_at h t) \<Longrightarrow> 0 < h \<Longrightarrow>
    rt_height n = h \<and> n = RNode (rt_start n) (rt_stop n) (rt_type n) h (rt_left n) (rt_right n) (rt_combine n) \<and>
    wf_rtree res el n"
  by (induction t) (auto split: if_splits)

lemma nodes_at_exists:
  "wf_rtree res el t \<Longrightarrow> 0 < h \<Longrightarrow> h \<le> rt_height t \<Longrightarrow> nodes_at h t \<noteq> []"
  by (induction t) (auto simp: le_Suc_eq le_max_iff_disj)

definition spread :: "nat \<Rightarrow> nat \<Rightarrow> rtree list \<Rightarrow> bool" where
  "spread a b xs \<longleftrightarrow> sorted_wrt (<) (map rt_start xs) \<and> (\<forall>x\<in>set xs. a \<le> rt_start x \<and> rt_start x < b)"

lemma spread_append: "spread a m xs \<Longrightarrow> spread m b ys \<Longrightarrow> a \<le> m \<Longrightarrow> m \<le> b \<Longrightarrow> spread a b (xs @ ys)"
  by (force simp: spread_def sorted_wrt_append)

lemma spread_frontier: "wf_rtree res el t \<Longrightarrow> spread (rt_start t) (rt_stop t) (frontier k t)"
proof (induction t)
  case (RNode a b t h l r c)
  have "spread (rt_start l) (rt_stop r) (frontier k l @ frontier k r)"
    using RNode wf_span [of res el l] wf_span [of res el r] by (intro spread_append) auto
  moreover have "spread a b [RNode a b t h l r c]" using wf_span [OF RNode.prems] by (simp add: spread_def)
  ultimately show ?case using RNode.prems by simp
qed (simp add: spread_def)

lemma spread_nodes_at: "wf_rtree res el t \<Longrightarrow> spread (rt_start t) (rt_stop t) (nodes_at k t)"
proof (induction t)
  case (RNode a b t h l r c)
  have "spread (rt_start l) (rt_stop r) (nodes_at k l @ nodes_at k r)"
    using RNode wf_span [of res el l] wf_span [of res el r] by (intro spread_append) auto
  moreover have "spread a b [RNode a b t h l r c]" using wf_span [OF RNode.prems] by (simp add: spread_def)
  ultimately show ?case using RNode.prems by (cases "h = k") simp_all
qed (simp add: spread_def)

lemma spread_nth_inj:
  assumes "spread a b xs" "i < length xs" "j < length xs" "rt_start (xs ! i) = rt_start (xs ! j)"
  shows "i = j"
proof -
  have "distinct (map rt_start xs)" using assms(1) strict_sorted_iff by (auto simp: spread_def)
  then show ?thesis using assms(2-4) by (auto simp: distinct_conv_nth)
qed

lemma sort_nodes_at: "wf_rtree res el t \<Longrightarrow> sort_key rt_start (nodes_at h t) = nodes_at h t"
  using spread_nodes_at [of res el t h] strict_sorted_iff
  by (intro sort_key_id_if_sorted) (auto simp: spread_def)

lemma pending_get_set: "pending_get (dict_set h ns p) k = (if k = h then ns else pending_get p k)"
  by (simp add: pending_get_def map_of_dict_set)

lemma collect_get:
  "wf_rtree res el t \<Longrightarrow> pending_get (collect t p) h = pending_get p h @ nodes_at h t"
proof (induction t arbitrary: p)
  case (RNode a b t g l r c)
  then show ?case
    by (auto simp: pending_get_set nodes_at_low)
qed simp

lemma collect_keys:
  "wf_rtree res el t \<Longrightarrow> distinct (map fst p) \<Longrightarrow>
    distinct (map fst (collect t p)) \<and> set (map fst (collect t p)) = set (map fst p) \<union> {1..rt_height t}"
proof (induction t arbitrary: p)
  case (RNode a b t h l r c)
  let ?p = "dict_set h (pending_get p h @ [RNode a b t h l r c]) p"
  have "distinct (map fst ?p)" "set (map fst ?p) = insert h (set (map fst p))"
    using RNode.prems by (simp_all only: keys_dict_set distinct_set_add set_set_add)
  then have "distinct (map fst (collect l ?p)) \<and> set (map fst (collect l ?p)) = insert h (set (map fst p)) \<union> {1..rt_height l}"
    using RNode by simp
  then have "distinct (map fst (collect r (collect l ?p))) \<and>
      set (map fst (collect r (collect l ?p))) = insert h (set (map fst p)) \<union> {1..rt_height l} \<union> {1..rt_height r}"
    using RNode by simp
  moreover have "insert h ({1..rt_height l} \<union> {1..rt_height r}) = {1..h}" using RNode.prems by auto
  ultimately show ?case by auto
qed simp

lemma collect_heights:
  assumes "wf_rtree res el t"
  shows "sort (map fst (collect t [])) = [1..<Suc (rt_height t)]"
proof (rule sorted_distinct_set_unique)
  show "set (sort (map fst (collect t []))) = set [1..<Suc (rt_height t)]"
    using collect_keys [OF assms, of "[]"] by auto
  show "sorted [1..<Suc (rt_height t)]" by (rule sorted_upt)
qed (use collect_keys [OF assms, of "[]"] in simp_all)

section \<open>One level\<close>

lemma step_ops_nodes: "wf_rtree res el t \<Longrightarrow> map snd (step_ops k i t) = nodes_at (Suc k) t"
  by (induction t arbitrary: i) (auto simp: nodes_at_low)

lemma step_ops_pos:
  "wf_rtree res el t \<Longrightarrow> (j, n) \<in> set (step_ops k i t) \<Longrightarrow>
    i \<le> j \<and> Suc j < i + length (frontier k t) \<and>
    frontier k t ! (j - i) = rt_left n \<and> frontier k t ! (Suc j - i) = rt_right n"
proof (induction t arbitrary: i)
  case (RNode a b t h l r c)
  consider "h \<le> k" | "h = Suc k" | "Suc k < h" by linarith
  then show ?case
  proof cases
    case 2
    then have "frontier k l = [l]" "frontier k r = [r]" using RNode.prems(1) by (auto intro: frontier_low)
    then show ?thesis using 2 RNode.prems by auto
  next
    case 3
    let ?L = "length (frontier k l)"
    consider "(j, n) \<in> set (step_ops k i l)" | "(j, n) \<in> set (step_ops k (i + ?L) r)" using 3 RNode.prems by auto
    then show ?thesis
    proof cases
      case 1
      then show ?thesis using RNode.IH(1) [of i] RNode.prems 3 by (auto simp: nth_append)
    next
      case 2
      then have "i + ?L \<le> j \<and> Suc j < i + ?L + length (frontier k r) \<and>
          frontier k r ! (j - (i + ?L)) = rt_left n \<and> frontier k r ! (Suc j - (i + ?L)) = rt_right n"
        using RNode.IH(2) [of "i + ?L"] RNode.prems by auto
      then show ?thesis using 3 by (auto simp: nth_append)
    qed
  qed (use RNode.prems in auto)
qed simp

lemma step_ops_sorted:
  "wf_rtree res el t \<Longrightarrow> sorted_wrt (\<lambda>x y. Suc (fst x) < fst y) (step_ops k i t)"
proof (induction t arbitrary: i)
  case (RNode a b t h l r c)
  have "Suc j < j'" if "(j, n) \<in> set (step_ops k i l)" "(j', n') \<in> set (step_ops k (i + length (frontier k l)) r)" for j n j' n'
    using step_ops_pos [OF _ that(1)] step_ops_pos [OF _ that(2)] RNode.prems by force
  then show ?case using RNode by (fastforce simp: sorted_wrt_append)
qed simp

text \<open>The four loops over the active items at one level, as one law.\<close>

lemma merge_frontier:
  assumes "wf_rtree res el t"
    and "\<And>j. i \<le> j \<Longrightarrow> j < i + length (frontier k t) \<Longrightarrow> pick j = map_option (f j) (map_of (step_ops k i t) j)"
    and "\<And>j n s. (j, n) \<in> set (step_ops k i t) \<Longrightarrow>
      join (f j n) (g (rt_left n)) (Some (g (rt_right n))) s = Inr (g n, upd n s)"
  shows "merge_pairs pick join i (map g (frontier k t) @ rest) s =
    bindE (merge_pairs pick join (i + length (frontier k t)) rest (foldl (\<lambda>s n. upd n s) s (nodes_at (Suc k) t)))
      (\<lambda>r. Inr (map g (frontier (Suc k) t) @ fst r, snd r))"
  using assms
proof (induction t arbitrary: i rest s)
  case (RLeaf a b t)
  then show ?case by simp
next
  case (RNode a b t h l r c)
  consider "h \<le> k" | "h = Suc k" | "Suc k < h" by linarith
  then show ?case
  proof cases
    case 1
    then have "nodes_at (Suc k) (RNode a b t h l r c) = []"
      using nodes_at_low [OF RNode.prems(1)] by simp
    then show ?thesis using 1 RNode.prems(2) [of i] by simp
  next
    case 2
    have fr: "frontier k l = [l]" "frontier k r = [r]" using 2 RNode.prems(1) by (auto intro: frontier_low)
    have "pick i = Some (f i (RNode a b t h l r c))" using RNode.prems(2) [of i] 2 fr by simp
    moreover have "join (f i (RNode a b t h l r c)) (g l) (Some (g r)) s =
        Inr (g (RNode a b t h l r c), upd (RNode a b t h l r c) s)"
      using RNode.prems(3) [of i "RNode a b t h l r c" s] 2 by simp
    ultimately show ?thesis using 2 fr by (simp add: numeral_2_eq_2)
  next
    case 3
    let ?L = "length (frontier k l)" and ?R = "length (frontier k r)"
    have wf: "wf_rtree res el l" "wf_rtree res el r" using RNode.prems(1) by simp_all
    have so: "step_ops k i (RNode a b t h l r c) = step_ops k i l @ step_ops k (i + ?L) r" using 3 by simp
    have keysr: "map_of (step_ops k (i + ?L) r) j = None" if "j < i + ?L" for j
      using step_ops_pos [OF wf(2)] that by (force simp: map_of_eq_None_iff)
    have keysl: "map_of (step_ops k i l) j = None" if "i + ?L \<le> j" for j
      using step_ops_pos [OF wf(1)] that by (force simp: map_of_eq_None_iff)
    have byl: "pick j = map_option (f j) (map_of (step_ops k i l) j)" if "i \<le> j" "j < i + ?L" for j
      using RNode.prems(2) [of j] that 3 keysr [of j] unfolding so by (simp add: map_add_def split: option.splits)
    have byr: "pick j = map_option (f j) (map_of (step_ops k (i + ?L) r) j)" if "i + ?L \<le> j" "j < i + ?L + ?R" for j
      using RNode.prems(2) [of j] that 3 keysl [of j] unfolding so by (simp add: map_add_def split: option.splits)
    have jl: "join (f j n) (g (rt_left n)) (Some (g (rt_right n))) s = Inr (g n, upd n s)"
      if "(j, n) \<in> set (step_ops k i l)" for j n s using RNode.prems(3) [of j n s] that unfolding so by simp
    have jr: "join (f j n) (g (rt_left n)) (Some (g (rt_right n))) s = Inr (g n, upd n s)"
      if "(j, n) \<in> set (step_ops k (i + ?L) r)" for j n s using RNode.prems(3) [of j n s] that unfolding so by simp
    let ?s = "foldl (\<lambda>s n. upd n s) s (nodes_at (Suc k) l)"
    have "merge_pairs pick join i (map g (frontier k l) @ map g (frontier k r) @ rest) s =
        bindE (merge_pairs pick join (i + ?L) (map g (frontier k r) @ rest) ?s)
          (\<lambda>q. Inr (map g (frontier (Suc k) l) @ fst q, snd q))"
      by (rule RNode.IH(1) [OF wf(1) byl jl])
    also have "merge_pairs pick join (i + ?L) (map g (frontier k r) @ rest) ?s =
        bindE (merge_pairs pick join (i + ?L + ?R) rest (foldl (\<lambda>s n. upd n s) ?s (nodes_at (Suc k) r)))
          (\<lambda>q. Inr (map g (frontier (Suc k) r) @ fst q, snd q))"
      by (rule RNode.IH(2) [OF wf(2) byr jr])
    finally show ?thesis
      using 3 by (cases "merge_pairs pick join (i + ?L + ?R) rest (foldl (\<lambda>s n. upd n s) ?s (nodes_at (Suc k) r))")
        (simp_all add: add.assoc)
  qed
qed

text \<open>The same law for a whole frontier.\<close>

lemma merge_whole_frontier:
  assumes "wf_rtree res el t"
    and "pick = (\<lambda>j. map_option (f j) (map_of (step_ops k 0 t) j))"
    and "\<And>j n s. (j, n) \<in> set (step_ops k 0 t) \<Longrightarrow>
      join (f j n) (g (rt_left n)) (Some (g (rt_right n))) s = Inr (g n, upd n s)"
  shows "merge_pairs pick join 0 (map g (frontier k t)) s =
    Inr (map g (frontier (Suc k) t), foldl (\<lambda>s n. upd n s) s (nodes_at (Suc k) t))"
  using merge_frontier [OF assms(1), of 0 k pick f join g upd "[]" s] assms(2,3) by simp

section \<open>The builder's checks succeed\<close>

text \<open>The contract of a resolver: its answers are validated combines, built-in ones by the exact rule.\<close>

definition resolver_ok :: "resolver \<Rightarrow> bool" where
  "resolver_ok res \<longleftrightarrow> (\<forall>l r c. res l r = Inr c \<longrightarrow>
     mk_combine (cb_type c) (cb_function c) (cb_callee c) = Inr c \<and>
     (cb_function c = None \<longrightarrow> builtin_exact_add_result_type l r = Inr (cb_type c)))"

definition op_of :: "nat \<Rightarrow> rtree \<Rightarrow> red_op" where
  "op_of j n = \<lparr>op_left = j, op_right = Suc j, op_left_type = rt_type (rt_left n),
     op_right_type = rt_type (rt_right n), op_result = rt_type n,
     op_function = cb_function (rt_combine n), op_callee = cb_callee (rt_combine n)\<rparr>"

definition level_ops :: "nat \<Rightarrow> rtree \<Rightarrow> red_op list" where
  "level_ops k t = map (\<lambda>x. op_of (fst x) (snd x)) (step_ops k 0 t)"

lemma op_of_simps [simp]:
  "op_left (op_of j n) = j" "op_right (op_of j n) = Suc j" "op_result (op_of j n) = rt_type n"
  "op_left_type (op_of j n) = rt_type (rt_left n)" "op_right_type (op_of j n) = rt_type (rt_right n)"
  "op_function (op_of j n) = cb_function (rt_combine n)" "op_callee (op_of j n) = cb_callee (rt_combine n)"
  by (simp_all add: op_of_def)

lemma mk_op_of:
  assumes "resolver_ok res" "wf_rtree res el n" "0 < rt_height n"
  shows "mk_red_op (int j) (int j + 1) (rt_type (rt_left n)) (rt_type (rt_right n)) (rt_type n)
    (cb_function (rt_combine n)) (cb_callee (rt_combine n)) = Inr (op_of j n)"
proof (cases n)
  case (RNode a b t h l r c)
  then have "mk_combine (cb_type c) (cb_function c) (cb_callee c) = Inr c"
    "cb_function c = None \<Longrightarrow> builtin_exact_add_result_type (rt_type l) (rt_type r) = Inr (cb_type c)"
    using assms(1,2) by (auto simp: resolver_ok_def)
  then show ?thesis
    using RNode assms(2) by (auto simp: mk_red_op_def op_of_def mk_combine_def guardE_def nat_add_distrib split: if_splits)
qed (use assms(3) in simp)

lemma step_ops_keys: "wf_rtree res el t \<Longrightarrow> distinct (map fst (step_ops k i t))"
proof -
  assume "wf_rtree res el t"
  from step_ops_sorted [OF this, of k i] have "sorted_wrt (<) (map fst (step_ops k i t))"
    unfolding sorted_wrt_map by (rule sorted_wrt_mono_rel [rotated]) auto
  then show ?thesis by (simp add: strict_sorted_iff)
qed

lemma step_ops_node:
  assumes "wf_rtree res el t" "(j, n) \<in> set (step_ops k i t)"
  shows "wf_rtree res el n" "rt_height n = Suc k"
    "n = RNode (rt_start n) (rt_stop n) (rt_type n) (Suc k) (rt_left n) (rt_right n) (rt_combine n)"
proof -
  have "n \<in> set (nodes_at (Suc k) t)"
    using assms step_ops_nodes [OF assms(1), of k i] by (metis image_eqI list.set_map snd_conv)
  then show "wf_rtree res el n" "rt_height n = Suc k"
    "n = RNode (rt_start n) (rt_stop n) (rt_type n) (Suc k) (rt_left n) (rt_right n) (rt_combine n)"
    using nodes_at_props [OF assms(1)] by blast+
qed

lemma find_index_unique:
  "i < length xs \<Longrightarrow> P (xs ! i) \<Longrightarrow> (\<And>j. j < length xs \<Longrightarrow> P (xs ! j) \<Longrightarrow> j = i) \<Longrightarrow> find_index P xs = Some i"
proof (induction xs arbitrary: i)
  case (Cons x xs)
  show ?case
  proof (cases i)
    case 0
    then show ?thesis using Cons.prems by simp
  next
    case (Suc m)
    have "\<not> P x" using Cons.prems(3) [of 0] Suc by auto
    moreover have "find_index P xs = Some m"
    proof (rule Cons.IH)
      fix j assume "j < length xs" "P (xs ! j)"
      then show "j = m" using Cons.prems(3) [of "Suc j"] Suc by simp
    qed (use Cons.prems(1,2) Suc in simp_all)
    ultimately show ?thesis using Suc by simp
  qed
qed simp

lemma schedule_ok:
  assumes ok: "resolver_ok res" and wf: "wf_rtree res el t" and n: "(j, n) \<in> set (step_ops k 0 t)"
  shows "schedule_node (frontier k t) n ops = Inr (ops @ [op_of j n])"
proof -
  have pos: "Suc j < length (frontier k t)" "frontier k t ! j = rt_left n" "frontier k t ! Suc j = rt_right n"
    using step_ops_pos [OF wf n] by simp_all
  have "find_index (\<lambda>item. same_span item (rt_left n)) (frontier k t) = Some j"
  proof (rule find_index_unique)
    fix i assume "i < length (frontier k t)" "same_span (frontier k t ! i) (rt_left n)"
    then show "i = j"
      using spread_nth_inj [OF spread_frontier [OF wf], of i k j] pos by (simp add: same_span_def)
  qed (use pos in \<open>simp_all add: same_span_def\<close>)
  then show ?thesis
    using step_ops_node [OF wf n] pos mk_op_of [OF ok, of el n j]
    by (cases n) (simp_all add: schedule_node_def same_span_def)
qed

lemma foldE_schedule:
  assumes "resolver_ok res" "wf_rtree res el t"
  shows "foldE (schedule_node (frontier k t)) (nodes_at (Suc k) t) [] = Inr (level_ops k t)"
proof -
  have "set xs \<subseteq> set (step_ops k 0 t) \<Longrightarrow> foldE (schedule_node (frontier k t)) (map snd xs) acc =
      Inr (acc @ map (\<lambda>x. op_of (fst x) (snd x)) xs)" for xs acc
  proof (induction xs arbitrary: acc)
    case (Cons x xs)
    have "(fst x, snd x) \<in> set (step_ops k 0 t)" using Cons.prems by simp
    from schedule_ok [OF assms this] show ?case using Cons by simp
  qed simp
  from this [of "step_ops k 0 t" "[]"] show ?thesis
    using step_ops_nodes [OF assms(2)] by (simp add: level_ops_def)
qed

lemma map_of_map_keyed: "map_of (map (\<lambda>x. (fst x, f (fst x) (snd x))) xs) j = map_option (f j) (map_of xs j)"
  by (induction xs) auto

lemma by_left_level:
  assumes "wf_rtree res el t"
  shows "by_left (level_ops k t) = (\<lambda>j. map_option (op_of j) (map_of (step_ops k 0 t) j))"
proof -
  have d: "distinct (map fst (step_ops k 0 t))" using step_ops_keys [OF assms] .
  have eq: "map (\<lambda>p. (op_left p, p)) (level_ops k t) =
      map (\<lambda>x. (fst x, op_of (fst x) (snd x))) (step_ops k 0 t)"
    by (simp add: level_ops_def comp_def)
  have "by_left (level_ops k t) = map_of (map (\<lambda>x. (fst x, op_of (fst x) (snd x))) (step_ops k 0 t))"
    unfolding by_left_def eq using d by (intro map_of_rev_distinct) (simp add: comp_def)
  then show ?thesis by (simp add: fun_eq_iff map_of_map_keyed)
qed

definition consumed_by :: "red_op list \<Rightarrow> nat set" where
  "consumed_by ops = op_left ` set ops \<union> op_right ` set ops"

definition level_of :: "rtree \<Rightarrow> nat \<Rightarrow> red_level" where
  "level_of t k = \<lparr>lv_inputs = map rt_type (frontier k t), lv_ops = level_ops k t,
     lv_carries = filter (\<lambda>i. i \<notin> consumed_by (level_ops k t)) [0..<length (frontier k t)]\<rparr>"

lemma check_ops_loop:
  "sorted_wrt (\<lambda>x y. Suc (fst x) < fst y) xs \<Longrightarrow> (\<And>x c. x \<in> set xs \<Longrightarrow> c \<in> C \<Longrightarrow> c < fst x) \<Longrightarrow>
   (\<And>j n. (j, n) \<in> set xs \<Longrightarrow> Suc j < length ts \<and> ts ! j = rt_type (rt_left n) \<and> ts ! Suc j = rt_type (rt_right n)) \<Longrightarrow>
    foldE (check_level_op ts) (map (\<lambda>x. op_of (fst x) (snd x)) xs) C =
      Inr (C \<union> consumed_by (map (\<lambda>x. op_of (fst x) (snd x)) xs))"
proof (induction xs arbitrary: C)
  case Nil
  then show ?case by (simp add: consumed_by_def)
next
  case (Cons x xs)
  obtain j n where x: "x = (j, n)" by (cases x)
  have "c < j" if "c \<in> C" for c using Cons.prems(2) [of x c] x that by simp
  then have fresh: "j \<notin> C" "Suc j \<notin> C" by force+
  have step: "check_level_op ts (op_of j n) C = Inr (C \<union> {j, Suc j})"
    using Cons.prems(3) [of j n] x fresh by (simp add: check_level_op_def)
  have "foldE (check_level_op ts) (map (\<lambda>x. op_of (fst x) (snd x)) xs) (C \<union> {j, Suc j}) =
      Inr (C \<union> {j, Suc j} \<union> consumed_by (map (\<lambda>x. op_of (fst x) (snd x)) xs))"
  proof (rule Cons.IH)
    fix y c assume y: "y \<in> set xs" "c \<in> C \<union> {j, Suc j}"
    have "Suc j < fst y" using Cons.prems(1) x y(1) by auto
    then show "c < fst y" using y Cons.prems(2) [of y c] by auto
  next
    fix i m assume "(i, m) \<in> set xs"
    then show "Suc i < length ts \<and> ts ! i = rt_type (rt_left m) \<and> ts ! Suc i = rt_type (rt_right m)"
      using Cons.prems(3) [of i m] by simp
  qed (use Cons.prems(1) in simp)
  then show ?case using x step by (simp add: consumed_by_def insert_commute Un_commute)
qed

lemma level_ok:
  assumes wf: "wf_rtree res el t" and k: "k < rt_height t"
  shows "mk_level (map rt_type (frontier k t)) (level_ops k t)
    (filter (\<lambda>i. i \<notin> consumed_by (level_ops k t)) [0..<length (frontier k t)]) = Inr (level_of t k)"
proof -
  have ne: "step_ops k 0 t \<noteq> []"
    using nodes_at_exists [OF wf, of "Suc k"] step_ops_nodes [OF wf, of k 0] k by auto
  then obtain j n where jn: "(j, n) \<in> set (step_ops k 0 t)" by (metis list.set_intros(1) neq_Nil_conv prod.collapse)
  have len: "2 \<le> length (frontier k t)" using step_ops_pos [OF wf jn] by simp
  have starts: "map op_left (level_ops k t) = map fst (step_ops k 0 t)" by (simp add: level_ops_def comp_def)
  have "sorted_wrt (<) (map fst (step_ops k 0 t))"
    using step_ops_sorted [OF wf, of k 0] unfolding sorted_wrt_map by (rule sorted_wrt_mono_rel [rotated]) auto
  then have srt: "sort (map fst (step_ops k 0 t)) = map fst (step_ops k 0 t)" "distinct (map fst (step_ops k 0 t))"
    by (simp_all add: strict_sorted_iff sorted_sort_id)
  have fold: "foldE (check_level_op (map rt_type (frontier k t))) (level_ops k t) {} =
      Inr ({} \<union> consumed_by (level_ops k t))"
    unfolding level_ops_def
  proof (rule check_ops_loop)
    fix j n assume "(j, n) \<in> set (step_ops k 0 t)"
    from step_ops_pos [OF wf this] show "Suc j < length (map rt_type (frontier k t)) \<and>
        map rt_type (frontier k t) ! j = rt_type (rt_left n) \<and> map rt_type (frontier k t) ! Suc j = rt_type (rt_right n)"
      by simp
  qed (use step_ops_sorted [OF wf] in simp_all)
  have "level_ops k t \<noteq> []" using ne by (simp add: level_ops_def)
  then show ?thesis using len srt fold by (simp add: mk_level_def level_of_def starts)
qed

lemma next_active_ok:
  assumes wf: "wf_rtree res el t"
  shows "merge_pairs (by_left (level_ops k t)) (next_node (nodes_at (Suc k) t)) 0 (frontier k t) () =
    Inr (frontier (Suc k) t, ())"
proof -
  have "next_node (nodes_at (Suc k) t) (op_of j n) (rt_left n) (Some (rt_right n)) s = Inr (n, ())"
    if "(j, n) \<in> set (step_ops k 0 t)" for j n s
  proof -
    note node = step_ops_node [OF wf that]
    have "n \<in> set (nodes_at (Suc k) t)"
      using that step_ops_nodes [OF wf, of k 0] by (metis image_eqI list.set_map snd_conv)
    then obtain i where i: "i < length (nodes_at (Suc k) t)" "nodes_at (Suc k) t ! i = n" by (auto simp: in_set_conv_nth)
    have sp: "rt_start n = rt_start (rt_left n)" "rt_stop n = rt_stop (rt_right n)" using node by (cases n; simp)+
    have "List.find (\<lambda>m. rt_start m = rt_start (rt_left n) \<and> rt_stop m = rt_stop (rt_right n)) (nodes_at (Suc k) t) = Some n"
      unfolding find_Some_iff
    proof (intro exI [of _ i] conjI allI impI)
      fix j assume "j < i"
      then show "\<not> (rt_start (nodes_at (Suc k) t ! j) = rt_start (rt_left n) \<and>
          rt_stop (nodes_at (Suc k) t ! j) = rt_stop (rt_right n))"
        using spread_nth_inj [OF spread_nodes_at [OF wf], of j "Suc k" i] i sp by auto
    qed (use i sp in simp_all)
    then show ?thesis by (simp add: next_node_def)
  qed
  from merge_whole_frontier [OF wf by_left_level [OF wf], where g = "\<lambda>n. n" and upd = "\<lambda>_ _. ()" and s = "()", OF this]
  show ?thesis by simp
qed

lemma build_level_ok:
  assumes ok: "resolver_ok res" and wf: "wf_rtree res el t" and k: "k < rt_height t"
  shows "build_level (collect t []) (Suc k) (frontier k t, levels) =
    Inr (frontier (Suc k) t, levels @ [level_of t k])"
proof -
  have "pending_get (collect t []) (Suc k) = nodes_at (Suc k) t"
    using collect_get [OF wf, of "[]"] by (simp add: pending_get_def)
  then show ?thesis
    using foldE_schedule [OF ok wf] level_ok [OF wf k] next_active_ok [OF wf]
    by (simp add: build_level_def sort_nodes_at [OF wf] consumed_by_def [symmetric] Let_def)
qed

lemma build_levels_ok:
  assumes ok: "resolver_ok res" and wf: "wf_rtree res el t"
  shows "k \<le> rt_height t \<Longrightarrow> foldE (build_level (collect t [])) [1..<Suc k] (frontier 0 t, []) =
    Inr (frontier k t, map (level_of t) [0..<k])"
proof (induction k)
  case (Suc k)
  then have "foldE (build_level (collect t [])) [1..<Suc k] (frontier 0 t, []) =
      Inr (frontier k t, map (level_of t) [0..<k])" by simp
  moreover have "[1..<Suc (Suc k)] = [1..<Suc k] @ [Suc k]" by simp
  ultimately show ?case
    using build_level_ok [OF ok wf, of k] Suc.prems by (simp add: foldE_append del: upt_Suc) simp
qed simp

lemma frontier_leaves:
  "wf_rtree res el t \<Longrightarrow> frontier 0 t = map (\<lambda>i. RLeaf i (Suc i) el) [rt_start t..<rt_stop t]"
proof (induction t)
  case (RNode a b t h l r c)
  have "rt_start l \<le> rt_stop l" "rt_start r \<le> rt_stop r" using RNode.prems wf_span [of res el l] wf_span [of res el r] by simp_all
  then have "[rt_start l..<rt_stop r] = [rt_start l..<rt_stop l] @ [rt_start r..<rt_stop r]"
    using RNode.prems upt_add_eq_append [of "rt_start l" "rt_stop l" "rt_stop r - rt_stop l"] by simp
  then show ?case using RNode by simp
qed simp

section \<open>The plan's validation succeeds\<close>

definition span_of :: "rtree \<Rightarrow> span" where
  "span_of n = (rt_start n, rt_stop n)"

definition join_of :: "rtree \<Rightarrow> span \<times> span" where
  "join_of n = (span_of (rt_left n), span_of (rt_right n))"

lemma foldl_snoc: "foldl (\<lambda>s n. s @ [f n]) s ns = s @ map f ns"
  by (induction ns arbitrary: s) simp_all

lemma plan_level_ok:
  assumes wf: "wf_rtree res el t"
  shows "check_plan_level (level_of t k) (map rt_type (frontier k t), map span_of (frontier k t), joins) =
    Inr (map rt_type (frontier (Suc k) t), map span_of (frontier (Suc k) t), joins @ map join_of (nodes_at (Suc k) t))"
proof -
  have "join_spans (op_of j n) (span_of (rt_left n)) (Some (span_of (rt_right n))) s = Inr (span_of n, s @ [join_of n])"
    if "(j, n) \<in> set (step_ops k 0 t)" for j n s
    using step_ops_node [OF wf that] by (cases n) (auto simp: join_spans_def span_of_def join_of_def)
  from merge_whole_frontier [OF wf by_left_level [OF wf], where g = span_of and upd = "\<lambda>n s. s @ [join_of n]"
      and s = joins, OF this]
  have "merge_pairs (by_left (level_ops k t)) join_spans 0 (map span_of (frontier k t)) joins =
      Inr (map span_of (frontier (Suc k) t), joins @ map join_of (nodes_at (Suc k) t))"
    by (simp add: foldl_snoc)
  moreover have "output_types (level_of t k) = Inr (map rt_type (frontier (Suc k) t))"
    using merge_whole_frontier [OF wf by_left_level [OF wf], where g = rt_type and upd = "\<lambda>_ _. ()" and s = "()"
        and join = "\<lambda>p _ _ s. Inr (op_result p, s)"]
    by (simp add: output_types_def level_of_def)
  ultimately show ?thesis by (simp add: check_plan_level_def level_of_def)
qed

lemma plan_levels_ok:
  assumes wf: "wf_rtree res el t"
  shows "foldE check_plan_level (map (level_of t) [0..<k]) (map rt_type (frontier 0 t), map span_of (frontier 0 t), []) =
    Inr (map rt_type (frontier k t), map span_of (frontier k t), map join_of (concat (map (\<lambda>h. nodes_at (Suc h) t) [0..<k])))"
proof (induction k)
  case (Suc k)
  then show ?case using plan_level_ok [OF wf] by (simp add: foldE_append)
qed simp

lemma all_joins:
  "wf_rtree res el t \<Longrightarrow> rt_height t \<le> k \<Longrightarrow>
    join_of ` (\<Union>h<k. set (nodes_at (Suc h) t)) = set (tree_joins t)"
proof (induction t)
  case (RNode a b t h l r c)
  let ?n = "RNode a b t h l r c"
  have h: "0 < h" "h \<le> k" "rt_height l < h" "rt_height r < h" using RNode.prems by auto
  have part: "(\<Union>g<k. set (nodes_at (Suc g) ?n)) = insert ?n ((\<Union>g<k. set (nodes_at (Suc g) l)) \<union> (\<Union>g<k. set (nodes_at (Suc g) r)))"
  proof -
    have "nodes_at (Suc g) l = [] \<and> nodes_at (Suc g) r = []" if "Suc g = h" for g
      using that h(3,4) RNode.prems(1) nodes_at_low [of res el l "Suc g"] nodes_at_low [of res el r "Suc g"] by auto
    then have "set (nodes_at (Suc g) ?n) = (if Suc g = h then {?n} else {}) \<union> set (nodes_at (Suc g) l) \<union> set (nodes_at (Suc g) r)" for g
      by auto
    moreover have "(\<Union>g<k. if Suc g = h then {?n} else {}) = {?n}"
    proof -
      have "h - 1 < k" "Suc (h - 1) = h" using h by simp_all
      then show ?thesis by (auto intro!: exI [of _ "h - 1"] split: if_splits)
    qed
    ultimately show ?thesis by (simp add: UN_Un_distrib)
  qed
  have "join_of ?n = ((rt_start l, rt_stop l), (rt_start r, rt_stop r))" by (simp add: join_of_def span_of_def)
  then show ?case using RNode h unfolding part by (simp add: image_Un)
qed simp

lemma mk_plan_ok:
  assumes wf: "wf_rtree res el t" and span: "rt_start t = 0" "rt_stop t = n" and n: "1 < n"
    and joins: "set (tree_joins t) = set (midpoint_joins 0 n)"
  shows "mk_plan (int n) el (rt_type t) (map (level_of t) [0..<rt_height t]) ''balanced_source_order'' =
    Inr \<lparr>pl_length = n, pl_leaf = el, pl_root = rt_type t, pl_levels = map (level_of t) [0..<rt_height t]\<rparr>"
proof -
  have "rt_height t \<noteq> 0" using wf span n by (cases t) auto
  moreover have "replicate n el = map rt_type (frontier 0 t)" "map (\<lambda>i. (i, Suc i)) [0..<n] = map span_of (frontier 0 t)"
    using frontier_leaves [OF wf] span by (simp_all add: comp_def span_of_def map_replicate_const)
  moreover have "set (map join_of (concat (map (\<lambda>h. nodes_at (Suc h) t) [0..<rt_height t]))) = set (midpoint_joins 0 n)"
    using all_joins [OF wf, of "rt_height t"] joins by (simp add: lessThan_atLeast0)
  ultimately show ?thesis
    using plan_levels_ok [OF wf, of "rt_height t"] frontier_low [of t "rt_height t"] n span
    by (simp add: mk_plan_def span_of_def Let_def)
qed

section \<open>The plan that is built\<close>

text \<open>The plan of a tree, and a tree's value over an interpretation of the combines.\<close>

definition plan_of :: "hwtype \<Rightarrow> nat \<Rightarrow> rtree \<Rightarrow> red_plan" where
  "plan_of el n t = \<lparr>pl_length = n, pl_leaf = el, pl_root = rt_type t,
     pl_levels = map (level_of t) [0..<rt_height t]\<rparr>"

lemma wf_height_0: "wf_rtree res el t \<Longrightarrow> rt_stop t = Suc (rt_start t) \<Longrightarrow> rt_height t = 0 \<and> rt_type t = el"
proof (cases t)
  case (RNode a b ty h l r c)
  assume "wf_rtree res el t" "rt_stop t = Suc (rt_start t)"
  then show ?thesis using RNode wf_span [of res el l] wf_span [of res el r] by simp
qed simp

lemma build_plan_of:
  assumes ok: "resolver_ok res" and n: "1 \<le> n" and t: "build_tree res el 0 (nat n) = Inr t"
  shows "build_exact_reduction_plan el n res = Inr (plan_of el (nat n) t)"
proof -
  have wf: "wf_rtree res el t" and span: "rt_start t = 0" "rt_stop t = nat n"
    and joins: "tree_joins t = midpoint_joins 0 (nat n)"
    using build_tree_wf [OF t] n by simp_all
  show ?thesis
  proof (cases "n = 1")
    case True
    then have "rt_height t = 0 \<and> rt_type t = el" using wf_height_0 [OF wf] span by simp
    then show ?thesis using True t by (simp add: build_exact_reduction_plan_def mk_plan_def plan_of_def Let_def)
  next
    case False
    have "map (\<lambda>i. RLeaf i (Suc i) el) [0..<nat n] = frontier 0 t" using frontier_leaves [OF wf] span by simp
    moreover have "frontier (rt_height t) t = [t]" by (simp add: frontier_low)
    moreover have "mk_plan n el (rt_type t) (map (level_of t) [0..<rt_height t]) ''balanced_source_order'' =
        Inr (plan_of el (nat n) t)"
      using mk_plan_ok [OF wf span] n False joins by (simp add: plan_of_def)
    ultimately show ?thesis
      using t n False build_levels_ok [OF ok wf order_refl] collect_heights [OF wf]
      by (simp add: build_exact_reduction_plan_def Let_def del: upt_Suc)
  qed
qed

section \<open>Running a plan\<close>

text \<open>
  A plan executed over values: at each level an operation combines the pair it names, by its
  declared function and result type, and every other value is carried.  \<open>midpoint_fold\<close> is what
  the plan stands for: the recursive fold that splits a range at its middle and asks the resolver
  how to combine the two halves; it returns the type and the value of the whole.
\<close>

definition run_level :: "(red_op \<Rightarrow> 'v \<Rightarrow> 'v \<Rightarrow> 'v) \<Rightarrow> red_level \<Rightarrow> 'v list \<Rightarrow> red_error + 'v list" where
  "run_level f lv vs = bindE (merge_pairs (by_left (lv_ops lv)) (\<lambda>p l r s. case r of
       None \<Rightarrow> Inl PythonIndexError | Some r \<Rightarrow> Inr (f p l r, s)) 0 vs ()) (\<lambda>r. Inr (fst r))"

definition run_plan :: "(red_op \<Rightarrow> 'v \<Rightarrow> 'v \<Rightarrow> 'v) \<Rightarrow> red_plan \<Rightarrow> 'v list \<Rightarrow> red_error + 'v list" where
  "run_plan f p vs = foldE (run_level f) (pl_levels p) vs"

definition op_combine :: "red_op \<Rightarrow> combine" where
  "op_combine p = \<lparr>cb_type = op_result p, cb_function = op_function p, cb_callee = op_callee p\<rparr>"

function midpoint_fold ::
    "resolver \<Rightarrow> hwtype \<Rightarrow> (combine \<Rightarrow> 'v \<Rightarrow> 'v \<Rightarrow> 'v) \<Rightarrow> (nat \<Rightarrow> 'v) \<Rightarrow> nat \<Rightarrow> nat \<Rightarrow> red_error + (hwtype \<times> 'v)" where
  "midpoint_fold res el f v a b = (if b \<le> Suc a then Inr (el, v a)
     else let m = a + (b - a) div 2 in
       bindE (midpoint_fold res el f v a m) (\<lambda>l. bindE (midpoint_fold res el f v m b) (\<lambda>r.
         bindE (res (fst l) (fst r)) (\<lambda>c. Inr (cb_type c, f c (snd l) (snd r))))))"
  by pat_completeness auto
termination by (relation "measure (\<lambda>(res, el, f, v, a, b). b - a)") auto

declare midpoint_fold.simps [simp del]

fun tree_value :: "(combine \<Rightarrow> 'v \<Rightarrow> 'v \<Rightarrow> 'v) \<Rightarrow> (nat \<Rightarrow> 'v) \<Rightarrow> rtree \<Rightarrow> 'v" where
  "tree_value f v (RLeaf a b t) = v a"
| "tree_value f v (RNode a b t h l r c) = f c (tree_value f v l) (tree_value f v r)"

lemma midpoint_fold_tree:
  "midpoint_fold res el f v a b = (case build_tree res el a b of
     Inl e \<Rightarrow> Inl e | Inr t \<Rightarrow> Inr (rt_type t, tree_value f v t))"
proof (induction res el f v a b rule: midpoint_fold.induct)
  case (1 res el f v a b)
  show ?case
  proof (cases "b \<le> Suc a")
    case True
    then show ?thesis by (simp add: midpoint_fold.simps build_tree.simps)
  next
    case False
    define m where "m = a + (b - a) div 2"
    have "build_tree res el a b = bindE (build_tree res el a m) (\<lambda>l. bindE (build_tree res el m b) (\<lambda>r.
         bindE (res (rt_type l) (rt_type r)) (\<lambda>c.
           Inr (RNode a b (cb_type c) (max (rt_height l) (rt_height r) + 1) l r c))))"
      using False by (subst build_tree.simps) (simp add: Let_def m_def)
    moreover have "midpoint_fold res el f v a b = bindE (midpoint_fold res el f v a m) (\<lambda>l. bindE (midpoint_fold res el f v m b) (\<lambda>r.
         bindE (res (fst l) (fst r)) (\<lambda>c. Inr (cb_type c, f c (snd l) (snd r)))))"
      using False by (subst midpoint_fold.simps) (simp add: Let_def m_def)
    ultimately show ?thesis
      using 1(1) [OF False m_def] 1(2) [OF False m_def]
      by (cases "build_tree res el a m"; cases "build_tree res el m b")
        (auto split: sum.splits simp: bindE_Inl_iff)
  qed
qed

lemma op_combine_of: "wf_rtree res el n \<Longrightarrow> 0 < rt_height n \<Longrightarrow> op_combine (op_of j n) = rt_combine n"
  by (cases n) (simp_all add: op_combine_def)

lemma run_level_ok:
  assumes wf: "wf_rtree res el t"
  shows "run_level (\<lambda>p. f (op_combine p)) (level_of t k) (map (tree_value f v) (frontier k t)) =
    Inr (map (tree_value f v) (frontier (Suc k) t))"
proof -
  let ?join = "\<lambda>p l r s. case r of None \<Rightarrow> Inl PythonIndexError | Some r \<Rightarrow> Inr (f (op_combine p) l r, s)"
  have "?join (op_of j n) (tree_value f v (rt_left n)) (Some (tree_value f v (rt_right n))) s = Inr (tree_value f v n, ())"
    if "(j, n) \<in> set (step_ops k 0 t)" for j n and s :: unit
    using step_ops_node [OF wf that] op_combine_of [of res el n j] by (cases n) auto
  from merge_whole_frontier [OF wf by_left_level [OF wf], where g = "tree_value f v" and upd = "\<lambda>_ _. ()" and s = "()"
      and join = ?join, OF this]
  show ?thesis by (simp add: run_level_def level_of_def)
qed

lemma run_plan_of:
  assumes wf: "wf_rtree res el t"
  shows "k \<le> rt_height t \<Longrightarrow>
    foldE (run_level (\<lambda>p. f (op_combine p))) (map (level_of t) [0..<k]) (map (tree_value f v) (frontier 0 t)) =
    Inr (map (tree_value f v) (frontier k t))"
proof (induction k)
  case (Suc k)
  then show ?case using run_level_ok [OF wf] by (simp add: foldE_append)
qed simp

lemma leaf_values:
  "wf_rtree res el t \<Longrightarrow> rt_start t = 0 \<Longrightarrow> rt_stop t = length vs \<Longrightarrow> map (tree_value f ((!) vs)) (frontier 0 t) = vs"
  by (simp add: frontier_leaves comp_def map_nth)

text \<open>
  C32: under a resolver whose combines are validated, the schedule builder never fails an
  internal check or a validation of the records it builds.  It passes on a refusal of the
  resolver, or returns a plan for the given number of elements, rooted in the type of the
  midpoint fold, whose levels run over any values and with any interpretation of the combines
  leave exactly the one value of the midpoint fold.
\<close>

theorem reduction_plan_builds:
  assumes "resolver_ok res" "1 \<le> n" "length vs = nat n"
  shows "case midpoint_fold res el f ((!) vs) 0 (nat n) of
      Inl e \<Rightarrow> build_exact_reduction_plan el n res = Inl e
    | Inr (t, x) \<Rightarrow> \<exists>p. build_exact_reduction_plan el n res = Inr p \<and> pl_length p = nat n \<and>
        pl_leaf p = el \<and> pl_root p = t \<and> run_plan (\<lambda>p. f (op_combine p)) p vs = Inr [x]"
proof (cases "build_tree res el 0 (nat n)")
  case (Inl e)
  then show ?thesis using assms(2) by (simp add: build_exact_reduction_plan_def midpoint_fold_tree)
next
  case (Inr t)
  then have t: "build_exact_reduction_plan el n res = Inr (plan_of el (nat n) t)"
    "wf_rtree res el t" "rt_start t = 0" "rt_stop t = length vs"
    using build_plan_of [OF assms(1,2) Inr] build_tree_wf [OF Inr] assms(2,3) by simp_all
  have "run_plan (\<lambda>p. f (op_combine p)) (plan_of el (nat n) t) vs = Inr [tree_value f ((!) vs) t]"
    using run_plan_of [OF t(2) order_refl, of f "(!) vs"] leaf_values [OF t(2-4)]
    by (simp add: run_plan_def plan_of_def frontier_low)
  then show ?thesis using t(1) Inr by (simp add: plan_of_def midpoint_fold_tree)
qed

definition builtin_resolver :: resolver where
  "builtin_resolver l r = bindE (builtin_exact_add_result_type l r)
     (\<lambda>t. Inr \<lparr>cb_type = t, cb_function = None, cb_callee = None\<rparr>)"

lemma builtin_resolver_ok: "resolver_ok builtin_resolver"
  by (auto simp: resolver_ok_def builtin_resolver_def mk_combine_def)

theorem reduction_plan_builds_witness:
  "case midpoint_fold builtin_resolver (SIntType 5) (\<lambda>c l r. CHR ''('' # l @ r @ '')'') ((!) [''a'', ''b'', ''c'', ''d'', ''e'']) 0 (nat 5) of
      Inl e \<Rightarrow> build_exact_reduction_plan (SIntType 5) 5 builtin_resolver = Inl e
    | Inr (t, x) \<Rightarrow> \<exists>p. build_exact_reduction_plan (SIntType 5) 5 builtin_resolver = Inr p \<and> pl_length p = nat 5 \<and>
        pl_leaf p = SIntType 5 \<and> pl_root p = t \<and>
        run_plan (\<lambda>p. (\<lambda>c l r. CHR ''('' # l @ r @ '')'') (op_combine p)) p [''a'', ''b'', ''c'', ''d'', ''e''] = Inr [x]"
  by (rule reduction_plan_builds) (simp_all add: builtin_resolver_ok)

section \<open>Exact sums\<close>

abbreviation add_tree :: "(nat \<Rightarrow> int) \<Rightarrow> rtree \<Rightarrow> int" where
  "add_tree \<equiv> tree_value (\<lambda>_. (+))"

lemma add_tree_sum: "wf_rtree res el t \<Longrightarrow> add_tree v t = (\<Sum>i\<leftarrow>[rt_start t..<rt_stop t]. v i)"
proof (induction t)
  case (RNode a b ty h l r c)
  have "rt_start l \<le> rt_stop l" "rt_start r \<le> rt_stop r" using RNode.prems wf_span [of res el l] wf_span [of res el r] by simp_all
  then have "[rt_start l..<rt_stop r] = [rt_start l..<rt_stop l] @ [rt_start r..<rt_stop r]"
    using RNode.prems upt_add_eq_append [of "rt_start l" "rt_stop l" "rt_stop r - rt_stop l"] by simp
  then show ?case using RNode by simp
qed simp

text \<open>Every sum at a node of the tree fits the type of the node.\<close>

fun tree_fits :: "(nat \<Rightarrow> int) \<Rightarrow> rtree \<Rightarrow> bool" where
  "tree_fits v (RLeaf a b t) = int_fits (v a) t"
| "tree_fits v (RNode a b t h l r c) = (int_fits (add_tree v (RNode a b t h l r c)) t \<and> tree_fits v l \<and> tree_fits v r)"

lemma builtin_add_exact:
  assumes "builtin_exact_add_result_type l r = Inr t" "wf_type l" "wf_type r"
  shows "wf_type t" and "int_fits x l \<Longrightarrow> int_fits y r \<Longrightarrow> int_fits (x + y) t"
proof -
  obtain ru where ru: "addition_rule l r = Inr ru" "t = result_type ru"
    using assms(1) by (auto simp: builtin_exact_add_result_type_def split: sum.splits reason.splits)
  then have c: "family_of l = family_of r" "addition_cases l r = Inr t" by (simp_all add: rule_Inr)
  then show "wf_type t" using rule_cases_wf [OF c(1) assms(2,3)] by blast
  show "int_fits x l \<Longrightarrow> int_fits y r \<Longrightarrow> int_fits (x + y) t"
    using addition_cases_exact [OF c assms(2,3)] by blast
qed

lemma builtin_tree_fits:
  "wf_rtree builtin_resolver el t \<Longrightarrow> wf_type el \<Longrightarrow> (\<And>i. rt_start t \<le> i \<Longrightarrow> i < rt_stop t \<Longrightarrow> int_fits (v i) el) \<Longrightarrow>
    wf_type (rt_type t) \<and> int_fits (add_tree v t) (rt_type t) \<and> tree_fits v t"
proof (induction t)
  case (RNode a b ty h l r c)
  have "rt_start l < rt_stop l" "rt_start r < rt_stop r" using RNode.prems(1) wf_span [of builtin_resolver el l] wf_span [of builtin_resolver el r] by auto
  then have "wf_type (rt_type l) \<and> int_fits (add_tree v l) (rt_type l) \<and> tree_fits v l"
    using RNode.prems by (intro RNode.IH(1)) auto
  moreover have "wf_type (rt_type r) \<and> int_fits (add_tree v r) (rt_type r) \<and> tree_fits v r"
    using RNode.prems \<open>rt_start l < rt_stop l\<close> by (intro RNode.IH(2)) auto
  moreover have "builtin_exact_add_result_type (rt_type l) (rt_type r) = Inr ty"
    using RNode.prems(1) by (auto simp: builtin_resolver_def)
  ultimately show ?case using builtin_add_exact by simp
qed simp

lemma tree_fits_frontier:
  "wf_rtree res el t \<Longrightarrow> tree_fits v t \<Longrightarrow> n \<in> set (frontier k t) \<Longrightarrow> int_fits (add_tree v n) (rt_type n)"
  by (induction t) (auto split: if_splits)

text \<open>
  C33: the plan of the built-in exact addition sums its inputs without losing a bit: running
  its levels over values of the element type leaves exactly the sum, which fits the root
  type, and before each level every value fits the type the level declares for it.
\<close>

theorem exact_reduction_sums:
  assumes "build_exact_reduction_plan el (int (length vs)) builtin_resolver = Inr p" "wf_type el" "\<forall>v\<in>set vs. int_fits v el"
  shows "run_plan (\<lambda>_. (+)) p vs = Inr [sum_list vs] \<and> int_fits (sum_list vs) (pl_root p) \<and>
    (\<forall>k<length (pl_levels p). \<exists>us. foldE (run_level (\<lambda>_. (+))) (take k (pl_levels p)) vs = Inr us \<and>
       list_all2 int_fits us (lv_inputs (pl_levels p ! k)))"
proof -
  let ?n = "length vs" and ?v = "(!) vs"
  have n: "1 \<le> int ?n" using assms(1) by (cases vs) (simp_all add: build_exact_reduction_plan_def)
  obtain t where t: "build_tree builtin_resolver el 0 ?n = Inr t"
    using assms(1) n by (auto simp: build_exact_reduction_plan_def split: if_splits)
  have wf: "wf_rtree builtin_resolver el t" and span: "rt_start t = 0" "rt_stop t = ?n"
    using build_tree_wf [OF t] n by (simp_all add: Suc_le_eq)
  have p: "p = plan_of el ?n t" using build_plan_of [OF builtin_resolver_ok n] t assms(1) by simp
  have leaves: "map (add_tree ?v) (frontier 0 t) = vs" by (rule leaf_values [OF wf span])
  have fits: "int_fits (add_tree ?v t) (rt_type t)" "tree_fits ?v t"
    using builtin_tree_fits [OF wf assms(2), of ?v] span assms(3) by simp_all
  have sum: "add_tree ?v t = sum_list vs" using add_tree_sum [OF wf, of ?v] span by (simp add: map_nth)
  have run: "foldE (run_level (\<lambda>_. (+))) (map (level_of t) [0..<k]) vs = Inr (map (add_tree ?v) (frontier k t))"
    if "k \<le> rt_height t" for k
    using run_plan_of [OF wf that, of "\<lambda>_. (+)" ?v] leaves by simp
  have "run_plan (\<lambda>_. (+)) p vs = Inr [sum_list vs]"
    using run [of "rt_height t"] sum by (simp add: p plan_of_def run_plan_def frontier_low)
  moreover have "foldE (run_level (\<lambda>_. (+))) (take k (pl_levels p)) vs = Inr (map (add_tree ?v) (frontier k t)) \<and>
      list_all2 int_fits (map (add_tree ?v) (frontier k t)) (lv_inputs (pl_levels p ! k))" if "k < length (pl_levels p)" for k
  proof -
    have k: "k < rt_height t" using that by (simp add: p plan_of_def)
    then have "take k (map (level_of t) [0..<rt_height t]) = map (level_of t) [0..<k]" by (simp add: take_map)
    then show ?thesis
      using run [of k] k tree_fits_frontier [OF wf fits(2) nth_mem]
      by (simp add: p plan_of_def level_of_def list_all2_conv_all_nth)
  qed
  ultimately show ?thesis using fits(1) sum by (auto simp: p plan_of_def)
qed

theorem exact_reduction_sums_witness:
  "\<exists>p. build_exact_reduction_plan (SIntType 4) 5 builtin_resolver = Inr p \<and>
    run_plan (\<lambda>_. (+)) p [-8, 7, -8, -8, -8 :: int] = Inr [- 25] \<and>
    int_fits (- 25) (pl_root p)"
proof -
  obtain t where "build_tree builtin_resolver (SIntType 4) 0 (nat 5) = Inr t"
    by (simp add: build_tree.simps Let_def builtin_resolver_def builtin_exact_add_result_type_def rule_defs case_defs guardE_def)
  then obtain p where p: "build_exact_reduction_plan (SIntType 4) 5 builtin_resolver = Inr p"
    using build_plan_of [OF builtin_resolver_ok, of 5 "SIntType 4" t] by auto
  then show ?thesis
    using exact_reduction_sums [of "SIntType 4" "[-8, 7, -8, -8, -8]" p] by simp
qed

end
