(* ===== verification/Exprs.thy ===== *)
theory Exprs
  imports Runtime_Values Comptime Reduction Fixed_Point
begin

text \<open>
  Typed expressions, \<^verbatim>\<open>zlang/ir/expressions.py\<close>.  The classes the compile-time evaluator and
  the simplifier look at are constructors of \<open>hw_expr\<close>; every other class is \<open>EOther\<close> with
  its class name and its operand expressions.  A class with a \<^verbatim>\<open>__post_init__\<close> has a
  validating function \<open>mk_...\<close> that makes its checks in the source's order.
\<close>

section \<open>Data\<close>

datatype bin_op =
    OpSubtract | OpMultiply | OpBitAnd | OpBitOr | OpBitXor | OpShiftLeft | OpShiftRight
  | OpEqual | OpNotEqual | OpLess | OpLessEqual | OpGreater | OpGreaterEqual

datatype reduce_op = RedAdd | RedMultiply | RedBitAnd | RedBitOr | RedBitXor

datatype read_kind = InputRead | ParameterRead | RegisterRead

datatype rv_signal = RvPayload | RvValid | RvReady | RvTransfer

datatype credit_signal = CrPayload | CrSend | CrReturn | CrTransfer | CrCredits

datatype packet_signal = PkPayload | PkValid | PkReady | PkLast | PkTransfer

datatype vc_signal = VcPayload | VcChannel | VcSend | VcReturn | VcReturnChannel | VcTransfer | VcCredits

datatype rr_channel = RequestChannel | ResponseChannel

datatype conversion = ConvRescale | ConvFromRaw | ConvToRaw

datatype cast_kind = CastBits | CastPack | CastUnpack

type_synonym value_range = "int \<times> int"
type_synonym capture_ref = "string \<times> string \<times> hwtype"

datatype region_kind = GenerateRegion | MapRegion

text \<open>
  \<^verbatim>\<open>FunctionalSpecializationCertificate\<close>: the lifted arguments, the identities it freezes and
  the number of virtual instances it claims.
\<close>

record certificate =
  ce_declaration :: string
  ce_dependencies :: "(string \<times> string) list"
  ce_invariant :: "(string \<times> string) list"
  ce_lifted :: "(string \<times> ct_expr) list"
  ce_owner :: string
  ce_parameters :: "hwtype list"
  ce_return :: hwtype
  ce_body :: string
  ce_instances :: int
  ce_schema :: string

datatype hw_expr =
    EConst int hwtype
  | ERead read_kind string hwtype
  | EReadyValid string rv_signal hwtype
  | ECredit string credit_signal hwtype
  | EPacket string packet_signal hwtype
  | EVcCredit string vc_signal hwtype
  | ERequestResponse string rr_channel rv_signal hwtype
  | EAdd hw_expr hw_expr hwtype
  | EBinary bin_op hw_expr hw_expr hwtype hwtype
  | EExtend hw_expr hwtype
  | ETruncate hw_expr hwtype
  | EFixedConvert hw_expr string string conversion "int option" hwtype
  | EMux hw_expr hw_expr hw_expr hwtype
  | ESwitch hw_expr "(int \<times> hw_expr) list" hw_expr hwtype
  | EField hw_expr string hwtype
  | EEnumEncode hw_expr hwtype
  | EEnumValid hw_expr enum_decl hwtype
  | EEnumDecode hw_expr hw_expr enum_decl
  | EStruct string "(string \<times> hw_expr) list" hwtype
  | ETuple "hw_expr list" hwtype
  | EProject hw_expr nat hwtype
  | EUnion string "(string \<times> hw_expr) list" hwtype
  | EUnionTag hw_expr hwtype
  | EUnionField hw_expr string string hwtype
  | ECapture capture_ref
  | EFuncValue ct_expr hwtype
  | ELookup string ct_expr hwtype "value_range option"
  | EIndex hw_expr ct_operand hwtype
  | ERuntimeIndex hw_expr hw_expr nat value_range hwtype
  | EUpdate hw_expr hw_expr hw_expr nat value_range hwtype
  | ESlice hw_expr int int hwtype
  | EConcat "hw_expr list" hwtype
  | ECast cast_kind hw_expr hwtype
  | EVecConcat "hw_expr list" hwtype
  | EReshape hw_expr hwtype
  | EElements "hw_expr list" hwtype
  | ERegion region_kind ct_binder hw_expr "(string \<times> hw_expr list \<times> hwtype \<times> int) list"
      "(capture_ref \<times> hw_expr) list" "certificate list" hwtype
  | EReduce reduce_op hw_expr hwtype "hw_expr option" "red_plan option"
  | EOther string "hw_expr list" hwtype

type_synonym func_table = "string \<times> hw_expr list \<times> hwtype \<times> int"

fun type_of :: "hw_expr \<Rightarrow> hwtype" where
  "type_of (EConst v t) = t"
| "type_of (ERead k n t) = t"
| "type_of (EReadyValid n s t) = t"
| "type_of (ECredit n cs t) = t"
| "type_of (EPacket n ps t) = t"
| "type_of (EVcCredit n vs t) = t"
| "type_of (ERequestResponse n rc s t) = t"
| "type_of (EAdd l r t) = t"
| "type_of (EBinary p l r ot t) = t"
| "type_of (EExtend e t) = t"
| "type_of (ETruncate e t) = t"
| "type_of (EFixedConvert e r p k d t) = t"
| "type_of (EMux c a b t) = t"
| "type_of (ESwitch c cs d t) = t"
| "type_of (EField e f t) = t"
| "type_of (EEnumEncode e t) = t"
| "type_of (EEnumValid e d t) = t"
| "type_of (EEnumDecode e f d) = EnumType d"
| "type_of (EStruct n fs t) = t"
| "type_of (ETuple es t) = t"
| "type_of (EProject e i t) = t"
| "type_of (EUnion v fs t) = t"
| "type_of (EUnionTag e t) = t"
| "type_of (EUnionField e v f t) = t"
| "type_of (ECapture c) = snd (snd c)"
| "type_of (EFuncValue c t) = t"
| "type_of (ELookup n i t r) = t"
| "type_of (EIndex e i t) = t"
| "type_of (ERuntimeIndex e i n r t) = t"
| "type_of (EUpdate e i v n r t) = t"
| "type_of (ESlice e m l t) = t"
| "type_of (EConcat es t) = t"
| "type_of (ECast k e t) = t"
| "type_of (EVecConcat es t) = t"
| "type_of (EReshape e t) = t"
| "type_of (EElements es t) = t"
| "type_of (ERegion k b e ts cs cts t) = t"
| "type_of (EReduce p e t x pl) = t"
| "type_of (EOther n es t) = t"

section \<open>Validated constructors\<close>

datatype expr_error =
    TupleElementTypes | ProjectNeedsTuple | ProjectRange | ProjectType
  | UnionVariant string | UnionFields | UnionFieldType | TagNeedsUnion | TagWidth
  | FieldNeedsUnion | FieldDeclaration
  | CaptureIdentity | CaptureName | ValueNotUnsigned | ValueRange | Comptime ct_error
  | LookupName | LookupRangeType | LookupRange
  | IndexNeedsVector | IndexResult | IndexNotCompileTime | IndexRange
  | TableName | TableEmpty string | TableTypes string
  | CertificateSchema | CertificateIdentity | CertificateArguments | CertificateOwner | CertificateCount
  | ReduceBoth | ReduceOperator | ReduceNeedsVector | ReduceLength | ReduceLeaf | ReduceRoot
  | RtIndexLength | RtIndexSelector | RtIndexRange
  | UpdateResult | UpdateValue | RangeInverted
  | RegionVector | RegionLength | RegionTemplate | RegionCertificate | RegionCertificateCount
  | RegionTables | RegionCaptureIds | RegionCaptureType string | RegionImpure | RegionCaptureImpure
  | RegionForeignBinder | RegionUndeclaredCapture string | RegionUnknownTable string
  | RegionTableType string | RegionTableRange string

fun is_unsigned_integral :: "hwtype \<Rightarrow> bool" where
  "is_unsigned_integral (UIntType _) = True"
| "is_unsigned_integral (BitsType _) = True"
| "is_unsigned_integral _ = False"

definition mk_tuple_expr :: "hw_expr list \<Rightarrow> hwtype list \<Rightarrow> expr_error + hw_expr" where
  "mk_tuple_expr es ts = (if map type_of es \<noteq> ts then Inl TupleElementTypes else Inr (ETuple es (TupleType ts)))"

definition mk_project :: "hw_expr \<Rightarrow> int \<Rightarrow> hwtype \<Rightarrow> expr_error + hw_expr" where
  "mk_project e i t = (case type_of e of
       TupleType ts \<Rightarrow> if \<not> (0 \<le> i \<and> i < int (length ts)) then Inl ProjectRange
         else if t \<noteq> ts ! nat i then Inl ProjectType else Inr (EProject e (nat i) t)
     | _ \<Rightarrow> Inl ProjectNeedsTuple)"

definition mk_union_expr :: "string \<Rightarrow> (string \<times> hw_expr) list \<Rightarrow> string \<Rightarrow> union_variant list \<Rightarrow> string \<Rightarrow> expr_error + hw_expr" where
  "mk_union_expr var fs n vs d = (case union_variant_of vs var of
       None \<Rightarrow> Inl (UnionVariant var)
     | Some decl \<Rightarrow> if map fst fs \<noteq> map fst (snd decl) then Inl UnionFields
         else if map (\<lambda>f. type_of (snd f)) fs \<noteq> map snd (snd decl) then Inl UnionFieldType
         else Inr (EUnion var fs (TaggedUnionType n vs d)))"

definition mk_union_tag :: "hw_expr \<Rightarrow> hwtype \<Rightarrow> expr_error + hw_expr" where
  "mk_union_tag e t = (case type_of e of
       TaggedUnionType n vs d \<Rightarrow> if t \<noteq> BitsType (tag_width vs) then Inl TagWidth else Inr (EUnionTag e t)
     | _ \<Rightarrow> Inl TagNeedsUnion)"

definition mk_union_field_expr :: "hw_expr \<Rightarrow> string \<Rightarrow> string \<Rightarrow> hwtype \<Rightarrow> expr_error + hw_expr" where
  "mk_union_field_expr e var f t = (case type_of e of
       TaggedUnionType n vs d \<Rightarrow> (case Option.bind (union_variant_of vs var) (\<lambda>v. struct_field_of (snd v) f) of
           None \<Rightarrow> Inl FieldDeclaration
         | Some p \<Rightarrow> if snd p \<noteq> t then Inl FieldDeclaration else Inr (EUnionField e var f t))
     | _ \<Rightarrow> Inl FieldNeedsUnion)"

definition mk_capture :: "string \<Rightarrow> string \<Rightarrow> hwtype \<Rightarrow> expr_error + hw_expr" where
  "mk_capture i n t = (if i = [] then Inl CaptureIdentity else if n = [] then Inl CaptureName
     else Inr (ECapture (i, n, t)))"

definition liftC :: "ct_error + 'a \<Rightarrow> expr_error + 'a" where
  "liftC r = (case r of Inl e \<Rightarrow> Inl (Comptime e) | Inr x \<Rightarrow> Inr x)"

lemma liftC_Inr [simp]: "liftC r = Inr x \<longleftrightarrow> r = Inr x"
  by (simp add: liftC_def split: sum.splits)

definition mk_func_value :: "ct_expr \<Rightarrow> hwtype \<Rightarrow> expr_error + hw_expr" where
  "mk_func_value c t = (if \<not> is_unsigned_integral t then Inl ValueNotUnsigned
     else bindE (liftC (compile_time_range c)) (\<lambda>r.
       if fst r < 0 \<or> snd r \<ge> 2 ^ width t then Inl ValueRange else Inr (EFuncValue c t)))"

definition mk_value_range :: "int \<Rightarrow> int \<Rightarrow> expr_error + value_range" where
  "mk_value_range lo hi = (if lo > hi then Inl RangeInverted else Inr (lo, hi))"

definition mk_lookup :: "string \<Rightarrow> ct_expr \<Rightarrow> hwtype \<Rightarrow> value_range option \<Rightarrow> expr_error + hw_expr" where
  "mk_lookup n i t vr =
     (if n = [] then Inl LookupName
      else let vr' = (if vr = None \<and> is_unsigned_integral t then Some (0, ones (width t)) else vr) in
        (case vr' of None \<Rightarrow> Inr (ELookup n i t None)
         | Some r \<Rightarrow> if \<not> is_unsigned_integral t then Inl LookupRangeType
             else if fst r < 0 \<or> snd r > ones (width t) then Inl LookupRange
             else Inr (ELookup n i t (Some r))))"

definition mk_index :: "hw_expr \<Rightarrow> ct_operand \<Rightarrow> hwtype \<Rightarrow> expr_error + hw_expr" where
  "mk_index e i t = (case type_of e of
       VecType n el \<Rightarrow> if t \<noteq> el then Inl IndexResult
         else if is_op_ref i then Inl IndexNotCompileTime
         else bindE (liftC (operand_range i)) (\<lambda>r.
           if fst r < 0 \<or> snd r \<ge> int n then Inl IndexRange else Inr (EIndex e i t))
     | _ \<Rightarrow> Inl IndexNeedsVector)"

definition mk_runtime_index :: "hw_expr \<Rightarrow> hw_expr \<Rightarrow> nat \<Rightarrow> value_range \<Rightarrow> hwtype \<Rightarrow> expr_error + hw_expr" where
  "mk_runtime_index e i n r t = (case type_of e of
       VecType m el \<Rightarrow> if n \<noteq> m then Inl RtIndexLength
         else if t \<noteq> el then Inl IndexResult
         else if \<not> is_unsigned_integral (type_of i) then Inl RtIndexSelector
         else if fst r < 0 \<or> snd r \<ge> int n then Inl RtIndexRange
         else Inr (ERuntimeIndex e i n r t)
     | _ \<Rightarrow> Inl IndexNeedsVector)"

definition mk_update :: "hw_expr \<Rightarrow> hw_expr \<Rightarrow> hw_expr \<Rightarrow> nat \<Rightarrow> value_range \<Rightarrow> hwtype \<Rightarrow> expr_error + hw_expr" where
  "mk_update e i v n r t = (case type_of e of
       VecType m el \<Rightarrow> if t \<noteq> VecType m el then Inl UpdateResult
         else if n \<noteq> m then Inl RtIndexLength
         else if type_of v \<noteq> el then Inl UpdateValue
         else if \<not> is_unsigned_integral (type_of i) then Inl RtIndexSelector
         else if fst r < 0 \<or> snd r \<ge> int n then Inl RtIndexRange
         else Inr (EUpdate e i v n r t)
     | _ \<Rightarrow> Inl IndexNeedsVector)"

text \<open>\<^verbatim>\<open>FunctionalTable\<close>, \<^verbatim>\<open>FunctionalSpecializationCertificate\<close> and \<^verbatim>\<open>Reduce\<close>.\<close>

definition mk_table :: "string \<Rightarrow> hw_expr list \<Rightarrow> hwtype \<Rightarrow> int \<Rightarrow> expr_error + func_table" where
  "mk_table n vs t start =
     (if n = [] then Inl TableName
      else if vs = [] then Inl (TableEmpty n)
      else if \<exists>v\<in>set vs. type_of v \<noteq> t then Inl (TableTypes n)
      else Inr (n, vs, t, start))"

definition table_name :: "func_table \<Rightarrow> string" where "table_name tb = fst tb"
definition table_values :: "func_table \<Rightarrow> hw_expr list" where "table_values tb = fst (snd tb)"
definition table_type :: "func_table \<Rightarrow> hwtype" where "table_type tb = fst (snd (snd tb))"
definition table_start :: "func_table \<Rightarrow> int" where "table_start tb = snd (snd (snd tb))"
definition table_stop :: "func_table \<Rightarrow> int" where
  "table_stop tb = table_start tb + int (length (table_values tb))"

lemmas table_defs = table_name_def table_values_def table_type_def table_start_def table_stop_def

definition certificate_schema :: string where
  "certificate_schema = ''zlang-functional-specialization-certificate-v2''"

definition mk_certificate :: "certificate \<Rightarrow> expr_error + certificate" where
  "mk_certificate c =
     (if ce_schema c \<noteq> certificate_schema then Inl CertificateSchema
      else if ce_declaration c = [] \<or> ce_body c = [] then Inl CertificateIdentity
      else if ce_lifted c = [] \<or> \<not> distinct (map fst (ce_lifted c)) then Inl CertificateArguments
      else if ce_owner c = [] then Inl CertificateOwner
      else if ce_instances c < 1 then Inl CertificateCount
      else Inr c)"

definition mk_reduce :: "reduce_op \<Rightarrow> hw_expr \<Rightarrow> hwtype \<Rightarrow> hw_expr option \<Rightarrow> red_plan option \<Rightarrow> expr_error + hw_expr" where
  "mk_reduce p e t x plan = (case plan of
       None \<Rightarrow> Inr (EReduce p e t x None)
     | Some pl \<Rightarrow> if x \<noteq> None then Inl ReduceBoth
         else if p \<noteq> RedAdd then Inl ReduceOperator
         else (case type_of e of
             VecType n el \<Rightarrow> if n \<noteq> pl_length pl then Inl ReduceLength
               else if el \<noteq> pl_leaf pl then Inl ReduceLeaf
               else if t \<noteq> pl_root pl then Inl ReduceRoot
               else Inr (EReduce p e t x plan)
           | _ \<Rightarrow> Inl ReduceNeedsVector))"

section \<open>Functional regions\<close>

text \<open>The direct subexpressions a walk over the dataclass fields meets.\<close>

fun children :: "hw_expr \<Rightarrow> hw_expr list" where
  "children (EAdd l r t) = [l, r]"
| "children (EBinary p l r ot t) = [l, r]"
| "children (EExtend e t) = [e]"
| "children (ETruncate e t) = [e]"
| "children (EFixedConvert e r p k d t) = [e]"
| "children (EMux c a b t) = [c, a, b]"
| "children (ESwitch c cs d t) = c # map snd cs @ [d]"
| "children (EField e f t) = [e]"
| "children (EEnumEncode e t) = [e]"
| "children (EEnumValid e d t) = [e]"
| "children (EEnumDecode e f d) = [e, f]"
| "children (EStruct n fs t) = map snd fs"
| "children (ETuple es t) = es"
| "children (EProject e i t) = [e]"
| "children (EUnion v fs t) = map snd fs"
| "children (EUnionTag e t) = [e]"
| "children (EUnionField e v f t) = [e]"
| "children (EIndex e i t) = [e]"
| "children (ERuntimeIndex e i n r t) = [e, i]"
| "children (EUpdate e i v n r t) = [e, i, v]"
| "children (ESlice e m l t) = [e]"
| "children (EConcat es t) = es"
| "children (ECast k e t) = [e]"
| "children (EVecConcat es t) = es"
| "children (EReshape e t) = [e]"
| "children (EElements es t) = es"
| "children (ERegion k b e ts cs cts t) = e # concat (map (\<lambda>x. fst (snd x)) ts) @ map snd cs"
| "children (EReduce p e t x pl) = e # (case x of None \<Rightarrow> [] | Some y \<Rightarrow> [y])"
| "children (EOther n es t) = es"
| "children _ = []"

lemma size_list_member: "x \<in> set xs \<Longrightarrow> f x < size_list f xs"
  by (induction xs) auto

lemma children_size [termination_simp]: "c \<in> set (children e) \<Longrightarrow> size c < size e"
proof (cases e)
  case (ERegion kk b x ts cs cts t)
  assume "c \<in> set (children e)"
  then consider "c = x" | n vs w l where "(n, vs, w, l) \<in> set ts" "c \<in> set vs" | k where "(k, c) \<in> set cs"
    using ERegion by auto
  then show ?thesis
  proof cases
    case 2
    let ?f = "size_prod (\<lambda>_. 0) (size_prod (size_list size) (\<lambda>_. 0))"
    have "size c < size_list size vs" using 2(2) by (rule size_list_member)
    also have "\<dots> < ?f (n, vs, w, l)" by simp
    also have "\<dots> < size_list ?f ts" using 2(1) by (rule size_list_member)
    finally show ?thesis using ERegion by simp
  next
    case 3
    have "size c < size_prod (\<lambda>_. 0) size (k, c)" by simp
    also have "\<dots> < size_list (size_prod (\<lambda>_. 0) size) cs" using 3 by (rule size_list_member)
    finally show ?thesis using ERegion by simp
  qed (use ERegion in simp)
qed (auto split: option.splits dest: size_list_member [where f = size] size_list_member [where f = "size_prod (\<lambda>_. 0) size"])

text \<open>
  A walk over the dataclass fields that does not descend below a node where \<open>halt\<close> holds: the
  nodes it meets, in order.  \<^verbatim>\<open>_functional_references\<close>, \<^verbatim>\<open>_functional_binder_identities\<close>,
  \<^verbatim>\<open>_functional_binders\<close> and the two effect checks are such walks; each halts at a nested region.
\<close>

function walk :: "(hw_expr \<Rightarrow> bool) \<Rightarrow> hw_expr \<Rightarrow> hw_expr list" where
  "walk halt e = e # (if halt e then [] else concat (map (walk halt) (children e)))"
  by pat_completeness auto
termination by (relation "measure (\<lambda>(halt, e). size e)") (auto simp: children_size)

declare walk.simps [simp del]

lemma walk_simps [simp]:
  "halt e \<Longrightarrow> walk halt e = [e]"
  "\<not> halt e \<Longrightarrow> walk halt e = e # concat (map (walk halt) (children e))"
  by (simp_all add: walk.simps [of halt e])

fun is_region :: "hw_expr \<Rightarrow> bool" where
  "is_region (ERegion k b e ts cs cts t) = True" | "is_region _ = False"

definition functional_captures :: "hw_expr list \<Rightarrow> capture_ref list" where
  "functional_captures es = concat (map (\<lambda>e. concat (map (\<lambda>x. case x of ECapture c \<Rightarrow> [c] | _ \<Rightarrow> []) (walk is_region e))) es)"

type_synonym table_use = "string \<times> ct_expr \<times> hwtype"

definition functional_lookups :: "hw_expr list \<Rightarrow> table_use list" where
  "functional_lookups es = concat (map (\<lambda>e. concat (map (\<lambda>x. case x of ELookup n i t r \<Rightarrow> [(n, i, t)] | _ \<Rightarrow> []) (walk is_region e))) es)"

fun own_binders :: "hw_expr \<Rightarrow> ct_binder list" where
  "own_binders (EFuncValue c t) = ct_binders c"
| "own_binders (ELookup n c t r) = ct_binders c"
| "own_binders (EIndex e c t) = operand_binders c"
| "own_binders _ = []"

definition functional_binders :: "hw_expr list \<Rightarrow> ct_binder list" where
  "functional_binders es = concat (map (\<lambda>e. concat (map own_binders (walk is_region e))) es)"

definition functional_binder_identities :: "hw_expr list \<Rightarrow> string set" where
  "functional_binder_identities es = bd_identity ` set (functional_binders es)"

text \<open>The classes that are effects wherever they occur.\<close>

definition effect_classes :: "string list" where
  "effect_classes = [''FifoRef'', ''MemoryRef'', ''RomRef'', ''Delay'', ''Pipeline'', ''ImplementationChoice'']"

fun value_effect :: "hw_expr \<Rightarrow> bool" where
  "value_effect (EReadyValid n s t) = (s \<noteq> RvPayload)"
| "value_effect (ERead k n t) = (k = RegisterRead)"
| "value_effect (ECredit n cs t) = True"
| "value_effect (EPacket n ps t) = True"
| "value_effect (EVcCredit n vs t) = True"
| "value_effect (ERequestResponse n rc s t) = True"
| "value_effect (EOther c es t) = (c \<in> set effect_classes)"
| "value_effect _ = False"

fun capture_effect :: "hw_expr \<Rightarrow> bool" where
  "capture_effect (ERead k n t) = False"
| "capture_effect e = value_effect e"

definition functional_value_has_effect :: "hw_expr \<Rightarrow> bool" where
  "functional_value_has_effect e = list_ex value_effect (walk is_region e)"

definition functional_capture_has_effect :: "hw_expr \<Rightarrow> bool" where
  "functional_capture_has_effect e = list_ex capture_effect (walk is_region e)"

text \<open>
  The checks of \<^verbatim>\<open>FunctionalRegion.__post_init__\<close>.  \<^verbatim>\<open>_functional_binders\<close> keeps the first record
  of each identity.
\<close>

fun first_binders :: "ct_binder list \<Rightarrow> ct_binder list" where
  "first_binders [] = []"
| "first_binders (b # bs) = b # filter (\<lambda>c. bd_identity c \<noteq> bd_identity b) (first_binders bs)"

definition check_certificate :: "ct_binder \<Rightarrow> certificate \<Rightarrow> expr_error + unit" where
  "check_certificate b c = (let bs = first_binders (concat (map (\<lambda>a. ct_binders (snd a)) (ce_lifted c))) in
     if bs = [] \<or> ce_owner c \<noteq> bd_identity b \<or> bd_identity b \<notin> set (map bd_identity bs) then Inl RegionCertificate
     else if ce_instances c \<noteq> prod_list (map (\<lambda>x. bd_stop x - bd_start x) bs) then Inl RegionCertificateCount
     else Inr ())"

definition check_capture_use :: "capture_ref list \<Rightarrow> capture_ref \<Rightarrow> expr_error + unit" where
  "check_capture_use declared c = (case map_of declared (fst c) of
       None \<Rightarrow> Inl (RegionUndeclaredCapture (fst (snd c)))
     | Some d \<Rightarrow> guardE (snd d = snd (snd c)) (RegionUndeclaredCapture (fst (snd c))))"

definition check_lookup_use :: "func_table list \<Rightarrow> table_use \<Rightarrow> expr_error + unit" where
  "check_lookup_use ts u = (case map_of ts (fst u) of
       None \<Rightarrow> Inl (RegionUnknownTable (fst u))
     | Some tb \<Rightarrow> if fst (snd tb) \<noteq> snd (snd u) then Inl (RegionTableType (fst u))
         else bindE (liftC (compile_time_range (fst (snd u)))) (\<lambda>r.
           guardE (\<not> (fst r < snd (snd tb) \<or> snd r \<ge> snd (snd tb) + int (length (fst tb)))) (RegionTableRange (fst u))))"

definition region_owned :: "hw_expr \<Rightarrow> func_table list \<Rightarrow> hw_expr list" where
  "region_owned e ts = e # concat (map table_values ts)"

definition mk_region ::
    "region_kind \<Rightarrow> ct_binder \<Rightarrow> hw_expr \<Rightarrow> func_table list \<Rightarrow> (capture_ref \<times> hw_expr) list \<Rightarrow>
      certificate list \<Rightarrow> hwtype \<Rightarrow> expr_error + hw_expr" where
  "mk_region k b e ts cs cts t = (case t of
       VecType n el \<Rightarrow>
         if int n \<noteq> bd_stop b - bd_start b then Inl RegionLength
         else if type_of e \<noteq> el then Inl RegionTemplate
         else bindE (mapE (check_certificate b) cts) (\<lambda>_.
           if \<not> distinct (map table_name ts) then Inl RegionTables
           else if \<not> distinct (map (\<lambda>c. fst (fst c)) cs) then Inl RegionCaptureIds
           else (case List.find (\<lambda>c. snd (snd (fst c)) \<noteq> type_of (snd c)) cs of
               Some c \<Rightarrow> Inl (RegionCaptureType (fst (snd (fst c))))
             | None \<Rightarrow>
               if list_ex functional_value_has_effect (region_owned e ts) then Inl RegionImpure
               else if list_ex (\<lambda>c. functional_capture_has_effect (snd c)) cs then Inl RegionCaptureImpure
               else if \<not> functional_binder_identities (region_owned e ts) \<subseteq> {bd_identity b} then Inl RegionForeignBinder
               else bindE (mapE (check_capture_use (map fst cs)) (functional_captures (region_owned e ts))) (\<lambda>_.
                 bindE (mapE (check_lookup_use ts) (functional_lookups (region_owned e ts))) (\<lambda>_.
                   Inr (ERegion k b e ts cs cts t)))))
     | _ \<Rightarrow> Inl RegionVector)"

end
