(* ===== verification/Constants.thy ===== *)
theory Constants
  imports Exprs Packing
begin

text \<open>
  Specialisation-time constants, \<^verbatim>\<open>zlang/ir/constants.py\<close>: the evaluator of the expressions
  that may own ROM contents.  Its environment is the three dictionaries of
  \<^verbatim>\<open>_constant_runtime_value\<close> (binders, captures, tables); a table value may look up a table
  again, so the recursion is bounded by the depth the interpreter allows (\<open>RecursionLimit\<close>).
  Well-typed expressions are shown to evaluate, within some depth, to a value of their type.
\<close>

section \<open>Definitions\<close>

datatype const_error =
    ScalarOperands | NonemptyScalars | NotBoundCapture string | CompileTimeFailure ct_error
  | NotBoundTable string | TableIndexOutside string | NotATuple | UnionValueError rt_error
  | NotAVector | VectorIndexOutside | UpdateIndexOutside
  | IllegalPacking string pack_error | PackingEscapes pack_error | CastWidths
  | ConcatResult | ConcatOperand | ConcatLength
  | ReshapeTypes | ReshapeShape | ReshapeTarget | ReshapeLeft
  | ItemCount string | FreezeStruct | FreezeFields | FreezeTuple
  | Unsupported | PythonAttributeError | PythonIndexError | RecursionLimit

definition constant_comparison :: "bin_op \<Rightarrow> int \<Rightarrow> int \<Rightarrow> int option" where
  "constant_comparison p l r = (case p of
       OpEqual \<Rightarrow> Some (of_bool (l = r))
     | OpNotEqual \<Rightarrow> Some (of_bool (l \<noteq> r))
     | OpLess \<Rightarrow> Some (of_bool (l < r))
     | OpLessEqual \<Rightarrow> Some (of_bool (l \<le> r))
     | OpGreater \<Rightarrow> Some (of_bool (l > r))
     | OpGreaterEqual \<Rightarrow> Some (of_bool (l \<ge> r))
     | _ \<Rightarrow> None)"

definition bitwise_combine :: "bin_op \<Rightarrow> (int \<Rightarrow> int \<Rightarrow> int) option" where
  "bitwise_combine p = (case p of
       OpBitAnd \<Rightarrow> Some (\<lambda>a b. a AND b) | OpBitOr \<Rightarrow> Some (\<lambda>a b. a OR b)
     | OpBitXor \<Rightarrow> Some (\<lambda>a b. a XOR b) | _ \<Rightarrow> None)"

definition constant_bitwise :: "bin_op \<Rightarrow> rt_value \<Rightarrow> rt_value \<Rightarrow> hwtype \<Rightarrow> (pack_error + rt_value) option" where
  "constant_bitwise p l r t = (case bitwise_combine p of
       None \<Rightarrow> None
     | Some f \<Rightarrow> Some (bindE (pack_runtime t l) (\<lambda>a. bindE (pack_runtime t r) (\<lambda>b. unpack_runtime t (f a b)))))"

definition escape :: "pack_error + 'a \<Rightarrow> const_error + 'a" where
  "escape r = (case r of Inl e \<Rightarrow> Inl (PackingEscapes e) | Inr x \<Rightarrow> Inr x)"

text \<open>\<^verbatim>\<open>except packing.PackingError as error: raise _packing_error(operation, error)\<close>.\<close>

definition catch_packing :: "string \<Rightarrow> const_error + 'a \<Rightarrow> const_error + 'a" where
  "catch_packing name r = (case r of Inl (PackingEscapes e) \<Rightarrow> Inl (IllegalPacking name e) | _ \<Rightarrow> r)"

definition vector_items :: "hwtype \<Rightarrow> rt_value \<Rightarrow> string \<Rightarrow> const_error + rt_value list" where
  "vector_items t v name = (case t of
       VecType n el \<Rightarrow> (case seq_items v of
           None \<Rightarrow> Inl (ItemCount name)
         | Some xs \<Rightarrow> if length xs \<noteq> n then Inl (ItemCount name) else Inr xs)
     | _ \<Rightarrow> Inl PythonAttributeError)"

definition reduce_bitwise :: "bin_op \<Rightarrow> hwtype \<Rightarrow> rt_value list \<Rightarrow> const_error + rt_value" where
  "reduce_bitwise p t xs =
     (if xs = [] \<or> list_ex (\<lambda>x. as_int x = None) xs then Inl NonemptyScalars
      else foldE (\<lambda>x acc. escape (the (constant_bitwise p acc x t))) (tl xs) (hd xs))"

definition reduce_operation :: "reduce_op \<Rightarrow> bin_op option" where
  "reduce_operation p = (case p of
       RedBitAnd \<Rightarrow> Some OpBitAnd | RedBitOr \<Rightarrow> Some OpBitOr | RedBitXor \<Rightarrow> Some OpBitXor | _ \<Rightarrow> None)"

fun flatten_constant :: "hwtype \<Rightarrow> rt_value \<Rightarrow> const_error + rt_value list" where
  "flatten_constant (VecType n (VecType m e)) v = bindE (vector_items (VecType n (VecType m e)) v ''reshape source'')
     (\<lambda>xs. bindE (mapE (flatten_constant (VecType m e)) xs) (\<lambda>ls. Inr (concat ls)))"
| "flatten_constant t v = vector_items t v ''reshape source''"

text \<open>\<open>rebuild_constant n t leaves offset\<close> is \<^verbatim>\<open>_rebuild_vector(VecType(n, t), leaves, offset)\<close>.\<close>

function rebuild_constant :: "nat \<Rightarrow> hwtype \<Rightarrow> rt_value list \<Rightarrow> nat \<Rightarrow> const_error + (rt_value \<times> nat)"
  and rebuild_constant_rows :: "nat \<Rightarrow> nat \<Rightarrow> hwtype \<Rightarrow> rt_value list \<Rightarrow> nat \<Rightarrow> const_error + (rt_value list \<times> nat)"
where
  "rebuild_constant n t ls off = (case t of
       VecType m e \<Rightarrow> bindE (rebuild_constant_rows n m e ls off) (\<lambda>r. Inr (VTuple (fst r), snd r))
     | _ \<Rightarrow> if off + n > length ls then Inl ReshapeTarget
           else Inr (VTuple (take n (drop off ls)), off + n))"
| "rebuild_constant_rows 0 m e ls off = Inr ([], off)"
| "rebuild_constant_rows (Suc k) m e ls off =
     bindE (rebuild_constant m e ls off) (\<lambda>x.
       bindE (rebuild_constant_rows k m e ls (snd x)) (\<lambda>r. Inr (fst x # fst r, snd r)))"
  by pat_completeness auto
termination
  by (relation "measures [\<lambda>x. case x of Inl (n, t, ls, off) \<Rightarrow> 2 * size t
       | Inr (k, m, e, ls, off) \<Rightarrow> Suc (2 * size e),
     \<lambda>x. case x of Inl (n, t, ls, off) \<Rightarrow> 0 | Inr (k, m, e, ls, off) \<Rightarrow> k]") auto

declare rebuild_constant.simps [simp del]

fun freeze_runtime :: "hwtype \<Rightarrow> rt_value \<Rightarrow> const_error + rt_value" where
  "freeze_runtime (VecType n el) v = bindE (vector_items (VecType n el) v ''bitcast result'')
     (\<lambda>xs. bindE (mapE (freeze_runtime el) xs) (\<lambda>ys. Inr (VTuple ys)))"
| "freeze_runtime (StructType n fs) v = (case v of
       VDict kvs \<Rightarrow> if set (map fst kvs) \<noteq> set (map fst fs) then Inl FreezeFields
         else bindE (mapE (\<lambda>f. case map_of kvs (fst f) of None \<Rightarrow> Inl FreezeFields
             | Some x \<Rightarrow> bindE (freeze_runtime (snd f) x) (\<lambda>y. Inr (fst f, y))) fs)
           (\<lambda>ys. Inr (VDict (dict_of ys)))
     | _ \<Rightarrow> Inl FreezeStruct)"
| "freeze_runtime (TupleType ts) v = (case v of
       VTuple xs \<Rightarrow> if length xs \<noteq> length ts then Inl FreezeTuple
         else bindE (mapE (\<lambda>p. freeze_runtime (snd p) (fst p)) (zip xs ts)) (\<lambda>ys. Inr (VTuple ys))
     | _ \<Rightarrow> Inl FreezeTuple)"
| "freeze_runtime t v = Inr v"

fun leaf_type :: "hwtype \<Rightarrow> hwtype" where
  "leaf_type (VecType n e) = leaf_type e"
| "leaf_type t = t"

text \<open>\<open>vector_leaf_shape n t\<close> is \<^verbatim>\<open>vector_leaf_shape(VecType(n, t))\<close> of \<^verbatim>\<open>ir/functional.py\<close>.\<close>

definition vector_leaf_shape :: "nat \<Rightarrow> hwtype \<Rightarrow> nat \<times> hwtype" where
  "vector_leaf_shape n t = (leaf_count n t, leaf_type t)"

record const_env =
  cv_binders :: "string \<Rightarrow> int option"
  cv_captures :: "string \<Rightarrow> rt_value option"
  cv_tables :: "string \<Rightarrow> (hw_expr list \<times> hwtype \<times> int) option"

definition liftCt :: "ct_error + 'a \<Rightarrow> const_error + 'a" where
  "liftCt r = (case r of Inl e \<Rightarrow> Inl (CompileTimeFailure e) | Inr x \<Rightarrow> Inr x)"

definition code_valid :: "enum_decl \<Rightarrow> rt_value \<Rightarrow> bool" where
  "code_valid d v = (case as_int v of None \<Rightarrow> False | Some i \<Rightarrow> is_valid_code d i)"

definition cast_name :: "cast_kind \<Rightarrow> string" where
  "cast_name k = (case k of CastBits \<Rightarrow> ''bitcast'' | CastPack \<Rightarrow> ''pack'' | CastUnpack \<Rightarrow> ''unpack'')"

text \<open>Each branch below is the body of one class, after its operands have been evaluated.\<close>

definition const_binary :: "bin_op \<Rightarrow> rt_value \<Rightarrow> rt_value \<Rightarrow> hwtype \<Rightarrow> const_error + rt_value" where
  "const_binary p l r ot = (case (as_int l, as_int r) of
       (Some a, Some b) \<Rightarrow> (case constant_comparison p a b of
           Some c \<Rightarrow> Inr (VInt c)
         | None \<Rightarrow> (case constant_bitwise p l r ot of Some res \<Rightarrow> escape res | None \<Rightarrow> Inl Unsupported))
     | _ \<Rightarrow> Inl ScalarOperands)"

definition const_cast :: "cast_kind \<Rightarrow> hwtype \<Rightarrow> hwtype \<Rightarrow> rt_value \<Rightarrow> const_error + rt_value" where
  "const_cast k st t v = catch_packing (cast_name k)
     (bindE (escape (packed_width st)) (\<lambda>sw. bindE (escape (packed_width t)) (\<lambda>tw.
        if sw \<noteq> tw then Inl CastWidths
        else bindE (escape (pack_runtime st v)) (\<lambda>raw.
          bindE (escape (unpack_runtime t raw)) (\<lambda>res. freeze_runtime t res)))))"

definition const_slice :: "hwtype \<Rightarrow> int \<Rightarrow> int \<Rightarrow> rt_value \<Rightarrow> const_error + rt_value" where
  "const_slice st msb lsb v = catch_packing ''slice''
     (bindE (escape (packed_width st)) (\<lambda>sw. bindE (escape (pack_runtime st v)) (\<lambda>raw.
        bindE (escape (slice_runtime (VInt raw) (int sw) msb lsb)) (\<lambda>r. Inr (VInt r)))))"

definition const_index :: "hwtype \<Rightarrow> rt_value \<Rightarrow> const_error + int \<Rightarrow> const_error + rt_value" where
  "const_index st v i = (case st of
       VecType n el \<Rightarrow> bindE (vector_items st v ''vector index'') (\<lambda>xs. bindE i (\<lambda>j.
         if \<not> (0 \<le> j \<and> j < int (length xs)) then Inl VectorIndexOutside else Inr (xs ! nat j)))
     | _ \<Rightarrow> Inl NotAVector)"

definition const_reshape :: "hwtype \<Rightarrow> hwtype \<Rightarrow> const_error + rt_value \<Rightarrow> const_error + rt_value" where
  "const_reshape st t v = (case (st, t) of
       (VecType n e, VecType m e') \<Rightarrow>
         if vector_leaf_shape n e \<noteq> vector_leaf_shape m e' then Inl ReshapeShape
         else bindE v (\<lambda>x. bindE (flatten_constant st x) (\<lambda>ls.
           bindE (rebuild_constant m e' ls 0) (\<lambda>r.
             if snd r \<noteq> length ls then Inl ReshapeLeft else Inr (fst r))))
     | _ \<Rightarrow> Inl ReshapeTypes)"

text \<open>
  \<^verbatim>\<open>_constant_runtime_value\<close> with a bound on the depth of its recursion; a region evaluates its
  captures outside and its template once per index inside the extended environment.
\<close>

definition region_env :: "const_env \<Rightarrow> func_table list \<Rightarrow> (capture_ref \<times> rt_value) list \<Rightarrow> ct_binder \<Rightarrow> int \<Rightarrow> const_env" where
  "region_env E ts cs b i = \<lparr>cv_binders = (cv_binders E)(bd_identity b \<mapsto> i),
     cv_captures = cv_captures E ++ map_of (rev (map (\<lambda>c. (fst (fst c), snd c)) cs)),
     cv_tables = cv_tables E ++ map_of (rev ts)\<rparr>"

primrec constant_value :: "nat \<Rightarrow> const_env \<Rightarrow> hw_expr \<Rightarrow> const_error + rt_value" where
  "constant_value 0 E x = Inl RecursionLimit"
| "constant_value (Suc k) E x = (case x of
     EConst v t \<Rightarrow> Inr (VInt v)
   | EBinary p l r ot t \<Rightarrow> bindE (constant_value k E l) (\<lambda>a. bindE (constant_value k E r) (\<lambda>b. const_binary p a b ot))
   | EReduce p c t y pl \<Rightarrow> (case reduce_operation p of
         None \<Rightarrow> Inl Unsupported
       | Some q \<Rightarrow> bindE (constant_value k E c) (\<lambda>v.
           bindE (vector_items (type_of c) v ''predicate reduction'') (reduce_bitwise q t)))
   | EEnumEncode e t \<Rightarrow> constant_value k E e
   | EEnumValid e d t \<Rightarrow> bindE (constant_value k E e) (\<lambda>v. Inr (VInt (of_bool (code_valid d v))))
   | EEnumDecode e f d \<Rightarrow> bindE (constant_value k E e) (\<lambda>v. if code_valid d v then Inr v else constant_value k E f)
   | ECapture c \<Rightarrow> (case cv_captures E (fst c) of None \<Rightarrow> Inl (NotBoundCapture (fst (snd c))) | Some v \<Rightarrow> Inr v)
   | EFuncValue c t \<Rightarrow> bindE (liftCt (evaluate_compile_time (cv_binders E) c)) (\<lambda>i. Inr (VInt i))
   | ELookup n i t r \<Rightarrow> (case cv_tables E n of
         None \<Rightarrow> Inl (NotBoundTable n)
       | Some tb \<Rightarrow> if fst (snd tb) \<noteq> t then Inl (NotBoundTable n)
           else bindE (liftCt (evaluate_compile_time (cv_binders E) i)) (\<lambda>j.
             let off = j - snd (snd tb) in
             if \<not> (0 \<le> off \<and> off < int (length (fst tb))) then Inl (TableIndexOutside n)
             else constant_value k E (fst tb ! nat off)))
   | ERegion g b e ts cs cts t \<Rightarrow>
       bindE (mapE (\<lambda>c. bindE (constant_value k E (snd c)) (\<lambda>v. Inr (fst c, v))) cs) (\<lambda>cs'.
         bindE (mapE (\<lambda>i. constant_value k (region_env E ts cs' b i) e) [bd_start b..bd_stop b - 1])
           (\<lambda>vs. Inr (VTuple vs)))
   | EStruct n fs t \<Rightarrow> bindE (mapE (\<lambda>f. bindE (constant_value k E (snd f)) (\<lambda>v. Inr (fst f, v))) fs)
       (\<lambda>kvs. Inr (VDict (dict_of kvs)))
   | ETuple es t \<Rightarrow> bindE (mapE (constant_value k E) es) (\<lambda>vs. Inr (VTuple vs))
   | EProject e i t \<Rightarrow> bindE (constant_value k E e) (\<lambda>v. case v of
         VTuple xs \<Rightarrow> if i < length xs then Inr (xs ! i) else Inl PythonIndexError
       | _ \<Rightarrow> Inl NotATuple)
   | EUnion var fs t \<Rightarrow> bindE (mapE (\<lambda>f. bindE (constant_value k E (snd f)) (\<lambda>v. Inr (fst f, v))) fs) (\<lambda>kvs.
       case t of TaggedUnionType n vs d \<Rightarrow> (case mk_union_value n vs d var kvs of
           Inl er \<Rightarrow> Inl (UnionValueError er) | Inr v \<Rightarrow> Inr v)
       | _ \<Rightarrow> Inl PythonAttributeError)
   | EElements es t \<Rightarrow> bindE (mapE (constant_value k E) es) (\<lambda>vs. Inr (VTuple vs))
   | EIndex e i t \<Rightarrow> bindE (constant_value k E e) (\<lambda>v.
       const_index (type_of e) v (liftCt (evaluate_operand (cv_binders E) i)))
   | EUpdate e i v n r t \<Rightarrow> bindE (constant_value k E e) (\<lambda>x. bindE (vector_items t x ''vector update'') (\<lambda>xs.
       bindE (constant_value k E i) (\<lambda>j. case as_int j of
           None \<Rightarrow> Inl UpdateIndexOutside
         | Some m \<Rightarrow> if \<not> (0 \<le> m \<and> m < int n) then Inl UpdateIndexOutside
             else bindE (constant_value k E v) (\<lambda>y.
               if nat m < length xs then Inr (VTuple (xs[nat m := y])) else Inl PythonIndexError))))
   | ESlice e msb lsb t \<Rightarrow> bindE (constant_value k E e) (const_slice (type_of e) msb lsb)
   | EConcat es t \<Rightarrow> catch_packing ''concat''
       (bindE (mapE (\<lambda>e. bindE (constant_value k E e) (\<lambda>v. bindE (escape (pack_runtime (type_of e) v)) (\<lambda>raw.
           bindE (escape (packed_width (type_of e))) (\<lambda>w. Inr (VInt raw, int w))))) es)
         (\<lambda>parts. bindE (escape (concat_runtime parts)) (\<lambda>r. Inr (VInt r))))
   | ECast c e t \<Rightarrow> bindE (constant_value k E e) (const_cast c (type_of e) t)
   | EVecConcat es t \<Rightarrow> (case t of
         VecType n el \<Rightarrow> bindE (mapE (\<lambda>e. case type_of e of
             VecType m el' \<Rightarrow> if el' \<noteq> el then Inl ConcatOperand
               else bindE (constant_value k E e) (\<lambda>v. vector_items (type_of e) v ''vector concat'')
           | _ \<Rightarrow> Inl ConcatOperand) es) (\<lambda>xss.
             if length (concat xss) \<noteq> n then Inl ConcatLength else Inr (VTuple (concat xss)))
       | _ \<Rightarrow> Inl ConcatResult)
   | EReshape e t \<Rightarrow> const_reshape (type_of e) t (constant_value k E e)
   | _ \<Rightarrow> Inl Unsupported)"

declare constant_value.simps(2) [simp del]

definition empty_env :: const_env where
  "empty_env = \<lparr>cv_binders = Map.empty, cv_captures = Map.empty, cv_tables = Map.empty\<rparr>"

definition constant_runtime_value :: "nat \<Rightarrow> hw_expr \<Rightarrow> const_error + rt_value" where
  "constant_runtime_value k x = constant_value k empty_env x"

section \<open>The form of a constant value\<close>

text \<open>An immutable value of a type: integers for scalars, tuples for vectors, fields in declaration order.\<close>

fun constant_form :: "hwtype \<Rightarrow> rt_value \<Rightarrow> bool" where
  "constant_form (StructType n fs) v = (case v of
       VDict kvs \<Rightarrow> map fst kvs = map fst fs \<and>
         (\<forall>f\<in>set fs. case map_of kvs (fst f) of None \<Rightarrow> False | Some x \<Rightarrow> constant_form (snd f) x)
     | _ \<Rightarrow> False)"
| "constant_form (TupleType ts) v = (case v of
       VTuple xs \<Rightarrow> length xs = length ts \<and> (\<forall>p\<in>set (zip xs ts). constant_form (snd p) (fst p)) | _ \<Rightarrow> False)"
| "constant_form (VecType n t) v = (case v of
       VTuple xs \<Rightarrow> length xs = n \<and> (\<forall>x\<in>set xs. constant_form t x) | _ \<Rightarrow> False)"
| "constant_form (TaggedUnionType n vs d) v = (case v of VUnion t var fs \<Rightarrow> t = TaggedUnionType n vs d | _ \<Rightarrow> False)"
| "constant_form t v = (case v of VInt i \<Rightarrow> int_fits i t | _ \<Rightarrow> False)"

definition scalar_type :: "hwtype \<Rightarrow> bool" where
  "scalar_type t \<longleftrightarrow> flat_scalar t \<or> (\<exists>d. t = EnumType d)"

lemma scalar_type_simps [simp]: "scalar_type (EnumType d)" "flat_scalar t \<Longrightarrow> scalar_type t"
  by (simp_all add: scalar_type_def)

lemma constant_form_flat: "scalar_type t \<Longrightarrow> constant_form t v \<longleftrightarrow> (\<exists>i. v = VInt i \<and> int_fits i t)"
  by (cases t; cases v) (auto simp: scalar_type_def)

lemma constant_form_fits: "distinct_fields t \<Longrightarrow> constant_form t v \<Longrightarrow> runtime_value_fits v t"
proof (induction t v rule: constant_form.induct)
  case (1 n fs v)
  then obtain kvs where v: "v = VDict kvs" and keys: "map fst kvs = map fst fs"
    and all: "\<forall>f\<in>set fs. case map_of kvs (fst f) of None \<Rightarrow> False | Some x \<Rightarrow> constant_form (snd f) x"
    by (cases v) auto
  have "case map_of kvs (fst f) of None \<Rightarrow> False | Some x \<Rightarrow> runtime_value_fits x (snd f)" if f: "f \<in> set fs" for f
    using 1(1) [OF v f] 1(2) all f by (fastforce split: option.splits)
  then show ?case using v keys by (simp only: runtime_value_fits.simps rt_value.case) simp
next
  case (2 ts v)
  then show ?case by (cases v) (fastforce simp: set_zip)+
next
  case (3 n t v)
  then show ?case by (cases v) auto
next
  case (4 n vs d v)
  then show ?case by (cases v) auto
qed (auto simp: scalar_fits_def split: rt_value.splits)

lemma freeze_flat: "flat_scalar t \<Longrightarrow> runtime_value_fits v t \<Longrightarrow>
    \<exists>v'. freeze_runtime t (canonical_value t v) = Inr v' \<and> constant_form t v'"
  by (cases t) (auto simp: scalar_fits_def split: option.splits rt_value.splits)

lemma map_of_keyed_map: "distinct (map fst fs) \<Longrightarrow> f \<in> set fs \<Longrightarrow> map_of (map (\<lambda>f. (fst f, g f)) fs) (fst f) = Some (g f)"
  by (induction fs) (auto simp: rev_image_eqI)

lemma freeze_canonical:
  "is_bit_packable t \<Longrightarrow> distinct_fields t \<Longrightarrow> runtime_value_fits v t \<Longrightarrow>
    \<exists>v'. freeze_runtime t (canonical_value t v) = Inr v' \<and> constant_form t v'"
proof (induction t arbitrary: v rule: is_bit_packable.induct)
  case (2 n fs)
  then obtain kvs where v: "v = VDict kvs" and fields: "\<forall>f\<in>set fs. case map_of kvs (fst f) of None \<Rightarrow> False
      | Some x \<Rightarrow> runtime_value_fits x (snd f)" by (cases v) auto
  let ?c = "\<lambda>f. canonical_value (snd f) (the (map_of kvs (fst f)))"
  have "\<exists>y. freeze_runtime (snd f) (?c f) = Inr y \<and> constant_form (snd f) y" if f: "f \<in> set fs" for f
    using 2(1) [OF f, of "the (map_of kvs (fst f))"] 2(2,3) fields f by (fastforce split: option.splits)
  then obtain g where g: "\<And>f. f \<in> set fs \<Longrightarrow> freeze_runtime (snd f) (?c f) = Inr (g f) \<and> constant_form (snd f) (g f)"
    by metis
  have dist: "distinct (map fst fs)" using 2(3) by simp
  have "mapE (\<lambda>f. case map_of (map (\<lambda>f. (fst f, ?c f)) fs) (fst f) of None \<Rightarrow> Inl FreezeFields
      | Some x \<Rightarrow> bindE (freeze_runtime (snd f) x) (\<lambda>y. Inr (fst f, y))) fs = Inr (map (\<lambda>f. (fst f, g f)) fs)"
    using g map_of_keyed_map [OF dist, where g = ?c] by (intro mapE_Inr_map) simp
  moreover have "dict_of (map (\<lambda>f. (fst f, g f)) fs) = map (\<lambda>f. (fst f, g f)) fs"
    using dist by (intro dict_of_distinct) (simp add: comp_def)
  ultimately show ?case using v g map_of_keyed_map [OF dist, where g = g] by (auto simp: comp_def image_image)
next
  case (3 ts)
  then obtain xs where v: "v = VTuple xs" and len: "length xs = length ts"
    and all: "\<forall>p\<in>set (zip xs ts). runtime_value_fits (fst p) (snd p)" by (cases v) auto
  have step: "\<exists>y. freeze_runtime t (canonical_value t x) = Inr y \<and> constant_form t y" if p: "(x, t) \<in> set (zip xs ts)" for x t
    using 3(1) [of t x] bspec [OF all p] set_zip_rightD [OF p] 3(2,3) by auto
  obtain g where g: "\<And>p. p \<in> set (zip xs ts) \<Longrightarrow>
      freeze_runtime (snd p) (canonical_value (snd p) (fst p)) = Inr (g p) \<and> constant_form (snd p) (g p)"
  proof -
    have "\<forall>p\<in>set (zip xs ts). \<exists>y. freeze_runtime (snd p) (canonical_value (snd p) (fst p)) = Inr y \<and> constant_form (snd p) y"
      using step by fastforce
    then show thesis using that by (metis (no_types, lifting))
  qed
  have eq: "zip (map (\<lambda>p. canonical_value (snd p) (fst p)) (zip xs ts)) ts =
      map (\<lambda>p. (canonical_value (snd p) (fst p), snd p)) (zip xs ts)"
    using len by (intro nth_equalityI) simp_all
  have eq2: "zip (map g (zip xs ts)) ts = map (\<lambda>p. (g p, snd p)) (zip xs ts)"
    using len by (intro nth_equalityI) simp_all
  have "mapE (\<lambda>p. freeze_runtime (snd p) (fst p)) (map (\<lambda>p. (canonical_value (snd p) (fst p), snd p)) (zip xs ts)) =
      Inr (map g (zip xs ts))"
    unfolding mapE_map using g by (intro mapE_Inr_map) simp
  then show ?case using v len g by (auto simp: eq eq2)
next
  case (4 n t)
  then obtain xs where v: "seq_items v = Some xs" and len: "length xs = n"
    and all: "\<forall>x\<in>set xs. runtime_value_fits x t" by (cases "seq_items v") auto
  have "\<exists>y. freeze_runtime t (canonical_value t x) = Inr y \<and> constant_form t y" if "x \<in> set xs" for x
    using 4 all that by simp
  then obtain g where g: "\<And>x. x \<in> set xs \<Longrightarrow> freeze_runtime t (canonical_value t x) = Inr (g x) \<and> constant_form t (g x)"
    by metis
  have "mapE (freeze_runtime t) (map (canonical_value t) xs) = Inr (map g xs)"
    unfolding mapE_map using g by (intro mapE_Inr_map) simp
  then show ?case using v len g by (auto simp: vector_items_def)
qed (auto simp: scalar_fits_def split: option.splits rt_value.splits)

text \<open>What the packing laws give for constant values.\<close>

lemma pack_constant:
  "packable t \<Longrightarrow> constant_form t v \<Longrightarrow> \<exists>r. pack_runtime t v = Inr r \<and> 0 \<le> r \<and> r < 2 ^ width t"
  using packing.enc_member constant_form_fits packable_def by metis

lemma freeze_unpacked:
  assumes "packable t" "0 \<le> r" "r < 2 ^ width t"
  shows "\<exists>u v. unpack_runtime t r = Inr u \<and> freeze_runtime t u = Inr v \<and> constant_form t v"
proof -
  obtain u where u: "unpack_runtime t r = Inr u" using packing.dec_total assms by blast
  then have "runtime_value_fits u t" "canonical_value t u = u"
    using packing.dec_member packing.dec_canonical assms by blast+
  then show ?thesis using freeze_canonical [of t u] assms(1) u by (auto simp: packable_def)
qed

lemma unpack_flat_constant:
  assumes "packable t" "flat_scalar t" "0 \<le> r" "r < 2 ^ width t"
  shows "\<exists>v. unpack_runtime t r = Inr v \<and> constant_form t v"
proof -
  have "freeze_runtime t u = Inr u" for u using assms(2) by (cases t) simp_all
  then show ?thesis using freeze_unpacked [OF assms(1,3,4)] by auto
qed

lemma combine_bounds:
  assumes "bitwise_combine p = Some f" "0 \<le> a" "a < 2 ^ w" "0 \<le> b" "b < 2 ^ w"
  shows "0 \<le> f a b \<and> f a b < 2 ^ w"
  using assms by (cases p)
    (auto simp: bitwise_combine_def AND_upper1' intro: AND_lower OR_upper XOR_upper order.strict_trans1 [OF AND_upper1])

lemma constant_bitwise_form:
  assumes "packable t" "flat_scalar t" "bitwise_combine p = Some f" "constant_form t l" "constant_form t r"
  shows "\<exists>v. constant_bitwise p l r t = Some (Inr v) \<and> constant_form t v"
proof -
  obtain a b where ab: "pack_runtime t l = Inr a" "pack_runtime t r = Inr b"
    "0 \<le> f a b" "f a b < 2 ^ width t"
    using pack_constant [OF assms(1)] assms(3-5) combine_bounds by metis
  then show ?thesis using unpack_flat_constant [OF assms(1,2) ab(3,4)] assms(3)
    by (auto simp: constant_bitwise_def)
qed

lemma reduce_bitwise_form:
  assumes "packable t" "flat_scalar t" "bitwise_combine p = Some f" "xs \<noteq> []" "\<forall>x\<in>set xs. constant_form t x"
  shows "\<exists>v. reduce_bitwise p t xs = Inr v \<and> constant_form t v"
proof -
  have go: "\<exists>v. foldE (\<lambda>x acc. escape (the (constant_bitwise p acc x t))) ys acc = Inr v \<and> constant_form t v"
    if "\<forall>y\<in>set ys. constant_form t y" "constant_form t acc" for ys acc
    using that
  proof (induction ys arbitrary: acc)
    case (Cons y ys)
    obtain u where u: "constant_bitwise p acc y t = Some (Inr u)" "constant_form t u"
      using constant_bitwise_form [OF assms(1-3), of acc y] Cons.prems by auto
    then show ?case using Cons by (simp add: escape_def)
  qed simp
  have "\<not> list_ex (\<lambda>x. as_int x = None) xs"
    using assms(2,5) by (auto simp: list_ex_iff constant_form_flat)
  then show ?thesis using go [of "tl xs" "hd xs"] assms(4,5)
    by (cases xs) (simp_all add: reduce_bitwise_def)
qed

lemma flatten_constant_rows:
  assumes "\<And>m e'. e \<noteq> VecType m e'" "constant_form (VecType n e) v"
  shows "\<exists>ls. flatten_constant (VecType n e) v = Inr ls \<and> length ls = leaf_count n e \<and> (\<forall>x\<in>set ls. constant_form (leaf_type e) x)"
proof -
  obtain xs where v: "v = VTuple xs" "length xs = n" "\<forall>x\<in>set xs. constant_form e x"
    using assms(2) by (cases v) auto
  have "flatten_constant (VecType n e) v = vector_items (VecType n e) v ''reshape source''"
    "leaf_type e = e" "leaf_count n e = n" using assms(1) by (cases e; simp)+
  then show ?thesis using v by (simp add: vector_items_def)
qed

lemma flatten_constant_leaves:
  "constant_form (VecType n e) v \<Longrightarrow>
    \<exists>ls. flatten_constant (VecType n e) v = Inr ls \<and> length ls = leaf_count n e \<and> (\<forall>x\<in>set ls. constant_form (leaf_type e) x)"
proof (induction e arbitrary: n v)
  case (VecType m e)
  then obtain xs where v: "v = VTuple xs" "length xs = n" "\<forall>x\<in>set xs. constant_form (VecType m e) x"
    by (cases v) auto
  have "\<exists>ls. flatten_constant (VecType m e) x = Inr ls \<and> length ls = leaf_count m e \<and>
      (\<forall>y\<in>set ls. constant_form (leaf_type e) y)" if "x \<in> set xs" for x
    using VecType.IH [of m x] v(3) that by blast
  then obtain g where g: "\<And>x. x \<in> set xs \<Longrightarrow> flatten_constant (VecType m e) x = Inr (g x) \<and>
      length (g x) = leaf_count m e \<and> (\<forall>y\<in>set (g x). constant_form (leaf_type e) y)" by metis
  have "mapE (flatten_constant (VecType m e)) xs = Inr (map g xs)" using g by (intro mapE_Inr_map) simp
  moreover have "length (concat (map g xs)) = n * leaf_count m e"
  proof -
    have "map (\<lambda>x. length (g x)) xs = map (\<lambda>_. leaf_count m e) xs" using g by (intro map_cong) simp_all
    then have "sum_list (map (\<lambda>x. length (g x)) xs) = length xs * leaf_count m e" by (simp only: sum_list_triv) simp
    then show ?thesis using v(2) by (simp add: length_concat comp_def)
  qed
  ultimately show ?case using v g by (auto simp: vector_items_def)
qed (rule flatten_constant_rows; simp)+

lemma rebuild_constant_form:
  "off + leaf_count n e \<le> length ls \<Longrightarrow> \<forall>x\<in>set ls. constant_form (leaf_type e) x \<Longrightarrow>
    \<exists>v. rebuild_constant n e ls off = Inr (v, off + leaf_count n e) \<and> constant_form (VecType n e) v"
proof (induction e arbitrary: n off)
  case (VecType m e)
  have "off + n * leaf_count m e \<le> length ls \<Longrightarrow>
    \<exists>xs. rebuild_constant_rows n m e ls off = Inr (xs, off + n * leaf_count m e) \<and> length xs = n \<and>
      (\<forall>x\<in>set xs. constant_form (VecType m e) x)"
  proof (induction n arbitrary: off)
    case (Suc n)
    have "off + leaf_count m e \<le> length ls" using Suc.prems by simp
    then obtain x where x: "rebuild_constant m e ls off = Inr (x, off + leaf_count m e)" "constant_form (VecType m e) x"
      using VecType.IH [of off m] VecType.prems(2) by auto
    obtain xs where "rebuild_constant_rows n m e ls (off + leaf_count m e) = Inr (xs, off + leaf_count m e + n * leaf_count m e)"
      "length xs = n" "\<forall>x\<in>set xs. constant_form (VecType m e) x"
      using Suc.IH [of "off + leaf_count m e"] Suc.prems by (auto simp: algebra_simps)
    then show ?case using x by (simp add: rebuild_constant.simps algebra_simps)
  qed (simp add: rebuild_constant.simps)
  then show ?case using VecType.prems(1) by (auto simp: rebuild_constant.simps(1) [of n "VecType m e"])
qed (auto simp: rebuild_constant.simps dest!: in_set_takeD in_set_dropD)

section \<open>Typing\<close>

fun compares :: "bin_op \<Rightarrow> bool" where
  "compares OpEqual = True" | "compares OpNotEqual = True" | "compares OpLess = True"
| "compares OpLessEqual = True" | "compares OpGreater = True" | "compares OpGreaterEqual = True"
| "compares _ = False"

lemma compares_iff: "compares p \<longleftrightarrow> (\<exists>f. constant_comparison p = (\<lambda>a b. Some (of_bool (f a b))))"
  by (cases p) (auto simp: constant_comparison_def fun_eq_iff)

text \<open>An index that no value of its type can put out of a vector of length \<open>n\<close>.\<close>

definition index_safe :: "hw_expr \<Rightarrow> nat \<Rightarrow> bool" where
  "index_safe i n \<longleftrightarrow> is_unsigned_integral (type_of i) \<and> (2 ^ width (type_of i) \<le> n \<or>
     (case i of EConst j t \<Rightarrow> 0 \<le> j \<and> j < int n | _ \<Rightarrow> False))"

inductive const_typed ::
    "ct_binder option \<Rightarrow> (string \<Rightarrow> hwtype option) \<Rightarrow> (string \<Rightarrow> (hw_expr list \<times> hwtype \<times> int) option) \<Rightarrow> hw_expr \<Rightarrow> bool"
where
  Const: "scalar_type t \<Longrightarrow> int_fits v t \<Longrightarrow> const_typed b C T (EConst v t)"
| Compare: "compares p \<Longrightarrow> const_typed b C T l \<Longrightarrow> const_typed b C T r \<Longrightarrow>
    scalar_type (type_of l) \<Longrightarrow> scalar_type (type_of r) \<Longrightarrow> const_typed b C T (EBinary p l r ot BitType)"
| Bitwise: "bitwise_combine p = Some f \<Longrightarrow> const_typed b C T l \<Longrightarrow> const_typed b C T r \<Longrightarrow>
    type_of l = t \<Longrightarrow> type_of r = t \<Longrightarrow> flat_scalar t \<Longrightarrow> packable t \<Longrightarrow> const_typed b C T (EBinary p l r t t)"
| Reduce: "reduce_operation p = Some q \<Longrightarrow> const_typed b C T c \<Longrightarrow> type_of c = VecType n t \<Longrightarrow> 0 < n \<Longrightarrow>
    flat_scalar t \<Longrightarrow> packable t \<Longrightarrow> mk_reduce p c t y pl = Inr x \<Longrightarrow> const_typed b C T x"
| Encode: "const_typed b C T e \<Longrightarrow> type_of e = EnumType d \<Longrightarrow> wf_enum d \<Longrightarrow>
    const_typed b C T (EEnumEncode e (BitsType (enum_width d)))"
| Valid: "const_typed b C T e \<Longrightarrow> scalar_type (type_of e) \<Longrightarrow> const_typed b C T (EEnumValid e d BitType)"
| Decode: "const_typed b C T e \<Longrightarrow> scalar_type (type_of e) \<Longrightarrow> const_typed b C T f \<Longrightarrow> type_of f = EnumType d \<Longrightarrow>
    const_typed b C T (EEnumDecode e f d)"
| Capture: "C i = Some t \<Longrightarrow> const_typed b C T (ECapture (i, n, t))"
| FuncValue: "mk_func_value c t = Inr x \<Longrightarrow> set (ct_binders c) \<subseteq> set_option b \<Longrightarrow> const_typed b C T x"
| Lookup: "T n = Some (vs, t, start) \<Longrightarrow> \<forall>v\<in>set vs. type_of v = t \<Longrightarrow> \<forall>v\<in>set vs. const_typed b C Map.empty v \<Longrightarrow>
    compile_time_range i = Inr (lo, hi) \<Longrightarrow> start \<le> lo \<Longrightarrow> hi < start + int (length vs) \<Longrightarrow>
    set (ct_binders i) \<subseteq> set_option b \<Longrightarrow> mk_lookup n i t r = Inr x \<Longrightarrow> const_typed b C T x"
| Region: "mk_region g b' e ts cs cts t = Inr x \<Longrightarrow> \<forall>c\<in>set cs. const_typed b C T (snd c) \<Longrightarrow>
    const_typed (Some b') (map_of (map (\<lambda>c. (fst (fst c), snd (snd (fst c)))) cs)) (map_of ts) e \<Longrightarrow>
    bd_start b' \<le> bd_stop b' \<Longrightarrow> const_typed b C T x"
| Struct: "map fst fs = map fst fs' \<Longrightarrow> map (\<lambda>f. type_of (snd f)) fs = map snd fs' \<Longrightarrow> distinct (map fst fs') \<Longrightarrow>
    \<forall>f\<in>set fs. const_typed b C T (snd f) \<Longrightarrow> const_typed b C T (EStruct n fs (StructType m fs'))"
| Tuple: "mk_tuple_expr es ts = Inr x \<Longrightarrow> \<forall>e\<in>set es. const_typed b C T e \<Longrightarrow> const_typed b C T x"
| Project: "mk_project e i t = Inr x \<Longrightarrow> const_typed b C T e \<Longrightarrow> const_typed b C T x"
| Union: "mk_union_expr var fs n vs d = Inr x \<Longrightarrow> \<forall>f\<in>set fs. const_typed b C T (snd f) \<Longrightarrow>
    \<forall>f\<in>set fs. distinct_fields (type_of (snd f)) \<Longrightarrow> const_typed b C T x"
| Elements: "\<forall>e\<in>set es. const_typed b C T e \<and> type_of e = el \<Longrightarrow> const_typed b C T (EElements es (VecType (length es) el))"
| Index: "mk_index e i t = Inr x \<Longrightarrow> const_typed b C T e \<Longrightarrow> set (operand_binders i) \<subseteq> set_option b \<Longrightarrow> const_typed b C T x"
| Update: "mk_update e i v n r t = Inr x \<Longrightarrow> const_typed b C T e \<Longrightarrow> const_typed b C T i \<Longrightarrow> const_typed b C T v \<Longrightarrow>
    index_safe i n \<Longrightarrow> const_typed b C T x"
| Slice: "const_typed b C T e \<Longrightarrow> packable (type_of e) \<Longrightarrow> 0 \<le> lsb \<Longrightarrow> lsb \<le> msb \<Longrightarrow> msb < int (width (type_of e)) \<Longrightarrow>
    t = BitsType (nat (msb - lsb + 1)) \<or> t = UIntType (nat (msb - lsb + 1)) \<Longrightarrow> const_typed b C T (ESlice e msb lsb t)"
| Concat: "\<forall>e\<in>set es. const_typed b C T e \<and> packable (type_of e) \<Longrightarrow> 2 \<le> length es \<Longrightarrow>
    w = sum_list (map (\<lambda>e. width (type_of e)) es) \<Longrightarrow> t = BitsType w \<or> t = UIntType w \<Longrightarrow> const_typed b C T (EConcat es t)"
| Cast: "const_typed b C T e \<Longrightarrow> packable (type_of e) \<Longrightarrow> packable t \<Longrightarrow> width (type_of e) = width t \<Longrightarrow>
    const_typed b C T (ECast k e t)"
| VecConcat: "\<forall>e\<in>set es. const_typed b C T e \<and> (\<exists>m. type_of e = VecType m el) \<Longrightarrow>
    n = sum_list (map (\<lambda>e. case type_of e of VecType m _ \<Rightarrow> m | _ \<Rightarrow> 0) es) \<Longrightarrow> const_typed b C T (EVecConcat es (VecType n el))"
| Reshape: "const_typed b C T e \<Longrightarrow> type_of e = VecType n el \<Longrightarrow> vector_leaf_shape n el = vector_leaf_shape m el' \<Longrightarrow>
    const_typed b C T (EReshape e (VecType m el'))"

text \<open>An environment that provides what a typing context promises.\<close>

definition env_provides ::
    "const_env \<Rightarrow> ct_binder option \<Rightarrow> (string \<Rightarrow> hwtype option) \<Rightarrow> (string \<Rightarrow> (hw_expr list \<times> hwtype \<times> int) option) \<Rightarrow> bool" where
  "env_provides E b C T \<longleftrightarrow>
     (\<forall>x. b = Some x \<longrightarrow> (\<exists>i. cv_binders E (bd_identity x) = Some i \<and> bd_start x \<le> i \<and> i < bd_stop x)) \<and>
     (\<forall>i t. C i = Some t \<longrightarrow> (\<exists>v. cv_captures E i = Some v \<and> constant_form t v)) \<and>
     (\<forall>n tb. T n = Some tb \<longrightarrow> cv_tables E n = Some tb)"

lemma env_providesD:
  assumes "env_provides E b C T"
  shows "set bs \<subseteq> set_option b \<Longrightarrow> admissible (cv_binders E) bs"
    and "C i = Some t \<Longrightarrow> \<exists>v. cv_captures E i = Some v \<and> constant_form t v"
    and "T n = Some (vs, t', start) \<Longrightarrow> cv_tables E n = Some (vs, t', start)"
    and "env_provides E b C Map.empty"
  using assms by (auto simp: env_provides_def admissible_def)

text \<open>Evaluation with every sufficient depth.\<close>

definition evals :: "const_env \<Rightarrow> hw_expr \<Rightarrow> rt_value \<Rightarrow> bool" where
  "evals E x v \<longleftrightarrow> (\<exists>n. \<forall>k\<ge>n. constant_value k E x = Inr v)"

definition yields :: "const_env \<Rightarrow> hw_expr \<Rightarrow> bool" where
  "yields E x \<longleftrightarrow> (\<exists>v. evals E x v \<and> constant_form (type_of x) v)"

section \<open>Evaluation of each class\<close>

lemma evalsI: "(\<And>k. n \<le> k \<Longrightarrow> constant_value (Suc k) E x = Inr v) \<Longrightarrow> evals E x v"
  unfolding evals_def by (rule exI [of _ "Suc n"]) (metis Suc_le_D Suc_le_mono)

lemma evals_list:
  assumes "\<And>x. x \<in> set xs \<Longrightarrow> \<exists>v n. (\<forall>k\<ge>n::nat. f k x = Inr v) \<and> P x v"
  shows "\<exists>vs n. (\<forall>k\<ge>n::nat. mapE (f k) xs = Inr vs) \<and> list_all2 P xs vs"
  using assms
proof (induction xs)
  case (Cons x xs)
  obtain v n where v: "\<forall>k\<ge>n. f k x = Inr v" "P x v" using Cons.prems by fastforce
  obtain vs m where "\<forall>k\<ge>m. mapE (f k) xs = Inr vs" "list_all2 P xs vs" using Cons by fastforce
  then have "mapE (f k) (x # xs) = Inr (v # vs)" if "max n m \<le> k" for k using v that by (simp add: max.bounded_iff)
  moreover have "list_all2 P (x # xs) (v # vs)" using v \<open>list_all2 P xs vs\<close> by simp
  ultimately show ?case by blast
qed simp

lemma yieldsE:
  assumes "yields E x"
  obtains v n where "\<And>k. n \<le> k \<Longrightarrow> constant_value k E x = Inr v" "constant_form (type_of x) v"
  using assms by (auto simp: yields_def evals_def)

lemma yieldsI:
  assumes "\<And>k. n \<le> k \<Longrightarrow> constant_value (Suc k) E x = Inr v" "constant_form (type_of x) v"
  shows "yields E x"
  using assms evalsI unfolding yields_def by blast

lemma yields_scalar:
  assumes "yields E x" "scalar_type (type_of x)"
  obtains i n where "\<And>k. n \<le> k \<Longrightarrow> constant_value k E x = Inr (VInt i)" "int_fits i (type_of x)"
proof (rule yieldsE [OF assms(1)])
  fix v n assume v: "\<And>k. n \<le> k \<Longrightarrow> constant_value k E x = Inr v" "constant_form (type_of x) v"
  then obtain i where "v = VInt i" "int_fits i (type_of x)" using assms(2) by (auto simp: constant_form_flat)
  then show thesis using that [of n i] v by simp
qed

lemmas cvs = constant_value.simps(2)

lemma yields_compare:
  assumes "compares p" "yields E l" "yields E r" "scalar_type (type_of l)" "scalar_type (type_of r)"
  shows "yields E (EBinary p l r ot BitType)"
proof -
  obtain i m where i: "\<And>k. m \<le> k \<Longrightarrow> constant_value k E l = Inr (VInt i)" using yields_scalar [OF assms(2,4)] by metis
  obtain j n where j: "\<And>k. n \<le> k \<Longrightarrow> constant_value k E r = Inr (VInt j)" using yields_scalar [OF assms(3,5)] by metis
  obtain f where f: "constant_comparison p = (\<lambda>a b. Some (of_bool (f a b)))" using assms(1) by (auto simp: compares_iff)
  show ?thesis
    by (rule yieldsI [where n = "max m n" and v = "VInt (of_bool (f i j))"]) (simp_all add: cvs i j f const_binary_def)
qed

lemma yields_bitwise:
  assumes "bitwise_combine p = Some f" "yields E l" "yields E r" "type_of l = t" "type_of r = t" "flat_scalar t" "packable t"
  shows "yields E (EBinary p l r t t)"
proof -
  obtain i m where i: "\<And>k. m \<le> k \<Longrightarrow> constant_value k E l = Inr (VInt i)" "int_fits i t"
    using yields_scalar [OF assms(2)] assms(4,6) scalar_type_simps(2) by metis
  obtain j n where j: "\<And>k. n \<le> k \<Longrightarrow> constant_value k E r = Inr (VInt j)" "int_fits j t"
    using yields_scalar [OF assms(3)] assms(5,6) scalar_type_simps(2) by metis
  obtain v where v: "constant_bitwise p (VInt i) (VInt j) t = Some (Inr v)" "constant_form t v"
    using constant_bitwise_form [OF assms(7,6,1), of "VInt i" "VInt j"] i(2) j(2) assms(6) by (auto simp: constant_form_flat)
  have c: "constant_comparison p i j = None"
    using assms(1) by (cases p) (simp_all add: bitwise_combine_def constant_comparison_def)
  show ?thesis
    by (rule yieldsI [where n = "max m n" and v = v]) (simp_all add: cvs i j v c const_binary_def escape_def)
qed

lemma yields_reduce:
  assumes "reduce_operation p = Some q" "yields E c" "type_of c = VecType n t" "0 < n" "flat_scalar t" "packable t"
    "mk_reduce p c t y pl = Inr x"
  shows "yields E x"
proof -
  have x: "x = EReduce p c t y pl" using assms(7,3) by (cases pl) (auto simp: mk_reduce_def split: if_splits)
  obtain v m where v: "\<And>k. m \<le> k \<Longrightarrow> constant_value k E c = Inr v" "constant_form (VecType n t) v"
    using yieldsE [OF assms(2)] assms(3) by metis
  then obtain xs where xs: "v = VTuple xs" "length xs = n" "\<forall>x\<in>set xs. constant_form t x" by (cases v) auto
  obtain f where f: "bitwise_combine q = Some f"
    using assms(1) by (cases p) (auto simp: reduce_operation_def bitwise_combine_def)
  have "xs \<noteq> []" using xs(2) assms(4) by auto
  then obtain u where "reduce_bitwise q t xs = Inr u" "constant_form t u"
    using reduce_bitwise_form [OF assms(6,5) f _ xs(3)] by blast
  then show ?thesis unfolding x
    by (intro yieldsI [where n = m and v = u]) (simp_all add: cvs v xs assms(1,3) vector_items_def)
qed

lemma yields_enum:
  assumes "yields E e" "scalar_type (type_of e)"
  shows "type_of e = EnumType d \<Longrightarrow> wf_enum d \<Longrightarrow> yields E (EEnumEncode e (BitsType (enum_width d)))"
    and "yields E (EEnumValid e d BitType)"
    and "yields E f \<Longrightarrow> type_of f = EnumType d \<Longrightarrow> yields E (EEnumDecode e f d)"
proof -
  obtain i n where i: "\<And>k. n \<le> k \<Longrightarrow> constant_value k E e = Inr (VInt i)" "int_fits i (type_of e)"
    using yields_scalar [OF assms] by metis
  show "yields E (EEnumEncode e (BitsType (enum_width d)))" if "type_of e = EnumType d" "wf_enum d"
    using i that enum_code_bounds [of d i]
    by (intro yieldsI [where n = n and v = "VInt i"]) (simp_all add: cvs is_valid_code_def)
  show "yields E (EEnumValid e d BitType)"
    using i by (intro yieldsI [where n = n and v = "VInt (of_bool (code_valid d (VInt i)))"]) (simp_all add: cvs)
  show "yields E (EEnumDecode e f d)" if f: "yields E f" "type_of f = EnumType d"
  proof (cases "is_valid_code d i")
    case True
    then show ?thesis using i
      by (intro yieldsI [where n = n and v = "VInt i"]) (simp_all add: cvs code_valid_def)
  next
    case False
    have "scalar_type (type_of f)" using f(2) by simp
    then obtain j m where j: "\<And>k. m \<le> k \<Longrightarrow> constant_value k E f = Inr (VInt j)" "int_fits j (type_of f)"
      using yields_scalar [OF f(1)] by metis
    show ?thesis using i j f(2) False
      by (intro yieldsI [where n = "max m n" and v = "VInt j"]) (simp_all add: cvs code_valid_def)
  qed
qed

lemma yields_capture: "env_provides E b C T \<Longrightarrow> C i = Some t \<Longrightarrow> yields E (ECapture (i, n, t))"
  using env_providesD(2) [of E b C T i t] by (auto simp: cvs intro!: yieldsI)

lemma unsigned_form: "is_unsigned_integral t \<Longrightarrow> 0 \<le> i \<Longrightarrow> i < 2 ^ width t \<Longrightarrow> constant_form t (VInt i)"
  by (cases t) simp_all

lemma yields_func_value:
  assumes "env_provides E b C T" "mk_func_value c t = Inr x" "set (ct_binders c) \<subseteq> set_option b"
  shows "yields E x"
proof -
  obtain lo hi where r: "compile_time_range c = Inr (lo, hi)" "0 \<le> lo" "hi < 2 ^ width t"
    "is_unsigned_integral t" "x = EFuncValue c t"
    using assms(2) by (auto simp: mk_func_value_def split: if_splits)
  obtain i where i: "evaluate_compile_time (cv_binders E) c = Inr i" "lo \<le> i" "i \<le> hi"
    using range_evaluates(1) [OF r(1) env_providesD(1) [OF assms(1,3)]] by (auto simp: within_def)
  then have "constant_form t (VInt i)" using r by (intro unsigned_form) simp_all
  then show ?thesis unfolding r(5)
    using i by (intro yieldsI [where n = 0 and v = "VInt i"]) (simp_all add: cvs liftCt_def)
qed

lemma yields_lookup:
  assumes env: "env_provides E b C T" and T: "T n = Some (vs, t, start)"
    and vs: "\<forall>v\<in>set vs. type_of v = t" "\<forall>v\<in>set vs. yields E v"
    and r: "compile_time_range i = Inr (lo, hi)" "start \<le> lo" "hi < start + int (length vs)"
    and b: "set (ct_binders i) \<subseteq> set_option b" and x: "mk_lookup n i t r = Inr x"
  shows "yields E x"
proof -
  have ex: "\<exists>r. x = ELookup n i t r"
    using x by (auto simp: mk_lookup_def Let_def split: if_splits option.splits)
  obtain j where j: "evaluate_compile_time (cv_binders E) i = Inr j" "lo \<le> j" "j \<le> hi"
    using range_evaluates(1) [OF r(1) env_providesD(1) [OF env b]] by (auto simp: within_def)
  let ?v = "vs ! nat (j - start)"
  have off: "0 \<le> j - start" "j - start < int (length vs)" using j r by simp_all
  then have mem: "?v \<in> set vs" by (simp add: nat_less_iff)
  obtain v m where v: "\<And>k. m \<le> k \<Longrightarrow> constant_value k E ?v = Inr v" "constant_form t v"
    using yieldsE [of E ?v] vs mem by metis
  have "cv_tables E n = Some (vs, t, start)" using env_providesD(3) [OF env T] .
  then show ?thesis using ex v j off
    by (auto simp: cvs liftCt_def intro!: yieldsI [where n = m and v = v])
qed

lemma yields_all:
  assumes "\<forall>e\<in>set es. yields E (g e)"
  shows "\<exists>vs n. (\<forall>k\<ge>n. mapE (\<lambda>e. constant_value k E (g e)) es = Inr vs) \<and>
    list_all2 (\<lambda>e v. constant_form (type_of (g e)) v) es vs"
proof (rule evals_list)
  fix e assume "e \<in> set es"
  then show "\<exists>v n. (\<forall>k\<ge>n. constant_value k E (g e) = Inr v) \<and> constant_form (type_of (g e)) v"
    using assms by (auto simp: yields_def evals_def)
qed

lemma keyed_values:
  fixes fs :: "('k \<times> hw_expr) list"
  assumes "\<forall>k\<ge>n::nat. mapE (\<lambda>f. constant_value k E (snd f)) fs = Inr vs"
  shows "n \<le> k \<Longrightarrow> mapE (\<lambda>f. bindE (constant_value k E (snd f)) (\<lambda>v. Inr (fst f, v))) fs = Inr (zip (map fst fs) vs)"
proof -
  have "mapE g fs = Inr vs \<Longrightarrow> mapE (\<lambda>f. bindE (g f) (\<lambda>v. Inr (fst f, v))) fs = Inr (zip (map fst fs) vs)"
    for g :: "'k \<times> hw_expr \<Rightarrow> const_error + rt_value" by (induction fs arbitrary: vs) auto
  moreover assume "n \<le> k"
  ultimately show ?thesis using assms by blast
qed

lemma yields_struct:
  assumes "map fst fs = map fst fs'" "map (\<lambda>f. type_of (snd f)) fs = map snd fs'" "distinct (map fst fs')"
    "\<forall>f\<in>set fs. yields E (snd f)"
  shows "yields E (EStruct n fs (StructType m fs'))"
proof -
  obtain vs j where vs: "\<forall>k\<ge>j. mapE (\<lambda>f. constant_value k E (snd f)) fs = Inr vs"
    and form: "list_all2 (\<lambda>f v. constant_form (type_of (snd f)) v) fs vs"
    using yields_all [OF assms(4)] by blast
  have len: "length vs = length fs" "length fs' = length fs"
    using list_all2_lengthD [OF form] map_eq_imp_length_eq [OF assms(1)] by simp_all
  have keys: "map fst (zip (map fst fs) vs) = map fst fs'" using len assms(1) by simp
  have "constant_form (snd f) x" if f: "f \<in> set fs'" and x: "map_of (zip (map fst fs) vs) (fst f) = Some x" for f x
  proof -
    obtain i where i: "i < length fs" "f = fs' ! i" using f len by (metis in_set_conv_nth)
    have "map fst fs ! i = fst f" using i len assms(1) by (metis nth_map)
    then have "map_of (zip (map fst fs) vs) (fst f) = Some (vs ! i)"
      using i len assms(1,3) by (metis length_map map_of_zip_nth)
    moreover have "type_of (snd (fs ! i)) = snd f" using i len assms(2) by (metis nth_map)
    ultimately show ?thesis using x form i by (auto simp: list_all2_conv_all_nth)
  qed
  moreover have "map_of (zip (map fst fs) vs) (fst f) \<noteq> None" if "f \<in> set fs'" for f
    using that keys by (metis image_eqI map_of_eq_None_iff set_map)
  ultimately have form: "constant_form (StructType m fs') (VDict (zip (map fst fs) vs))"
    using keys by (fastforce split: option.splits)
  have "dict_of (zip (map fst fs) vs) = zip (map fst fs) vs" using keys assms(3) by (intro dict_of_distinct) simp
  then show ?thesis using keyed_values [OF vs] form
    by (intro yieldsI [where n = j and v = "VDict (zip (map fst fs) vs)"]) (simp_all add: cvs)
qed

lemma tuple_form:
  "list_all2 (\<lambda>e v. constant_form (type_of e) v) es vs \<Longrightarrow> constant_form (TupleType (map type_of es)) (VTuple vs)"
  by (auto simp: list_all2_conv_all_nth set_zip)

lemma yields_tuple:
  assumes "mk_tuple_expr es ts = Inr x" "\<forall>e\<in>set es. yields E e"
  shows "yields E x"
proof -
  have x: "x = ETuple es (TupleType ts)" "ts = map type_of es"
    using assms(1) by (auto simp: mk_tuple_expr_def split: if_splits)
  obtain vs n where "\<forall>k\<ge>n. mapE (\<lambda>e. constant_value k E e) es = Inr vs"
    "list_all2 (\<lambda>e v. constant_form (type_of e) v) es vs" using yields_all [where g = "\<lambda>e. e"] assms(2) by blast
  then show ?thesis unfolding x using tuple_form
    by (intro yieldsI [where n = n and v = "VTuple vs"]) (simp_all add: cvs)
qed

lemma yields_project:
  assumes "mk_project e i t = Inr x" "yields E e"
  shows "yields E x"
proof -
  obtain ts where ts: "type_of e = TupleType ts" "0 \<le> i" "i < int (length ts)" "t = ts ! nat i" "x = EProject e (nat i) t"
    using assms(1) by (auto simp: mk_project_def split: hwtype.splits if_splits)
  obtain v n where v: "\<And>k. n \<le> k \<Longrightarrow> constant_value k E e = Inr v" "constant_form (TupleType ts) v"
    using yieldsE [OF assms(2)] ts(1) by metis
  then obtain xs where xs: "v = VTuple xs" "length xs = length ts" "\<forall>p\<in>set (zip xs ts). constant_form (snd p) (fst p)"
    by (cases v) auto
  have "(xs ! nat i, ts ! nat i) \<in> set (zip xs ts)" using xs(2) ts(2,3) by (force simp: set_zip)
  then have "constant_form t (xs ! nat i)" using xs(3) ts(4) by fastforce
  then show ?thesis unfolding ts(5) using v xs ts
    by (intro yieldsI [where n = n and v = "xs ! nat i"]) (simp_all add: cvs)
qed

lemma yields_elements:
  assumes "\<forall>e\<in>set es. yields E e \<and> type_of e = el"
  shows "yields E (EElements es (VecType (length es) el))"
proof -
  obtain vs n where vs: "\<forall>k\<ge>n. mapE (\<lambda>e. constant_value k E e) es = Inr vs"
    "list_all2 (\<lambda>e v. constant_form (type_of e) v) es vs" using yields_all [where g = "\<lambda>e. e"] assms by blast
  then have "constant_form (VecType (length es) el) (VTuple vs)"
    using assms by (fastforce simp: list_all2_conv_all_nth in_set_conv_nth)
  then show ?thesis using vs(1)
    by (intro yieldsI [where n = n and v = "VTuple vs"]) (simp_all add: cvs)
qed

lemma yields_union:
  assumes "mk_union_expr var fs n vs d = Inr x" "\<forall>f\<in>set fs. yields E (snd f)"
    "\<forall>f\<in>set fs. distinct_fields (type_of (snd f))"
  shows "yields E x"
proof -
  obtain decl where decl: "union_variant_of vs var = Some decl" "map fst fs = map fst (snd decl)"
    "map (\<lambda>f. type_of (snd f)) fs = map snd (snd decl)" "x = EUnion var fs (TaggedUnionType n vs d)"
    using assms(1) by (auto simp: mk_union_expr_def split: option.splits if_splits)
  obtain us j where us: "\<forall>k\<ge>j. mapE (\<lambda>f. constant_value k E (snd f)) fs = Inr us"
    and form: "list_all2 (\<lambda>f v. constant_form (type_of (snd f)) v) fs us" using yields_all [OF assms(2)] by blast
  have len: "length us = length fs" "length (snd decl) = length fs"
    using list_all2_lengthD [OF form] map_eq_imp_length_eq [OF decl(2)] by simp_all
  have "runtime_value_fits (snd (snd p)) (snd (fst p))" if p: "p \<in> set (zip (snd decl) (zip (map fst fs) us))" for p
  proof -
    obtain i where i: "i < length fs" "p = (snd decl ! i, (fst (fs ! i), us ! i))" using p len by (auto simp: set_zip)
    have "snd (snd decl ! i) = type_of (snd (fs ! i))" using decl(3) i(1) len by (metis nth_map)
    moreover have "constant_form (type_of (snd (fs ! i))) (us ! i)" using form i(1) by (simp add: list_all2_conv_all_nth)
    ultimately show ?thesis using constant_form_fits assms(3) i by (simp add: nth_mem)
  qed
  then have find: "List.find (\<lambda>p. \<not> runtime_value_fits (snd (snd p)) (snd (fst p))) (zip (snd decl) (zip (map fst fs) us)) = None"
    by (auto simp: find_None_iff)
  have "mk_union_value n vs d var (zip (map fst fs) us) = Inr (VUnion (TaggedUnionType n vs d) var (zip (map fst fs) us))"
    using find decl len by (simp add: mk_union_value_def)
  then show ?thesis unfolding decl(4) using keyed_values [OF us]
    by (intro yieldsI [where n = j and v = "VUnion (TaggedUnionType n vs d) var (zip (map fst fs) us)"]) (simp_all add: cvs)
qed

lemma vector_value:
  assumes "yields E e" "type_of e = VecType n el"
  obtains xs m where "\<And>k. m \<le> k \<Longrightarrow> constant_value k E e = Inr (VTuple xs)" "length xs = n" "\<forall>x\<in>set xs. constant_form el x"
proof (rule yieldsE [OF assms(1)])
  fix v m assume v: "\<And>k. m \<le> k \<Longrightarrow> constant_value k E e = Inr v" "constant_form (type_of e) v"
  then obtain xs where "v = VTuple xs" "length xs = n" "\<forall>x\<in>set xs. constant_form el x" using assms(2) by (cases v) auto
  then show thesis using that [of m xs] v by simp
qed

lemma yields_index:
  assumes "env_provides E b C T" "mk_index e i t = Inr x" "yields E e" "set (operand_binders i) \<subseteq> set_option b"
  shows "yields E x"
proof -
  obtain n lo hi where r: "type_of e = VecType n t" "operand_range i = Inr (lo, hi)" "0 \<le> lo" "hi < int n" "x = EIndex e i t"
    using assms(2) by (auto simp: mk_index_def split: hwtype.splits if_splits)
  obtain j where j: "evaluate_operand (cv_binders E) i = Inr j" "lo \<le> j" "j \<le> hi"
    using range_evaluates(2) [OF r(2) env_providesD(1) [OF assms(1,4)]] by (auto simp: within_def)
  obtain xs m where v: "\<And>k. m \<le> k \<Longrightarrow> constant_value k E e = Inr (VTuple xs)" "length xs = n" "\<forall>x\<in>set xs. constant_form t x"
    using vector_value [OF assms(3) r(1)] by metis
  then show ?thesis unfolding r(5) using r j
    by (intro yieldsI [where n = m and v = "xs ! nat j"]) (simp_all add: cvs const_index_def vector_items_def liftCt_def)
qed

lemma yields_update:
  assumes "mk_update e i v n r t = Inr x" "yields E e" "yields E i" "yields E v" "index_safe i n"
  shows "yields E x"
proof -
  obtain el where r: "type_of e = VecType n el" "type_of v = el" "t = VecType n el" "x = EUpdate e i v n r t"
    using assms(1) by (auto simp: mk_update_def split: hwtype.splits if_splits)
  obtain xs m where xs: "\<And>k. m \<le> k \<Longrightarrow> constant_value k E e = Inr (VTuple xs)" "length xs = n" "\<forall>x\<in>set xs. constant_form el x"
    using vector_value [OF assms(2) r(1)] by metis
  have "scalar_type (type_of i)" using assms(5) by (cases "type_of i") (simp_all add: index_safe_def)
  then obtain j l where j: "\<And>k. l \<le> k \<Longrightarrow> constant_value k E i = Inr (VInt j)" "int_fits j (type_of i)"
    using yields_scalar [OF assms(3)] by metis
  have range: "0 \<le> j \<and> j < int n"
  proof (cases "2 ^ width (type_of i) \<le> n")
    case True
    then have "(2::int) ^ width (type_of i) \<le> int n" by (metis of_nat_le_iff of_nat_numeral of_nat_power)
    moreover have "0 \<le> j" "j < 2 ^ width (type_of i)"
      using j(2) assms(5) by (cases "type_of i"; simp add: index_safe_def)+
    ultimately show ?thesis using order.strict_trans2 by blast
  next
    case False
    then obtain c tc where c: "i = EConst c tc" "0 \<le> c" "c < int n"
      using assms(5) by (cases i) (simp_all add: index_safe_def)
    then show ?thesis using j(1) [of "Suc l"] by (simp add: cvs)
  qed
  obtain y k0 where y: "\<And>k. k0 \<le> k \<Longrightarrow> constant_value k E v = Inr y" "constant_form el y"
    using yieldsE [OF assms(4)] r(2) by metis
  have "constant_form t (VTuple (xs[nat j := y]))" using xs(2,3) y(2) r(3) by (auto dest!: subsetD [OF set_update_subset_insert])
  then show ?thesis unfolding r(4) using xs(1,2) j(1) y(1) range r(3)
    by (intro yieldsI [where n = "max m (max l k0)" and v = "VTuple (xs[nat j := y])"])
      (simp_all add: cvs vector_items_def nat_less_iff)
qed

lemma packed_width_packable: "packable t \<Longrightarrow> packed_width t = Inr (width t)"
  by (simp add: packable_def packed_width_ok)

lemma yields_slice:
  assumes "yields E e" "packable (type_of e)" "0 \<le> lsb" "lsb \<le> msb" "msb < int (width (type_of e))"
    "t = BitsType (nat (msb - lsb + 1)) \<or> t = UIntType (nat (msb - lsb + 1))"
  shows "yields E (ESlice e msb lsb t)"
proof -
  obtain v n where v: "\<And>k. n \<le> k \<Longrightarrow> constant_value k E e = Inr v" "constant_form (type_of e) v"
    using yieldsE [OF assms(1)] by metis
  obtain raw where raw: "pack_runtime (type_of e) v = Inr raw" using pack_constant [OF assms(2) v(2)] by blast
  let ?r = "shr raw (nat lsb) AND ones (nat (msb - lsb + 1))"
  have "slice_runtime (VInt raw) (int (width (type_of e))) msb lsb = Inr ?r"
    using assms(3-5) by (simp add: slice_runtime_def slice_width_def bit_mask_def)
  moreover have "constant_form t (VInt ?r)" using assms(6) by (auto simp: and_ones)
  ultimately show ?thesis using v raw packed_width_packable [OF assms(2)]
    by (intro yieldsI [where n = n and v = "VInt ?r"]) (simp_all add: cvs const_slice_def catch_packing_def escape_def)
qed

lemma yields_cast:
  assumes "yields E e" "packable (type_of e)" "packable t" "width (type_of e) = width t"
  shows "yields E (ECast c e t)"
proof -
  obtain v n where v: "\<And>k. n \<le> k \<Longrightarrow> constant_value k E e = Inr v" "constant_form (type_of e) v"
    using yieldsE [OF assms(1)] by metis
  obtain raw where raw: "pack_runtime (type_of e) v = Inr raw" "0 \<le> raw" "raw < 2 ^ width t"
    using pack_constant [OF assms(2) v(2)] assms(4) by auto
  obtain u y where "unpack_runtime t raw = Inr u" "freeze_runtime t u = Inr y" "constant_form t y"
    using freeze_unpacked [OF assms(3) raw(2,3)] by blast
  then show ?thesis using v raw packed_width_packable [OF assms(2)] packed_width_packable [OF assms(3)] assms(4)
    by (intro yieldsI [where n = n and v = y]) (simp_all add: cvs const_cast_def catch_packing_def escape_def)
qed

lemma yields_concat:
  assumes "\<forall>e\<in>set es. yields E e \<and> packable (type_of e)" "2 \<le> length es"
    "w = sum_list (map (\<lambda>e. width (type_of e)) es)" "t = BitsType w \<or> t = UIntType w"
  shows "yields E (EConcat es t)"
proof -
  let ?raw = "\<lambda>k e. bindE (constant_value k E e) (\<lambda>v. bindE (escape (pack_runtime (type_of e) v)) (\<lambda>raw.
      bindE (escape (packed_width (type_of e))) (\<lambda>w. Inr (VInt raw, int w))))"
  have "\<exists>ps n. (\<forall>k\<ge>n. mapE (?raw k) es = Inr ps) \<and>
    list_all2 (\<lambda>e p. \<exists>r. p = (VInt r, int (width (type_of e)))) es ps"
  proof (rule evals_list)
    fix e assume "e \<in> set es"
    then have e: "yields E e" "packable (type_of e)" using assms(1) by blast+
    obtain v n where v: "\<And>k. n \<le> k \<Longrightarrow> constant_value k E e = Inr v" "constant_form (type_of e) v"
      using yieldsE [OF e(1)] by metis
    obtain r where r: "pack_runtime (type_of e) v = Inr r" using pack_constant [OF e(2) v(2)] by blast
    have "\<forall>k\<ge>n. ?raw k e = Inr (VInt r, int (width (type_of e)))"
      using v r packed_width_packable [OF e(2)] by (simp add: escape_def)
    then show "\<exists>p n. (\<forall>k\<ge>n. ?raw k e = Inr p) \<and> (\<exists>r. p = (VInt r, int (width (type_of e))))" by blast
  qed
  then obtain ps n where ps: "\<forall>k\<ge>n. mapE (?raw k) es = Inr ps"
    and parts: "list_all2 (\<lambda>e p. \<exists>r. p = (VInt r, int (width (type_of e)))) es ps" by blast
  obtain rs where rs: "length rs = length es" "\<forall>i<length es. ps ! i = (VInt (rs ! i), int (width (type_of (es ! i))))"
  proof -
    have "\<forall>i<length es. \<exists>r. ps ! i = (VInt r, int (width (type_of (es ! i))))"
      using parts by (simp add: list_all2_conv_all_nth)
    then obtain f where "\<forall>i<length es. ps ! i = (VInt (f i), int (width (type_of (es ! i))))" by metis
    then show thesis using that [of "map f [0..<length es]"] by simp
  qed
  let ?qs = "map (\<lambda>i. (width (type_of (es ! i)), rs ! i)) [0..<length es]"
  have eq: "ps = parts_of ?qs"
    using rs list_all2_lengthD [OF parts] by (intro nth_equalityI) (simp_all add: parts_of_def)
  have tot: "total_bits ?qs = w" unfolding assms(3)
    using sum_list_take [of "length es" es "\<lambda>e. width (type_of e)"] by (simp add: total_bits_def comp_def)
  have "2 \<le> length ?qs" "\<forall>p\<in>set ?qs. 0 < fst p"
    using assms(1,2) packable_width_pos by (auto simp: packable_def)
  note c = concat_parts [OF this]
  show ?thesis
    using ps eq tot c assms(4)
    by (intro yieldsI [where n = n and v = "VInt (lsbv (rev (map (\<lambda>p. (fst p, snd p mod 2 ^ fst p)) ?qs)))"])
      (auto simp: cvs catch_packing_def escape_def)
qed

lemma yields_vec_concat:
  assumes "\<forall>e\<in>set es. yields E e \<and> (\<exists>m. type_of e = VecType m el)"
    "n = sum_list (map (\<lambda>e. case type_of e of VecType m _ \<Rightarrow> m | _ \<Rightarrow> 0) es)"
  shows "yields E (EVecConcat es (VecType n el))"
proof -
  let ?len = "\<lambda>e. case type_of e of VecType m _ \<Rightarrow> m | _ \<Rightarrow> 0"
  let ?row = "\<lambda>k e. case type_of e of VecType m el' \<Rightarrow> if el' \<noteq> el then Inl ConcatOperand
      else bindE (constant_value k E e) (\<lambda>v. vector_items (type_of e) v ''vector concat'') | _ \<Rightarrow> Inl ConcatOperand"
  have "\<exists>xss j. (\<forall>k\<ge>j. mapE (?row k) es = Inr xss) \<and>
    list_all2 (\<lambda>e xs. length xs = ?len e \<and> (\<forall>x\<in>set xs. constant_form el x)) es xss"
  proof (rule evals_list)
    fix e assume "e \<in> set es"
    then obtain m where e: "yields E e" "type_of e = VecType m el" using assms(1) by blast
    obtain xs j where xs: "\<And>k. j \<le> k \<Longrightarrow> constant_value k E e = Inr (VTuple xs)" "length xs = m" "\<forall>x\<in>set xs. constant_form el x"
      using vector_value [OF e] by metis
    then have "\<forall>k\<ge>j. ?row k e = Inr xs" using e(2) by (simp add: vector_items_def)
    then show "\<exists>xs j. (\<forall>k\<ge>j. ?row k e = Inr xs) \<and> (length xs = ?len e \<and> (\<forall>x\<in>set xs. constant_form el x))"
      using xs e(2) by auto
  qed
  then obtain xss j where row: "\<forall>k\<ge>j. mapE (?row k) es = Inr xss"
    and rows: "list_all2 (\<lambda>e xs. length xs = ?len e \<and> (\<forall>x\<in>set xs. constant_form el x)) es xss" by blast
  have "map length xss = map ?len es" using rows
    by (intro nth_equalityI) (simp_all add: list_all2_conv_all_nth)
  then have len: "length (concat xss) = n" using assms(2) by (simp add: length_concat)
  have "\<forall>x\<in>set (concat xss). constant_form el x" using rows by (induction rule: list_all2_induct) auto
  then show ?thesis using row len
    by (intro yieldsI [where n = j and v = "VTuple (concat xss)"]) (simp_all add: cvs)
qed

lemma yields_reshape:
  assumes "yields E e" "type_of e = VecType n el" "vector_leaf_shape n el = vector_leaf_shape m el'"
  shows "yields E (EReshape e (VecType m el'))"
proof -
  obtain v j where v: "\<And>k. j \<le> k \<Longrightarrow> constant_value k E e = Inr v" "constant_form (VecType n el) v"
    using yieldsE [OF assms(1)] assms(2) by metis
  obtain ls where ls: "flatten_constant (VecType n el) v = Inr ls" "length ls = leaf_count n el"
    "\<forall>x\<in>set ls. constant_form (leaf_type el) x" using flatten_constant_leaves [OF v(2)] by blast
  have s: "leaf_count m el' = leaf_count n el" "leaf_type el' = leaf_type el"
    using assms(3) by (simp_all add: vector_leaf_shape_def)
  obtain u where "rebuild_constant m el' ls 0 = Inr (u, length ls)" "constant_form (VecType m el') u"
    using rebuild_constant_form [of 0 m el' ls] ls s by auto
  then show ?thesis using v ls assms(2,3)
    by (intro yieldsI [where n = j and v = u]) (simp_all add: cvs const_reshape_def)
qed

lemma region_env_provides:
  assumes caps: "distinct (map (\<lambda>c. fst (fst c)) cs)" and tabs: "distinct (map table_name ts)"
    and ty: "\<forall>c\<in>set cs. snd (snd (fst c)) = type_of (snd c)"
    and form: "list_all2 (\<lambda>c v. constant_form (type_of (snd c)) v) cs vs"
    and i: "bd_start b \<le> i" "i < bd_stop b"
  shows "env_provides (region_env E ts (zip (map fst cs) vs) b i) (Some b)
    (map_of (map (\<lambda>c. (fst (fst c), snd (snd (fst c)))) cs)) (map_of ts)"
proof -
  have len: "length vs = length cs" using form by (simp add: list_all2_lengthD)
  let ?kv = "map (\<lambda>c. (fst (fst c), snd c)) (zip (map fst cs) vs)"
  have keys: "map fst ?kv = map (\<lambda>c. fst (fst c)) cs" using len by (intro nth_equalityI) simp_all
  have rev_kv: "map_of (rev ?kv) = map_of ?kv" using caps keys by (intro map_of_rev_distinct) simp
  have rev_ts: "map_of (rev ts) = map_of ts" using tabs by (intro map_of_rev_distinct) (simp add: table_name_def [abs_def])
  have "\<exists>v. (cv_captures E ++ map_of (rev ?kv)) j = Some v \<and> constant_form t v"
    if found: "map_of (map (\<lambda>c. (fst (fst c), snd (snd (fst c)))) cs) j = Some t" for j t
  proof -
    obtain c where c: "c \<in> set cs" "j = fst (fst c)" "t = snd (snd (fst c))"
      using map_of_SomeD [OF found] by auto
    then obtain m where m: "m < length cs" "c = cs ! m" by (metis in_set_conv_nth)
    have "?kv ! m = (j, vs ! m)" using m len c by simp
    then have "map_of ?kv j = Some (vs ! m)"
      using caps keys m len by (metis (no_types, lifting) length_map length_zip map_of_eq_Some_iff min.idem nth_mem)
    moreover have "constant_form t (vs ! m)" using form m ty c by (auto simp: list_all2_conv_all_nth)
    ultimately show ?thesis unfolding rev_kv by auto
  qed
  then show ?thesis using i by (auto simp: env_provides_def region_env_def rev_ts)
qed

lemma mk_region_iff:
  "mk_region k b e ts cs cts t = Inr x \<Longrightarrow> \<exists>n. t = VecType n (type_of e) \<and> int n = bd_stop b - bd_start b \<and>
     distinct (map table_name ts) \<and> distinct (map (\<lambda>c. fst (fst c)) cs) \<and>
     (\<forall>c\<in>set cs. snd (snd (fst c)) = type_of (snd c)) \<and> x = ERegion k b e ts cs cts t"
  by (auto simp: mk_region_def find_None_iff split: hwtype.splits if_splits option.splits)

lemma yields_region:
  assumes x: "mk_region g b e ts cs cts t = Inr x" and cs: "\<forall>c\<in>set cs. yields E (snd c)"
    and body: "\<And>E'. env_provides E' (Some b) (map_of (map (\<lambda>c. (fst (fst c), snd (snd (fst c)))) cs)) (map_of ts) \<Longrightarrow> yields E' e"
  shows "yields E x"
proof -
  obtain n where t: "t = VecType n (type_of e)" "int n = bd_stop b - bd_start b" "x = ERegion g b e ts cs cts t"
    and d: "distinct (map table_name ts)" "distinct (map (\<lambda>c. fst (fst c)) cs)" "\<forall>c\<in>set cs. snd (snd (fst c)) = type_of (snd c)"
    using mk_region_iff [OF x] by blast
  obtain vs j where vs: "\<forall>k\<ge>j. mapE (\<lambda>c. constant_value k E (snd c)) cs = Inr vs"
    and form: "list_all2 (\<lambda>c v. constant_form (type_of (snd c)) v) cs vs" using yields_all [OF cs] by blast
  let ?E = "region_env E ts (zip (map fst cs) vs) b"
  have "\<exists>us l. (\<forall>k\<ge>l. mapE (\<lambda>i. constant_value k (?E i) e) [bd_start b..bd_stop b - 1] = Inr us) \<and>
    list_all2 (\<lambda>i u. constant_form (type_of e) u) [bd_start b..bd_stop b - 1] us"
  proof (rule evals_list)
    fix i assume "i \<in> set [bd_start b..bd_stop b - 1]"
    then have i: "bd_start b \<le> i" "i < bd_stop b" by auto
    show "\<exists>v n. (\<forall>k\<ge>n. constant_value k (?E i) e = Inr v) \<and> constant_form (type_of e) v"
      using body [OF region_env_provides [OF d(2,1,3) form i]] by (auto simp: yields_def evals_def)
  qed
  then obtain us l where us: "\<forall>k\<ge>l. mapE (\<lambda>i. constant_value k (?E i) e) [bd_start b..bd_stop b - 1] = Inr us"
    "list_all2 (\<lambda>i u. constant_form (type_of e) u) [bd_start b..bd_stop b - 1] us" by blast
  have "length us = n" using list_all2_lengthD [OF us(2)] t(2) by simp
  moreover have "\<forall>u\<in>set us. constant_form (type_of e) u" using us(2) by (auto simp: list_all2_conv_all_nth in_set_conv_nth)
  ultimately show ?thesis unfolding t(3) using keyed_values [OF vs] us(1) t(1)
    by (intro yieldsI [where n = "max j l" and v = "VTuple us"]) (simp_all add: cvs)
qed

lemma const_typed_yields: "const_typed b C T x \<Longrightarrow> env_provides E b C T \<Longrightarrow> yields E x"
proof (induction arbitrary: E rule: const_typed.induct)
  case (Const t v b C T)
  then show ?case by (intro yieldsI [where n = 0 and v = "VInt v"]) (simp_all add: cvs constant_form_flat)
next
  case (Reduce p q b C T c n t y pl x)
  then show ?case by (intro yields_reduce [of p q E c n t y pl x]) simp_all
next
  case (Lookup T n vs t start b C i lo hi r x)
  then show ?case using env_providesD(4) [OF Lookup.prems]
    by (intro yields_lookup [of E b C T n vs t start i lo hi r x]) simp_all
next
  case (Region g b' e ts cs cts t x b C T)
  then show ?case by (intro yields_region [OF Region.hyps(1)]) simp_all
qed (simp_all add: yields_compare yields_bitwise yields_enum yields_capture yields_func_value
  yields_struct yields_tuple yields_project yields_union yields_elements yields_index
  yields_update yields_slice yields_concat yields_cast yields_vec_concat yields_reshape)

section \<open>Properties\<close>

text \<open>
  C34: a well-typed closed constant expression evaluates: there is a depth from which on
  \<open>constant_runtime_value\<close> always returns the same value, an immutable value of the
  expression's type.  No check of the evaluator fails, and no packing error escapes.
\<close>

theorem constant_typed_evaluates:
  assumes "const_typed None Map.empty Map.empty x"
  shows "\<exists>n v. constant_form (type_of x) v \<and> (\<forall>k\<ge>n. constant_runtime_value k x = Inr v)"
  using const_typed_yields [OF assms, of empty_env]
  by (auto simp: yields_def evals_def constant_runtime_value_def env_provides_def)

text \<open>A ROM of three words: table entries combined with the index and a captured constant.\<close>

definition rom_binder :: ct_binder where
  "rom_binder = \<lparr>bd_identity = ''i#1'', bd_name = ''i'', bd_start = 0, bd_stop = 3\<rparr>"

definition rom_index :: ct_expr where "rom_index = CtExpr CtBinder [OpRef rom_binder]"

definition rom_region :: hw_expr where
  "rom_region = ERegion GenerateRegion rom_binder
     (EConcat [ELookup ''t'' rom_index (UIntType 4) (Some (0, 15)),
        EBinary OpBitXor (ECapture (''c#0'', ''c'', UIntType 4)) (EFuncValue rom_index (UIntType 4)) (UIntType 4) (UIntType 4)]
       (BitsType 8))
     [(''t'', [EConst 3 (UIntType 4), EConst 9 (UIntType 4), EConst 12 (UIntType 4)], UIntType 4, 0)]
     [((''c#0'', ''c'', UIntType 4), EConst 5 (UIntType 4))] [] (VecType 3 (BitsType 8))"

lemma rom_values: "constant_runtime_value 5 rom_region = Inr (VTuple [VInt 53, VInt 148, VInt 199])"
  by code_simp

lemma rom_validated:
  "mk_region GenerateRegion rom_binder
     (EConcat [ELookup ''t'' rom_index (UIntType 4) (Some (0, 15)),
        EBinary OpBitXor (ECapture (''c#0'', ''c'', UIntType 4)) (EFuncValue rom_index (UIntType 4)) (UIntType 4) (UIntType 4)]
       (BitsType 8))
     [(''t'', [EConst 3 (UIntType 4), EConst 9 (UIntType 4), EConst 12 (UIntType 4)], UIntType 4, 0)]
     [((''c#0'', ''c'', UIntType 4), EConst 5 (UIntType 4))] [] (VecType 3 (BitsType 8)) = Inr rom_region"
  by code_simp

lemma rom_typed: "const_typed None Map.empty Map.empty rom_region"
proof (rule const_typed.Region [OF rom_validated])
  let ?b = "Some rom_binder"
  let ?C = "map_of (map (\<lambda>c. (fst (fst c), snd (snd (fst c)))) [((''c#0'', ''c'', UIntType 4), EConst 5 (UIntType 4))])"
  let ?T = "map_of [(''t'', [EConst 3 (UIntType 4), EConst 9 (UIntType 4), EConst 12 (UIntType 4)], UIntType 4, 0 :: int)]"
  have lits: "const_typed b C T (EConst v (UIntType 4))" if "0 \<le> v" "v < 16" for b C T and v :: int
    using that by (intro const_typed.Const) simp_all
  then show "\<forall>c\<in>set [((''c#0'', ''c'', UIntType 4), EConst 5 (UIntType 4))]. const_typed None Map.empty Map.empty (snd c)" by simp
  have range: "compile_time_range rom_index = Inr (0, 2)" "ct_binders rom_index = [rom_binder]" by code_simp+
  have "const_typed ?b ?C ?T (ELookup ''t'' rom_index (UIntType 4) (Some (0, 15)))"
  proof (rule const_typed.Lookup [where lo = 0 and hi = 2])
    show "?T ''t'' = Some ([EConst 3 (UIntType 4), EConst 9 (UIntType 4), EConst 12 (UIntType 4)], UIntType 4, 0)" by simp
    show "mk_lookup ''t'' rom_index (UIntType 4) None = Inr (ELookup ''t'' rom_index (UIntType 4) (Some (0, 15)))" by code_simp
  qed (use range lits in simp_all)
  moreover have "const_typed ?b ?C ?T (EBinary OpBitXor (ECapture (''c#0'', ''c'', UIntType 4))
      (EFuncValue rom_index (UIntType 4)) (UIntType 4) (UIntType 4))"
  proof (rule const_typed.Bitwise)
    show "bitwise_combine OpBitXor = Some (\<lambda>a b. a XOR b)" by (simp add: bitwise_combine_def)
    show "const_typed ?b ?C ?T (EFuncValue rom_index (UIntType 4))"
      by (rule const_typed.FuncValue [of rom_index "UIntType 4"]) (use range in \<open>simp_all add: mk_func_value_def\<close>)
    show "const_typed ?b ?C ?T (ECapture (''c#0'', ''c'', UIntType 4))" by (rule const_typed.Capture) simp
  qed (simp_all add: packable_def)
  ultimately show "const_typed ?b ?C ?T (EConcat [ELookup ''t'' rom_index (UIntType 4) (Some (0, 15)),
      EBinary OpBitXor (ECapture (''c#0'', ''c'', UIntType 4)) (EFuncValue rom_index (UIntType 4)) (UIntType 4) (UIntType 4)]
      (BitsType 8))"
    by (intro const_typed.Concat) (simp_all add: packable_def)
qed (simp_all add: rom_binder_def)

theorem constant_typed_evaluates_witness:
  "\<exists>n v. constant_form (type_of rom_region) v \<and> (\<forall>k\<ge>n. constant_runtime_value k rom_region = Inr v)"
  by (rule constant_typed_evaluates [OF rom_typed])

text \<open>A table whose only value looks the table up at the same index.\<close>

definition loop_lookup :: hw_expr where
  "loop_lookup = ELookup ''t'' (CtExpr CtLiteral [OpInt 0]) (UIntType 4) (Some (0, 15))"

definition loop_region :: hw_expr where
  "loop_region = ERegion GenerateRegion rom_binder loop_lookup [(''t'', [loop_lookup], UIntType 4, 0)] [] []
     (VecType 3 (UIntType 4))"

lemma loop_lookup_deep:
  "cv_tables E ''t'' = Some ([loop_lookup], UIntType 4, 0) \<Longrightarrow> constant_value k E loop_lookup = Inl RecursionLimit"
proof (induction k)
  case (Suc k)
  have "constant_value (Suc k) E loop_lookup = constant_value k E loop_lookup"
    using Suc.prems by (simp add: loop_lookup_def cvs liftCt_def)
  then show ?case using Suc by simp
qed simp

text \<open>
  C35: the validators admit a region whose table refers to itself: the table and the region
  are accepted, and evaluating the region exceeds every recursion depth.
\<close>

theorem self_referential_table_diverges:
  "mk_table ''t'' [loop_lookup] (UIntType 4) 0 = Inr (''t'', [loop_lookup], UIntType 4, 0) \<and>
   mk_region GenerateRegion rom_binder loop_lookup [(''t'', [loop_lookup], UIntType 4, 0)] [] []
     (VecType 3 (UIntType 4)) = Inr loop_region \<and>
   constant_runtime_value k loop_region = Inl RecursionLimit"
proof (intro conjI)
  show "constant_runtime_value k loop_region = Inl RecursionLimit"
  proof (cases k)
    case (Suc n)
    let ?E = "region_env empty_env [(''t'', [loop_lookup], UIntType 4, 0)] [] rom_binder 0"
    have upto: "[0..2::int] = [0, 1, 2]" by code_simp
    have "constant_value n ?E loop_lookup = Inl RecursionLimit"
      by (rule loop_lookup_deep) (simp add: region_env_def)
    then show ?thesis using Suc upto
      by (simp add: constant_runtime_value_def loop_region_def cvs rom_binder_def)
  qed (simp add: constant_runtime_value_def)
qed code_simp+

end
