(* ===== verification/Denote.thy ===== *)
theory Denote
  imports Exprs
begin

text \<open>
  The value of a typed scalar expression.  The code has no evaluator of its own: the values
  the backends must compute are fixed by the numeric rules (\<^verbatim>\<open>zlang/ir/numeric.py\<close>), by
  \<^verbatim>\<open>normalize_scalar\<close> and by the constant folding of \<^verbatim>\<open>zlang/ir/normalization.py\<close> and
  \<^verbatim>\<open>zlang/semantic/expression_operators.py\<close>, and \<open>den\<close> is that reading for expressions
  over the reads, whose values an environment gives.  \<open>typed_scalar\<close> says that the operands
  and the result of every node are the ones \<^verbatim>\<open>build_binary\<close> and the scalar validator of
  \<^verbatim>\<open>zlang/opt/egraph.py\<close> accept.  A typed expression denotes a value of its type, and
  addition, multiplication and signed subtraction denote the exact integer result.
\<close>

section \<open>Definitions\<close>

definition represent :: "hwtype \<Rightarrow> int \<Rightarrow> int" where
  "represent t v = (case normalize_scalar v t of Inr x \<Rightarrow> x | Inl _ \<Rightarrow> v)"

text \<open>The integer operation of \<^verbatim>\<open>_evaluate_constant_binary\<close> and \<^verbatim>\<open>_binary_constant\<close>, before normalisation.\<close>

definition binary_value :: "bin_op \<Rightarrow> int \<Rightarrow> int \<Rightarrow> int" where
  "binary_value p a b = (case p of
       OpSubtract \<Rightarrow> a - b | OpMultiply \<Rightarrow> a * b
     | OpBitAnd \<Rightarrow> a AND b | OpBitOr \<Rightarrow> a OR b | OpBitXor \<Rightarrow> a XOR b
     | OpShiftLeft \<Rightarrow> shl a (nat b) | OpShiftRight \<Rightarrow> shr a (nat b)
     | OpEqual \<Rightarrow> of_bool (a = b) | OpNotEqual \<Rightarrow> of_bool (a \<noteq> b)
     | OpLess \<Rightarrow> of_bool (a < b) | OpLessEqual \<Rightarrow> of_bool (a \<le> b)
     | OpGreater \<Rightarrow> of_bool (a > b) | OpGreaterEqual \<Rightarrow> of_bool (a \<ge> b))"

text \<open>The operand and result type \<^verbatim>\<open>build_binary\<close> gives to a binary node.\<close>

definition shift_rule :: "hwtype \<Rightarrow> hwtype \<Rightarrow> reason + type_rule" where
  "shift_rule l r = (if family_of l \<in> {FUInt, FSInt, FBits} \<and> family_of r = FUInt then rule_of l l
     else Inl FamilyMismatch)"

definition binary_rule :: "bin_op \<Rightarrow> hwtype \<Rightarrow> hwtype \<Rightarrow> reason + type_rule" where
  "binary_rule p l r = (case p of
       OpSubtract \<Rightarrow> subtraction_rule l r
     | OpMultiply \<Rightarrow> multiplication_rule l r
     | OpBitAnd \<Rightarrow> bitwise_rule l r | OpBitOr \<Rightarrow> bitwise_rule l r | OpBitXor \<Rightarrow> bitwise_rule l r
     | OpShiftLeft \<Rightarrow> shift_rule l r | OpShiftRight \<Rightarrow> shift_rule l r
     | OpEqual \<Rightarrow> comparison_rule l r True | OpNotEqual \<Rightarrow> comparison_rule l r True
     | _ \<Rightarrow> comparison_rule l r False)"

text \<open>A fixed-point conversion of a raw integer, as \<^verbatim>\<open>_fold_local\<close> computes it.\<close>

definition convert_fixed ::
    "int \<Rightarrow> hwtype \<Rightarrow> string \<Rightarrow> string \<Rightarrow> conversion \<Rightarrow> int option \<Rightarrow> hwtype \<Rightarrow> fixed_error + int" where
  "convert_fixed raw st rounding overflow k d t =
     (if k = ConvFromRaw \<or> k = ConvToRaw then Inr raw
      else (case d of
          Some q \<Rightarrow> quantize_rational raw q (fraction t) (width t) (family_of t = FFixed) rounding overflow
        | None \<Rightarrow>
            bindE (if fraction t \<ge> fraction st then Inr (shl raw (fraction t - fraction st))
                   else round_ratio raw (shl 1 (fraction st - fraction t)) rounding)
              (\<lambda>c. apply_overflow c (width t) (family_of t = FFixed) overflow)))"

fun select_case :: "int \<Rightarrow> (int \<times> 'a) list \<Rightarrow> 'a \<Rightarrow> 'a" where
  "select_case s [] d = d"
| "select_case s (c # cs) d = (if fst c = s then snd c else select_case s cs d)"

fun den :: "(hw_expr \<Rightarrow> int) \<Rightarrow> hw_expr \<Rightarrow> int" where
  "den \<sigma> (EConst v t) = v"
| "den \<sigma> (EAdd l r t) = represent t (den \<sigma> l + den \<sigma> r)"
| "den \<sigma> (EBinary p l r ot t) = represent t (binary_value p (den \<sigma> l) (den \<sigma> r))"
| "den \<sigma> (EExtend e t) = represent t (den \<sigma> e)"
| "den \<sigma> (ETruncate e t) = represent t (den \<sigma> e)"
| "den \<sigma> (EFixedConvert e r p k d t) = (case convert_fixed (den \<sigma> e) (type_of e) r p k d t of
     Inr x \<Rightarrow> represent t x | Inl _ \<Rightarrow> 0)"
| "den \<sigma> (EMux c a b t) = (if den \<sigma> c \<noteq> 0 then den \<sigma> a else den \<sigma> b)"
| "den \<sigma> (ESwitch s cs d t) = select_case (den \<sigma> s) (map (\<lambda>c. (fst c, den \<sigma> (snd c))) cs) (den \<sigma> d)"
| "den \<sigma> (ESlice e msb lsb t) = represent t (shr (den \<sigma> e mod 2 ^ width (type_of e)) (nat lsb))"
| "den \<sigma> (EConcat es t) = represent t
     (foldl (\<lambda>a p. a * 2 ^ fst p + snd p mod 2 ^ fst p) 0 (map (\<lambda>e. (width (type_of e), den \<sigma> e)) es))"
| "den \<sigma> (ECast k e t) = represent t (den \<sigma> e mod 2 ^ width (type_of e))"
| "den \<sigma> e = represent (type_of e) (\<sigma> e)"

text \<open>The value sources: reads of ports, parameters, registers and protocol signals.\<close>

fun is_read :: "hw_expr \<Rightarrow> bool" where
  "is_read (ERead k n t) = True"
| "is_read (EReadyValid n s t) = True"
| "is_read (ECredit n cs t) = True"
| "is_read (EPacket n ps t) = True"
| "is_read (EVcCredit n vs t) = True"
| "is_read (ERequestResponse n rc s t) = True"
| "is_read (EOther c es t) = True"
| "is_read _ = False"

definition resizes :: "hwtype \<Rightarrow> hwtype \<Rightarrow> bool" where
  "resizes s t \<longleftrightarrow> family_of s = family_of t"

definition converts :: "hwtype \<Rightarrow> hwtype \<Rightarrow> conversion \<Rightarrow> int option \<Rightarrow> bool" where
  "converts s t k d \<longleftrightarrow> (case k of
       ConvToRaw \<Rightarrow> d = None \<and> width s = width t \<and>
         (family_of s = FFixed \<and> family_of t = FSInt \<or> family_of s = FUFixed \<and> family_of t = FUInt)
     | ConvFromRaw \<Rightarrow> d = None \<and> width s = width t \<and>
         (family_of s = FSInt \<and> family_of t = FFixed \<or> family_of s = FUInt \<and> family_of t = FUFixed)
     | ConvRescale \<Rightarrow> (case d of None \<Rightarrow> True | Some q \<Rightarrow> 0 < q) \<and>
         (family_of t = FFixed \<and> family_of s \<in> {FFixed, FSInt} \<or>
          family_of t = FUFixed \<and> family_of s \<in> {FUFixed, FUInt}))"

fun typed_scalar :: "hw_expr \<Rightarrow> bool" where
  "typed_scalar (EConst v t) = (flat_scalar t \<and> wf_type t \<and> int_fits v t)"
| "typed_scalar (EAdd l r t) = (typed_scalar l \<and> typed_scalar r \<and>
     addition_rule (type_of l) (type_of r) = Inr \<lparr>operand_type = t, result_type = t\<rparr>)"
| "typed_scalar (EBinary p l r ot t) = (typed_scalar l \<and> typed_scalar r \<and>
     binary_rule p (type_of l) (type_of r) = Inr \<lparr>operand_type = ot, result_type = t\<rparr>)"
| "typed_scalar (EExtend e t) = (typed_scalar e \<and> flat_scalar t \<and> wf_type t \<and>
     family_of (type_of e) = family_of t \<and> width (type_of e) \<le> width t)"
| "typed_scalar (ETruncate e t) = (typed_scalar e \<and> flat_scalar t \<and> wf_type t \<and>
     family_of (type_of e) = family_of t \<and> width t \<le> width (type_of e))"
| "typed_scalar (EFixedConvert e r p k d t) = (typed_scalar e \<and> flat_scalar t \<and> wf_type t \<and>
     converts (type_of e) t k d \<and> r \<in> set rounding_modes \<and> p \<in> set overflow_modes)"
| "typed_scalar (EMux c a b t) = (typed_scalar c \<and> typed_scalar a \<and> typed_scalar b \<and>
     type_of c = BitType \<and> type_of a = t \<and> type_of b = t)"
| "typed_scalar (ESwitch s cs d t) = (typed_scalar s \<and> typed_scalar d \<and> type_of d = t \<and>
     (\<forall>c\<in>set cs. typed_scalar (snd c) \<and> type_of (snd c) = t))"
| "typed_scalar (ESlice e msb lsb t) = (typed_scalar e \<and> 0 \<le> lsb \<and> lsb \<le> msb \<and>
     msb < int (width (type_of e)) \<and> t = BitsType (nat (msb - lsb + 1)))"
| "typed_scalar (EConcat es t) = (2 \<le> length es \<and> (\<forall>e\<in>set es. typed_scalar e) \<and>
     t = BitsType (sum_list (map (\<lambda>e. width (type_of e)) es)))"
| "typed_scalar (ECast k e t) = (typed_scalar e \<and> flat_scalar t \<and> wf_type t \<and> width t = width (type_of e))"
| "typed_scalar e = (is_read e \<and> flat_scalar (type_of e) \<and> wf_type (type_of e))"

section \<open>Representatives\<close>

lemma represent_bit: "represent BitType v = (if v = 0 then 0 else 1)"
  by (simp add: represent_def normalize_scalar_def)

lemma represent_flat:
  "flat_scalar t \<Longrightarrow> t \<noteq> BitType \<Longrightarrow>
    represent t v = (if is_signed t then wrap_signed (width t) (v mod 2 ^ width t) else v mod 2 ^ width t)"
  by (simp add: represent_def normalize_scalar_flat)

lemma represent_fits: "flat_scalar t \<Longrightarrow> wf_type t \<Longrightarrow> int_fits (represent t v) t"
proof (cases "t = BitType")
  case False
  assume "flat_scalar t" "wf_type t"
  then show ?thesis using False wrap_signed_fits [of "width t" "v mod 2 ^ width t"]
    by (cases t) (auto simp: represent_flat)
qed (simp add: represent_bit)

lemma represent_mod: "flat_scalar t \<Longrightarrow> t \<noteq> BitType \<Longrightarrow> represent t v mod 2 ^ width t = v mod 2 ^ width t"
  by (simp add: represent_flat wrap_signed_mod)

lemma represent_id [simp]: "flat_scalar t \<Longrightarrow> wf_type t \<Longrightarrow> int_fits v t \<Longrightarrow> represent t v = v"
proof (cases "t = BitType")
  case False
  assume t: "flat_scalar t" "wf_type t" and v: "int_fits v t"
  show ?thesis by (rule int_fits_unique [OF t represent_fits [OF t] v represent_mod [OF t(1) False]])
qed (auto simp: represent_bit)

lemma represent_cong: "flat_scalar t \<Longrightarrow> t \<noteq> BitType \<Longrightarrow> v mod 2 ^ width t = w mod 2 ^ width t \<Longrightarrow> represent t v = represent t w"
  by (simp add: represent_flat)

lemma flat_family: "flat_scalar t \<Longrightarrow> family_of t \<notin> {FEnum, FStruct, FTuple, FUnion, FVec}"
  by (cases t) simp_all

lemma fits_widen:
  "family_of s = family_of t \<Longrightarrow> width s \<le> width t \<Longrightarrow> flat_scalar s \<Longrightarrow> wf_type s \<Longrightarrow> int_fits v s \<Longrightarrow> int_fits v t"
  by (rule family_cases [of s t])
    (auto simp: int_fits_sfits flat_family simp del: int_fits.simps elim: sfits_mono ufits_mono dest: flat_family)

section \<open>Typed expressions denote values of their types\<close>

lemma cases_flat:
  "addition_cases l r = Inr t \<Longrightarrow> flat_scalar t"
  "subtraction_cases l r = Inr t \<Longrightarrow> flat_scalar t"
  "multiplication_cases l r = Inr t \<Longrightarrow> flat_scalar t"
  "bitwise_cases l r = Inr t \<Longrightarrow> flat_scalar t"
  by (cases l; auto simp: case_defs split: if_splits)+

lemma rule_flat:
  assumes "flat_scalar l"
  shows "addition_rule l r = Inr ru \<Longrightarrow> flat_scalar (result_type ru)"
    and "binary_rule p l r = Inr ru \<Longrightarrow> flat_scalar (result_type ru)"
proof -
  have shift: "shift_rule l r = Inr ru \<Longrightarrow> flat_scalar (result_type ru)"
    using assms by (auto simp: shift_rule_def rule_of_def split: if_splits)
  show "addition_rule l r = Inr ru \<Longrightarrow> flat_scalar (result_type ru)" using cases_flat(1) [of l r] by (simp add: rule_Inr)
  show "binary_rule p l r = Inr ru \<Longrightarrow> flat_scalar (result_type ru)"
    using cases_flat(2-4) [of l r "result_type ru"] shift by (cases p) (simp_all add: binary_rule_def rule_Inr)
qed

lemma binary_rule_wf:
  assumes "wf_type l" "wf_type r" "binary_rule p l r = Inr ru"
  shows "wf_type (result_type ru)"
proof (cases "p = OpShiftLeft \<or> p = OpShiftRight")
  case True
  then show ?thesis using assms by (auto simp: binary_rule_def shift_rule_def rule_of_def split: if_splits)
next
  case False
  then obtain eq where "addition_rule l r = Inr ru \<or> subtraction_rule l r = Inr ru \<or> multiplication_rule l r = Inr ru \<or>
      bitwise_rule l r = Inr ru \<or> comparison_rule l r eq = Inr ru"
    using assms(3) by (cases p) (auto simp: binary_rule_def)
  then show ?thesis using rule_cases_wf [of l r "result_type ru" eq] assms(1,2) by (auto simp: rule_Inr)
qed

lemma select_case_in: "select_case s cs d = d \<or> (\<exists>c\<in>set cs. select_case s cs d = snd c)"
  by (induction s cs d rule: select_case.induct) auto

lemma typed_flat: "typed_scalar e \<Longrightarrow> flat_scalar (type_of e) \<and> wf_type (type_of e)"
proof (induction e rule: typed_scalar.induct)
  case (2 l r t)
  then have "addition_rule (type_of l) (type_of r) = Inr \<lparr>operand_type = t, result_type = t\<rparr>" by simp
  then show ?case using 2 rule_flat(1) [of "type_of l" "type_of r" "\<lparr>operand_type = t, result_type = t\<rparr>"]
      rule_cases_wf [of "type_of l" "type_of r" t True]
    by (auto simp: rule_Inr)
next
  case (3 p l r ot t)
  then have "binary_rule p (type_of l) (type_of r) = Inr \<lparr>operand_type = ot, result_type = t\<rparr>" by simp
  then show ?case using 3 rule_flat(2) [of "type_of l" p "type_of r"] binary_rule_wf [of "type_of l" "type_of r"] by fastforce
next
  case (10 es t)
  then obtain x y zs where es: "es = x # y # zs" by (auto simp: numeral_2_eq_2 Suc_le_length_iff)
  then have "0 < width (type_of x)" using 10 flat_scalar_pos by auto
  then show ?case using 10 es by simp
qed auto

lemma den_fits: "typed_scalar e \<Longrightarrow> int_fits (den \<sigma> e) (type_of e)"
proof (induction e rule: typed_scalar.induct)
  case (6 e r p k d t)
  then have t: "flat_scalar t" "wf_type t" by simp_all
  then have "int_fits 0 t" by (simp add: zero_int_fits)
  then show ?case using t by (simp add: represent_fits split: sum.splits)
next
  case (8 s cs d t)
  then show ?case using select_case_in [of "den \<sigma> s" "map (\<lambda>c. (fst c, den \<sigma> (snd c))) cs" "den \<sigma> d"] by auto
next
  case (2 l r t)
  then show ?case using typed_flat [OF 2(3)] by (simp add: represent_fits)
next
  case (3 p l r ot t)
  then show ?case using typed_flat [OF 3(3)] by (simp add: represent_fits)
next
  case (10 es t)
  then show ?case using typed_flat [OF 10(2)] represent_fits [of t] by simp
next
  case (9 e msb lsb t)
  then show ?case using typed_flat [OF 9(2)] represent_fits [of t] by simp
qed (simp_all add: represent_fits)

text \<open>The nodes whose value is the exact result of the integer operation.\<close>

lemma den_add: "typed_scalar (EAdd l r t) \<Longrightarrow> den \<sigma> (EAdd l r t) = den \<sigma> l + den \<sigma> r"
  using addition_cases_exact [of "type_of l" "type_of r" t "den \<sigma> l" "den \<sigma> r"]
    typed_flat [of "EAdd l r t"] typed_flat [of l] typed_flat [of r] den_fits [of l \<sigma>] den_fits [of r \<sigma>]
  by (simp add: rule_Inr)

lemma den_multiply:
  assumes "typed_scalar (EBinary OpMultiply l r ot t)"
  shows "den \<sigma> (EBinary OpMultiply l r ot t) = den \<sigma> l * den \<sigma> r"
  using multiplication_cases_exact [of "type_of l" "type_of r" t "den \<sigma> l" "den \<sigma> r"] assms
    typed_flat [OF assms] typed_flat [of l] typed_flat [of r] den_fits [of l \<sigma>] den_fits [of r \<sigma>]
  by (simp add: rule_Inr binary_rule_def binary_value_def)

lemma den_subtract:
  assumes "typed_scalar (EBinary OpSubtract l r ot t)" "is_signed (type_of l) \<or> den \<sigma> r \<le> den \<sigma> l"
  shows "den \<sigma> (EBinary OpSubtract l r ot t) = den \<sigma> l - den \<sigma> r"
  using subtraction_cases_exact [of "type_of l" "type_of r" t "den \<sigma> l" "den \<sigma> r"] assms
    typed_flat [OF assms(1)] typed_flat [of l] typed_flat [of r] den_fits [of l \<sigma>] den_fits [of r \<sigma>]
  by (simp add: rule_Inr binary_rule_def binary_value_def)

lemma den_compare:
  assumes "typed_scalar (EBinary p l r ot t)" "p \<in> {OpEqual, OpNotEqual, OpLess, OpLessEqual, OpGreater, OpGreaterEqual}"
  shows "t = BitType \<and> den \<sigma> (EBinary p l r ot t) = binary_value p (den \<sigma> l) (den \<sigma> r)"
  using assms by (auto simp: binary_rule_def rule_Inr represent_bit binary_value_def of_bool_def)

lemma den_resize:
  assumes "typed_scalar (EExtend e t)"
  shows "den \<sigma> (EExtend e t) = den \<sigma> e"
  using assms fits_widen [of "type_of e" t "den \<sigma> e"] typed_flat [of e] den_fits [of e \<sigma>] by simp

end
