(* ===== verification/Simplify.thy ===== *)
theory Simplify
  imports Denote Constants
begin

text \<open>
  Local exact simplification, \<^verbatim>\<open>zlang/ir/exact_simplification.py\<close>, and the folding of one
  node, \<^verbatim>\<open>_fold_local\<close> of \<^verbatim>\<open>zlang/ir/normalization.py\<close>.  Every replacement of a typed
  scalar node is shown to keep its type, to be typed, and to denote the same value in every
  environment; the one rule for which this fails, the all-ones mask of a narrower operand,
  is isolated.
\<close>

section \<open>Definitions\<close>

fun static_unsigned_range :: "hw_expr \<Rightarrow> (int \<times> int) option" where
  "static_unsigned_range (EConst v t) = (if is_unsigned_integral t then Some (v, v) else None)"
| "static_unsigned_range (ERead k n t) = (if is_unsigned_integral t then Some (0, ones (width t)) else None)"
| "static_unsigned_range (EExtend e t) = static_unsigned_range e"
| "static_unsigned_range (ETruncate e t) = (if is_unsigned_integral t then Some (0, ones (width t)) else None)"
| "static_unsigned_range (EAdd l r t) = (if family_of t = FUInt then
     (case (static_unsigned_range l, static_unsigned_range r) of
        (Some a, Some b) \<Rightarrow> Some (fst a + fst b, snd a + snd b) | _ \<Rightarrow> None) else None)"
| "static_unsigned_range (EBinary p l r ot t) = (if is_unsigned_integral t then
     (case (static_unsigned_range l, static_unsigned_range r) of
        (Some a, Some b) \<Rightarrow>
          if p = OpMultiply then Some (fst a * fst b, snd a * snd b)
          else if p = OpSubtract then
            (if fst a \<ge> snd b then Some (fst a - snd b, snd a - fst b) else Some (0, ones (width t)))
          else if fst b = snd b \<and> p = OpShiftRight then Some (shr (fst a) (nat (fst b)), shr (snd a) (nat (fst b)))
          else if fst b = snd b \<and> p = OpShiftLeft \<and> shl (snd a) (nat (fst b)) < 2 ^ width t
            then Some (shl (fst a) (nat (fst b)), shl (snd a) (nat (fst b)))
          else None
      | _ \<Rightarrow> None) else None)"
| "static_unsigned_range _ = None"

definition numeric_family :: "hwtype \<Rightarrow> bool" where
  "numeric_family t \<longleftrightarrow> family_of t \<in> {FUInt, FSInt, FFixed, FUFixed}"

definition exact_numeric_widen :: "hw_expr \<Rightarrow> hwtype \<Rightarrow> hw_expr option" where
  "exact_numeric_widen e t =
     (if type_of e = t then Some e
      else if family_of (type_of e) \<noteq> family_of t then None
      else if \<not> numeric_family (type_of e) \<or> \<not> numeric_family t then None
      else if width (type_of e) > width t then None
      else if family_of t \<in> {FFixed, FUFixed} \<and> fraction (type_of e) \<noteq> fraction t then None
      else Some (EExtend e t))"

fun const_of :: "hw_expr \<Rightarrow> int option" where
  "const_of (EConst v t) = Some v" | "const_of _ = None"

definition simplify_add :: "hw_expr \<Rightarrow> hw_expr \<Rightarrow> hwtype \<Rightarrow> hw_expr option" where
  "simplify_add l r t =
     (if const_of l = Some 0 then exact_numeric_widen r t
      else if const_of r = Some 0 then exact_numeric_widen l t
      else None)"

definition all_ones :: "int \<Rightarrow> hwtype \<Rightarrow> bool" where
  "all_ones v t \<longleftrightarrow> v = (if family_of t = FSInt then - 1 else ones (width t))"

definition is_mask :: "hw_expr \<Rightarrow> bool" where
  "is_mask e = (case e of EConst v t \<Rightarrow> all_ones v t | _ \<Rightarrow> False)"

definition disjoint_ranges :: "(int \<times> int) option \<Rightarrow> (int \<times> int) option \<Rightarrow> bool" where
  "disjoint_ranges a b = (case (a, b) of
       (Some x, Some y) \<Rightarrow> snd x < fst y \<or> snd y < fst x | _ \<Rightarrow> False)"

text \<open>The multiplication, bitwise and final steps of \<^verbatim>\<open>simplify_binary\<close>, tried in this order.\<close>

definition simplify_multiply :: "hw_expr \<Rightarrow> hw_expr \<Rightarrow> hwtype \<Rightarrow> hw_expr option" where
  "simplify_multiply l r t =
     (if const_of l = Some 0 \<or> const_of r = Some 0 then Some (EConst 0 t)
      else if family_of t \<in> {FUInt, FSInt} \<and> const_of l = Some 1 then exact_numeric_widen r t
      else if family_of t \<in> {FUInt, FSInt} \<and> const_of r = Some 1 then exact_numeric_widen l t
      else None)"

definition simplify_bitwise :: "bin_op \<Rightarrow> hw_expr \<Rightarrow> hw_expr \<Rightarrow> hwtype \<Rightarrow> hw_expr option" where
  "simplify_bitwise p l r t =
     (if p = OpBitAnd \<and> (const_of l = Some 0 \<or> const_of r = Some 0) then Some (EConst 0 t)
      else if p \<noteq> OpBitAnd \<and> const_of l = Some 0 \<and> type_of r = t then Some r
      else if p \<noteq> OpBitAnd \<and> const_of r = Some 0 \<and> type_of l = t then Some l
      else if p = OpBitAnd \<and> is_mask l \<and> type_of r = t then Some r
      else if p = OpBitAnd \<and> is_mask r \<and> type_of l = t then Some l
      else None)"

definition simplify_equality :: "(hw_expr \<Rightarrow> (int \<times> int) option) option \<Rightarrow> bin_op \<Rightarrow> hw_expr \<Rightarrow> hw_expr \<Rightarrow> hwtype \<Rightarrow> hw_expr option" where
  "simplify_equality range_of p l r t = (case range_of of
       None \<Rightarrow> None
     | Some f \<Rightarrow> if p \<in> {OpEqual, OpNotEqual} \<and> disjoint_ranges (f l) (f r)
         then Some (EConst (of_bool (p = OpNotEqual)) t) else None)"

definition simplify_binary ::
    "bin_op \<Rightarrow> hw_expr \<Rightarrow> hw_expr \<Rightarrow> hwtype \<Rightarrow> (hw_expr \<Rightarrow> (int \<times> int) option) option \<Rightarrow> hw_expr option" where
  "simplify_binary p l r t range_of =
     (if p = OpMultiply then simplify_multiply l r t
      else if p = OpSubtract \<and> const_of r = Some 0 then exact_numeric_widen l t
      else if p \<in> {OpBitAnd, OpBitOr, OpBitXor} then simplify_bitwise p l r t
      else if p \<in> {OpShiftLeft, OpShiftRight} \<and> const_of r = Some 0 \<and> type_of l = t then Some l
      else simplify_equality range_of p l r t)"

definition simplify_mux :: "hw_expr \<Rightarrow> hw_expr \<Rightarrow> hw_expr \<Rightarrow> hw_expr option" where
  "simplify_mux c a b = (case const_of c of
       Some v \<Rightarrow> Some (if v \<noteq> 0 then a else b)
     | None \<Rightarrow> if a = b then Some a else None)"

section \<open>Ranges\<close>

lemma unsigned_fits: "is_unsigned_integral t \<Longrightarrow> int_fits v t \<longleftrightarrow> 0 \<le> v \<and> v < 2 ^ width t"
  by (cases t) simp_all

lemma shl_mult: "shl a n = a * 2 ^ n"
  by (simp add: shl_def push_bit_eq_mult)

lemma shr_div: "shr a n = a div 2 ^ n"
  by (simp add: shr_def drop_bit_eq_div)

lemma typed_parts:
  "typed_scalar (EAdd l r t) \<Longrightarrow> typed_scalar l \<and> typed_scalar r"
  "typed_scalar (EBinary p l r ot t) \<Longrightarrow> typed_scalar l \<and> typed_scalar r"
  "typed_scalar (EExtend e t) \<Longrightarrow> typed_scalar e"
  by simp_all

lemma binary_families:
  assumes "typed_scalar (EBinary p l r ot t)"
  shows "p \<in> {OpMultiply, OpSubtract, OpBitAnd, OpBitOr, OpBitXor} \<Longrightarrow>
      family_of (type_of l) = family_of t \<and> family_of (type_of r) = family_of t"
    and "p \<in> {OpShiftLeft, OpShiftRight} \<Longrightarrow> type_of l = t \<and> family_of (type_of r) = FUInt"
    and "p \<in> {OpEqual, OpNotEqual, OpLess, OpLessEqual, OpGreater, OpGreaterEqual} \<Longrightarrow> t = BitType"
proof -
  have rule: "binary_rule p (type_of l) (type_of r) = Inr \<lparr>operand_type = ot, result_type = t\<rparr>" using assms by simp
  show "family_of (type_of l) = family_of t \<and> family_of (type_of r) = family_of t"
    if "p \<in> {OpMultiply, OpSubtract, OpBitAnd, OpBitOr, OpBitXor}"
    using that rule by (cases "type_of l"; auto simp: binary_rule_def rule_Inr case_defs split: if_splits)
  show "type_of l = t \<and> family_of (type_of r) = FUInt" if "p \<in> {OpShiftLeft, OpShiftRight}"
    using that rule by (auto simp: binary_rule_def shift_rule_def rule_of_def split: if_splits)
  show "t = BitType" if "p \<in> {OpEqual, OpNotEqual, OpLess, OpLessEqual, OpGreater, OpGreaterEqual}"
    using that rule by (auto simp: binary_rule_def rule_Inr)
qed

lemma unsigned_integral_iff: "is_unsigned_integral t \<longleftrightarrow> family_of t \<in> {FUInt, FBits}"
  by (cases t) simp_all

lemma interval_mult: "0 \<le> a \<Longrightarrow> a \<le> x \<Longrightarrow> x \<le> b \<Longrightarrow> 0 \<le> c \<Longrightarrow> c \<le> y \<Longrightarrow> y \<le> d \<Longrightarrow> a * c \<le> x * y \<and> x * y \<le> b * d"
  for x :: int by (meson mult_mono order_trans)

definition range_holds :: "(hw_expr \<Rightarrow> int) \<Rightarrow> hw_expr \<Rightarrow> int \<times> int \<Rightarrow> bool" where
  "range_holds \<sigma> e r \<longleftrightarrow> 0 \<le> fst r \<and> fst r \<le> den \<sigma> e \<and> den \<sigma> e \<le> snd r"

lemma unsigned_den: "typed_scalar e \<Longrightarrow> is_unsigned_integral (type_of e) \<Longrightarrow> range_holds \<sigma> e (0, ones (width (type_of e)))"
  using den_fits [of e \<sigma>] by (simp add: unsigned_fits range_holds_def le_ones_iff)

lemma shift_range:
  assumes e: "typed_scalar (EBinary p l r ot t)" and l: "range_holds \<sigma> l a" and r: "range_holds \<sigma> r b" "fst b = snd b"
    and u: "is_unsigned_integral t"
  shows "p = OpShiftRight \<Longrightarrow> range_holds \<sigma> (EBinary p l r ot t) (shr (fst a) (nat (fst b)), shr (snd a) (nat (fst b)))"
    and "p = OpShiftLeft \<Longrightarrow> shl (snd a) (nat (fst b)) < 2 ^ width t \<Longrightarrow>
      range_holds \<sigma> (EBinary p l r ot t) (shl (fst a) (nat (fst b)), shl (snd a) (nat (fst b)))"
proof -
  have b: "den \<sigma> r = fst b" using r by (simp add: range_holds_def)
  have t: "flat_scalar t" "wf_type t" using typed_flat [OF e] by simp_all
  let ?k = "nat (fst b)"
  have pos: "(0::int) < 2 ^ ?k" by simp
  have fl: "typed_scalar l" using typed_parts(2) [OF e] by simp
  show "range_holds \<sigma> (EBinary p l r ot t) (shr (fst a) ?k, shr (snd a) ?k)" if p: "p = OpShiftRight"
  proof -
    have lt: "type_of l = t" using binary_families(2) [OF e] p by simp
    have x: "0 \<le> den \<sigma> l" "den \<sigma> l < 2 ^ width t" using den_fits [OF fl, of \<sigma>] u lt by (simp_all add: unsigned_fits)
    have "den \<sigma> l div 2 ^ ?k \<le> den \<sigma> l" using zdiv_mono2 [of "den \<sigma> l" 1 "2 ^ ?k"] x(1) by simp
    then have "0 \<le> den \<sigma> l div 2 ^ ?k" "den \<sigma> l div 2 ^ ?k < 2 ^ width t"
      using x by (simp_all add: pos_imp_zdiv_nonneg_iff)
    then have "den \<sigma> (EBinary p l r ot t) = den \<sigma> l div 2 ^ ?k"
      using t u b p by (simp add: binary_value_def shr_div unsigned_fits)
    then show ?thesis using l by (simp add: range_holds_def shr_div zdiv_mono1 pos_imp_zdiv_nonneg_iff)
  qed
  show "range_holds \<sigma> (EBinary p l r ot t) (shl (fst a) ?k, shl (snd a) ?k)"
    if p: "p = OpShiftLeft" and small: "shl (snd a) ?k < 2 ^ width t"
  proof -
    have "0 \<le> fst a * 2 ^ ?k" "fst a * 2 ^ ?k \<le> den \<sigma> l * 2 ^ ?k" "den \<sigma> l * 2 ^ ?k \<le> snd a * 2 ^ ?k"
      using l by (simp_all add: range_holds_def)
    moreover have "0 \<le> den \<sigma> l * 2 ^ ?k" "den \<sigma> l * 2 ^ ?k < 2 ^ width t"
      using calculation small unfolding shl_mult by linarith+
    then have "int_fits (den \<sigma> l * 2 ^ ?k) t" using u unsigned_fits by blast
    then have "den \<sigma> (EBinary p l r ot t) = den \<sigma> l * 2 ^ ?k"
      using t b p by (simp add: binary_value_def shl_mult)
    ultimately show ?thesis by (simp add: range_holds_def shl_mult)
  qed
qed

lemma range_sound:
  "typed_scalar e \<Longrightarrow> static_unsigned_range e = Some q \<Longrightarrow> range_holds \<sigma> e q"
proof (induction e arbitrary: q rule: static_unsigned_range.induct)
  case (1 v t)
  then show ?case by (auto simp: range_holds_def unsigned_fits split: if_splits)
next
  case (2 k n t)
  then show ?case using unsigned_den [OF 2(1), of \<sigma>] by (auto split: if_splits)
next
  case (3 e t)
  then show ?case using den_resize [OF 3(2), of \<sigma>] typed_parts(3) by (simp add: range_holds_def)
next
  case (4 e t)
  then show ?case using unsigned_den [OF 4(1), of \<sigma>] by (auto split: if_splits)
next
  case (5 l r t)
  then obtain a b where a: "static_unsigned_range l = Some a" and b: "static_unsigned_range r = Some b"
    and q: "q = (fst a + fst b, snd a + snd b)" and t: "family_of t = FUInt" by (auto split: if_splits option.splits)
  have "range_holds \<sigma> l a" "range_holds \<sigma> r b" using 5(1) [OF t _ a] 5(2) [OF t _ b] typed_parts(1) [OF 5(3)] by auto
  then show ?case using den_add [OF 5(3), of \<sigma>] q by (simp add: range_holds_def)
next
  case (6 p l r ot t)
  then obtain a b where a: "static_unsigned_range l = Some a" and b: "static_unsigned_range r = Some b"
    and t: "is_unsigned_integral t" by (auto split: if_splits option.splits)
  have ty: "typed_scalar l" "typed_scalar r" using typed_parts(2) [OF 6(3)] by simp_all
  have la: "range_holds \<sigma> l a" and rb: "range_holds \<sigma> r b" using 6(1) [OF t ty(1) a] 6(2) [OF t ty(2) b] .
  consider (mul) "p = OpMultiply" "q = (fst a * fst b, snd a * snd b)"
    | (sub) "p = OpSubtract" "fst a \<ge> snd b" "q = (fst a - snd b, snd a - fst b)"
    | (full) "q = (0, ones (width t))"
    | (shr) "p = OpShiftRight" "fst b = snd b" "q = (shr (fst a) (nat (fst b)), shr (snd a) (nat (fst b)))"
    | (shl) "p = OpShiftLeft" "fst b = snd b" "shl (snd a) (nat (fst b)) < 2 ^ width t"
        "q = (shl (fst a) (nat (fst b)), shl (snd a) (nat (fst b)))"
    using 6(4) a b t by (auto split: if_splits)
  then show ?case
  proof cases
    case mul
    then show ?thesis using den_multiply [of l r ot t \<sigma>] 6(3) la rb interval_mult [of "fst a" "den \<sigma> l" "snd a" "fst b" "den \<sigma> r" "snd b"]
      by (simp add: range_holds_def)
  next
    case sub
    then have "den \<sigma> r \<le> den \<sigma> l" using la rb by (simp add: range_holds_def)
    then show ?thesis using den_subtract [of l r ot t \<sigma>] 6(3) la rb sub by (simp add: range_holds_def)
  next
    case full
    then show ?thesis using unsigned_den [OF 6(3), of \<sigma>] t by simp
  next
    case shr
    then show ?thesis using shift_range(1) [OF 6(3) la rb] t by simp
  next
    case shl
    then show ?thesis using shift_range(2) [OF 6(3) la rb] t by simp
  qed
qed simp_all

section \<open>Soundness of each rule\<close>

lemma represent_zero [simp]: "flat_scalar t \<Longrightarrow> wf_type t \<Longrightarrow> represent t 0 = 0"
  by (simp add: zero_int_fits)

definition same_value :: "hw_expr \<Rightarrow> hw_expr \<Rightarrow> bool" where
  "same_value e e' \<longleftrightarrow> typed_scalar e' \<and> type_of e' = type_of e \<and> (\<forall>\<sigma>. den \<sigma> e' = den \<sigma> e)"

lemma same_value_refl: "typed_scalar e \<Longrightarrow> same_value e e"
  by (simp add: same_value_def)

lemma same_value_trans: "same_value a b \<Longrightarrow> same_value b c \<Longrightarrow> same_value a c"
  by (simp add: same_value_def)

lemma widen_sound:
  assumes "exact_numeric_widen e t = Some e'" "typed_scalar e" "flat_scalar t" "wf_type t"
  shows "typed_scalar e' \<and> type_of e' = t \<and> den \<sigma> e' = den \<sigma> e"
proof (cases "type_of e = t")
  case True
  then show ?thesis using assms by (auto simp: exact_numeric_widen_def)
next
  case False
  then have e': "e' = EExtend e t" "typed_scalar (EExtend e t)"
    using assms by (auto simp: exact_numeric_widen_def split: if_splits)
  then show ?thesis using den_resize by simp
qed

lemma const_of_Some: "const_of e = Some v \<longleftrightarrow> (\<exists>t. e = EConst v t)"
  by (cases e) auto

lemma const_den: "const_of e = Some v \<Longrightarrow> den \<sigma> e = v"
  by (auto simp: const_of_Some)

lemma const_same:
  assumes "typed_scalar e" "type_of e = t" "int_fits v t" "\<And>\<sigma>. den \<sigma> e = v"
  shows "same_value e (EConst v t)"
  using assms typed_flat [of e] by (simp add: same_value_def)

lemma simplify_add_sound:
  assumes "typed_scalar (EAdd l r t)" "simplify_add l r t = Some e'"
  shows "same_value (EAdd l r t) e'"
proof -
  have t: "flat_scalar t" "wf_type t" using typed_flat [OF assms(1)] by simp_all
  consider "const_of l = Some 0" "exact_numeric_widen r t = Some e'"
    | "const_of r = Some 0" "exact_numeric_widen l t = Some e'"
    using assms(2) by (auto simp: simplify_add_def split: if_splits)
  then show ?thesis
  proof cases
    case 1
    then show ?thesis using widen_sound [OF 1(2) _ t] den_add [OF assms(1)] assms(1) const_den [OF 1(1)]
      by (simp add: same_value_def del: den.simps)
  next
    case 2
    then show ?thesis using widen_sound [OF 2(2) _ t] den_add [OF assms(1)] assms(1) const_den [OF 2(1)]
      by (simp add: same_value_def del: den.simps)
  qed
qed

lemma multiply_sound:
  assumes "typed_scalar (EBinary OpMultiply l r ot t)" "simplify_multiply l r t = Some e'"
  shows "same_value (EBinary OpMultiply l r ot t) e'"
proof -
  let ?e = "EBinary OpMultiply l r ot t"
  have t: "flat_scalar t" "wf_type t" using typed_flat [OF assms(1)] by simp_all
  have lr: "typed_scalar l" "typed_scalar r" using typed_parts(2) [OF assms(1)] by simp_all
  consider (zero) "const_of l = Some 0 \<or> const_of r = Some 0" "e' = EConst 0 t"
    | (left) "const_of l = Some 1" "exact_numeric_widen r t = Some e'"
    | (right) "const_of r = Some 1" "exact_numeric_widen l t = Some e'"
    using assms(2) by (auto simp: simplify_multiply_def split: if_splits)
  then show ?thesis
  proof cases
    case zero
    have "den \<sigma> ?e = 0" for \<sigma> using den_multiply [OF assms(1)] const_den zero(1) by fastforce
    then show ?thesis unfolding zero(2) using assms(1) t zero_int_fits by (intro const_same) simp_all
  next
    case left
    then show ?thesis using widen_sound [OF left(2) lr(2) t] den_multiply [OF assms(1)] const_den [OF left(1)]
      by (simp add: same_value_def del: den.simps)
  next
    case right
    then show ?thesis using widen_sound [OF right(2) lr(1) t] den_multiply [OF assms(1)] const_den [OF right(1)]
      by (simp add: same_value_def del: den.simps)
  qed
qed

text \<open>
  The one unsound rule: conjunction with a constant that is all ones of its own, narrower,
  unsigned type is replaced by the other, wider operand.  A signed mask is \<open>- 1\<close> at any width.
\<close>

definition drops_mask :: "hw_expr \<Rightarrow> hw_expr \<Rightarrow> hwtype \<Rightarrow> bool" where
  "drops_mask m other t \<longleftrightarrow> is_mask m \<and> \<not> is_signed (type_of m) \<and> width (type_of m) < width t \<and>
     const_of other = None \<and> type_of other = t"

lemma mask_and:
  assumes "all_ones c s" "family_of s = family_of t" "family_of t = FSInt \<or> width s = width t" "flat_scalar t" "wf_type t"
    "int_fits v t" "family_of t \<in> {FBit, FUInt, FSInt, FBits}"
  shows "c AND v = v"
proof (cases "family_of t = FSInt")
  case True
  then show ?thesis using assms by (simp add: all_ones_def)
next
  case False
  then have "0 \<le> v \<and> v < 2 ^ width t" using assms(6,7) by (cases t) auto
  then show ?thesis using False assms(1-3) by (simp add: all_ones_def and.commute [of _ v] and_ones)
qed

lemma bitwise_widths:
  assumes e: "typed_scalar (EBinary p l r ot t)" and p: "p \<in> {OpBitAnd, OpBitOr, OpBitXor}"
  shows "width (type_of l) \<le> width t" "width (type_of r) \<le> width t"
proof -
  have "bitwise_rule (type_of l) (type_of r) = Inr \<lparr>operand_type = ot, result_type = t\<rparr>"
    using e p by (auto simp: binary_rule_def)
  then have "bitwise_cases (type_of l) (type_of r) = Inr t" "family_of (type_of r) = family_of (type_of l)"
    by (simp_all add: rule_Inr)
  then show "width (type_of l) \<le> width t" "width (type_of r) \<le> width t"
    by (cases "type_of l"; cases "type_of r"; auto simp: bitwise_cases_def)+
qed

lemma bitwise_families:
  assumes "typed_scalar (EBinary p l r ot t)" "p \<in> {OpBitAnd, OpBitOr, OpBitXor}"
  shows "family_of t \<in> {FBit, FUInt, FSInt, FBits}"
  using assms by (cases "type_of l"; auto simp: binary_rule_def rule_Inr bitwise_cases_def)

lemma bitwise_sound:
  assumes e: "typed_scalar (EBinary p l r ot t)" and p: "p \<in> {OpBitAnd, OpBitOr, OpBitXor}"
    and s: "simplify_bitwise p l r t = Some e'"
    and masks: "p = OpBitAnd \<Longrightarrow> \<not> drops_mask l r t \<and> \<not> drops_mask r l t"
    and free: "const_of l = None \<or> const_of r = None"
  shows "same_value (EBinary p l r ot t) e'"
proof -
  have t: "flat_scalar t" "wf_type t" using typed_flat [OF e] by simp_all
  have lr: "typed_scalar l" "typed_scalar r" using typed_parts(2) [OF e] by simp_all
  have fam: "family_of (type_of l) = family_of t" "family_of (type_of r) = family_of t"
    using binary_families(1) [OF e] p by auto
  have fits: "int_fits (den \<sigma> l) (type_of l)" "int_fits (den \<sigma> r) (type_of r)" for \<sigma> using den_fits lr by simp_all
  have widths: "width (type_of l) \<le> width t" "width (type_of r) \<le> width t"
    using bitwise_widths [OF e p] .
  consider (zero) "p = OpBitAnd" "const_of l = Some 0 \<or> const_of r = Some 0" "e' = EConst 0 t"
    | (left) "p \<noteq> OpBitAnd" "const_of l = Some 0" "type_of r = t" "e' = r"
    | (right) "p \<noteq> OpBitAnd" "const_of r = Some 0" "type_of l = t" "e' = l"
    | (lmask) c s where "p = OpBitAnd" "l = EConst c s" "all_ones c s" "type_of r = t" "e' = r"
    | (rmask) c s where "p = OpBitAnd" "r = EConst c s" "all_ones c s" "type_of l = t" "e' = l"
    using s by (auto simp: simplify_bitwise_def is_mask_def split: if_splits hw_expr.splits)
  then show ?thesis
  proof cases
    case zero
    have "den \<sigma> l = 0 \<or> den \<sigma> r = 0" for \<sigma> using const_den zero(2) by blast
    then have "den \<sigma> l AND den \<sigma> r = 0" for \<sigma> by (metis and_zero_eq zero_and_eq)
    then have "den \<sigma> (EBinary p l r ot t) = 0" for \<sigma>
      using zero(1) t by (simp add: binary_value_def zero_int_fits)
    then show ?thesis unfolding zero(3) using e t zero_int_fits by (intro const_same) simp_all
  next
    case left
    have "den \<sigma> (EBinary p l r ot t) = den \<sigma> r" for \<sigma>
      using left p t fits(2) const_den [OF left(2), of \<sigma>] by (auto simp: binary_value_def)
    then show ?thesis using left lr by (simp add: same_value_def del: den.simps)
  next
    case right
    have "den \<sigma> (EBinary p l r ot t) = den \<sigma> l" for \<sigma>
      using right p t fits(1) const_den [OF right(2), of \<sigma>] by (auto simp: binary_value_def)
    then show ?thesis using right lr by (simp add: same_value_def del: den.simps)
  next
    case lmask
    have "den \<sigma> (EBinary p l r ot t) = den \<sigma> r" for \<sigma>
    proof -
      have "c AND den \<sigma> r = den \<sigma> r"
      proof (rule mask_and [OF lmask(3) _ _ t _ bitwise_families [OF e p]])
        show "family_of s = family_of t" using fam(1) lmask(2) by simp
        then show "family_of t = FSInt \<or> width s = width t"
          using masks free widths lmask t(1) bitwise_families [OF e p] by (cases s) (auto simp: drops_mask_def is_mask_def)
        show "int_fits (den \<sigma> r) t" using fits(2) [of \<sigma>] lmask(4) by simp
      qed
      then show ?thesis using lmask t fits(2) [of \<sigma>] by (simp add: binary_value_def)
    qed
    then show ?thesis using lmask lr by (simp add: same_value_def del: den.simps)
  next
    case rmask
    have "den \<sigma> (EBinary p l r ot t) = den \<sigma> l" for \<sigma>
    proof -
      have "c AND den \<sigma> l = den \<sigma> l"
      proof (rule mask_and [OF rmask(3) _ _ t _ bitwise_families [OF e p]])
        show "family_of s = family_of t" using fam(2) rmask(2) by simp
        then show "family_of t = FSInt \<or> width s = width t"
          using masks free widths rmask t(1) bitwise_families [OF e p] by (cases s) (auto simp: drops_mask_def is_mask_def)
        show "int_fits (den \<sigma> l) t" using fits(1) [of \<sigma>] rmask(4) by simp
      qed
      then show ?thesis using rmask t fits(1) [of \<sigma>] by (simp add: binary_value_def and.commute)
    qed
    then show ?thesis using rmask lr by (simp add: same_value_def del: den.simps)
  qed
qed

definition range_provider :: "(hw_expr \<Rightarrow> (int \<times> int) option) option \<Rightarrow> bool" where
  "range_provider f \<longleftrightarrow> (\<forall>g e q \<sigma>. f = Some g \<and> typed_scalar e \<and> g e = Some q \<longrightarrow> range_holds \<sigma> e q)"

lemma static_range_provider: "range_provider (Some static_unsigned_range)" "range_provider None"
  by (auto simp: range_provider_def range_sound)

lemma equality_sound:
  assumes e: "typed_scalar (EBinary p l r ot t)" and s: "simplify_equality f p l r t = Some e'" and f: "range_provider f"
  shows "same_value (EBinary p l r ot t) e'"
proof -
  obtain g x y where g: "f = Some g" "p \<in> {OpEqual, OpNotEqual}" "g l = Some x" "g r = Some y"
    "snd x < fst y \<or> snd y < fst x" "e' = EConst (of_bool (p = OpNotEqual)) t"
    using s by (auto simp: simplify_equality_def disjoint_ranges_def split: option.splits if_splits)
  have "den \<sigma> l \<noteq> den \<sigma> r" for \<sigma>
  proof -
    have "range_holds \<sigma> l x" "range_holds \<sigma> r y"
      using f g typed_parts(2) [OF e] unfolding range_provider_def by blast+
    then show ?thesis using g(5) by (auto simp: range_holds_def)
  qed
  then have "den \<sigma> (EBinary p l r ot t) = of_bool (p = OpNotEqual)" for \<sigma>
    using den_compare [OF e, of \<sigma>] g(2) by (auto simp: binary_value_def)
  moreover have "t = BitType" using binary_families(3) [OF e] g(2) by auto
  ultimately show ?thesis unfolding g(6) using e by (intro const_same) (simp_all del: den.simps)
qed

lemma simplify_binary_Some:
  assumes "simplify_binary p l r t f = Some e'"
  shows "(p = OpMultiply \<and> simplify_multiply l r t = Some e') \<or>
    (p = OpSubtract \<and> const_of r = Some 0 \<and> exact_numeric_widen l t = Some e') \<or>
    (p \<in> {OpBitAnd, OpBitOr, OpBitXor} \<and> simplify_bitwise p l r t = Some e') \<or>
    (p \<in> {OpShiftLeft, OpShiftRight} \<and> const_of r = Some 0 \<and> type_of l = t \<and> e' = l) \<or>
    simplify_equality f p l r t = Some e'"
  using assms unfolding simplify_binary_def by (metis option.inject)

lemma simplify_binary_sound:
  assumes e: "typed_scalar (EBinary p l r ot t)" and s: "simplify_binary p l r t f = Some e'" and f: "range_provider f"
    and masks: "p = OpBitAnd \<Longrightarrow> \<not> drops_mask l r t \<and> \<not> drops_mask r l t"
    and free: "const_of l = None \<or> const_of r = None"
  shows "same_value (EBinary p l r ot t) e'"
proof -
  have t: "flat_scalar t" "wf_type t" using typed_flat [OF e] by simp_all
  have lr: "typed_scalar l" "typed_scalar r" using typed_parts(2) [OF e] by simp_all
  consider (mul) "p = OpMultiply" "simplify_multiply l r t = Some e'"
    | (sub) "p = OpSubtract" "const_of r = Some 0" "exact_numeric_widen l t = Some e'"
    | (bits) "p \<in> {OpBitAnd, OpBitOr, OpBitXor}" "simplify_bitwise p l r t = Some e'"
    | (shift) "p \<in> {OpShiftLeft, OpShiftRight}" "const_of r = Some 0" "type_of l = t" "e' = l"
    | (eq) "simplify_equality f p l r t = Some e'"
    using simplify_binary_Some [OF s] by blast
  then show ?thesis
  proof cases
    case mul
    then show ?thesis using multiply_sound e by simp
  next
    case sub
    note w = widen_sound [OF sub(3) lr(1) t]
    have "represent t (den \<sigma> l) = den \<sigma> l" for \<sigma>
      using w [of \<sigma>] den_fits [of e' \<sigma>] t by simp
    then have "den \<sigma> (EBinary p l r ot t) = den \<sigma> l" for \<sigma>
      using sub const_den [OF sub(2), of \<sigma>] by (simp add: binary_value_def)
    then show ?thesis using w by (simp add: same_value_def del: den.simps)
  next
    case bits
    then show ?thesis using bitwise_sound [OF e] masks free by blast
  next
    case shift
    have "den \<sigma> (EBinary p l r ot t) = den \<sigma> l" for \<sigma>
      using shift t den_fits [OF lr(1), of \<sigma>] const_den [OF shift(2), of \<sigma>]
      by (auto simp: binary_value_def shl_mult shr_div)
    then show ?thesis using shift lr by (simp add: same_value_def del: den.simps)
  next
    case eq
    then show ?thesis using equality_sound [OF e _ f] by blast
  qed
qed

lemma simplify_mux_sound:
  assumes "typed_scalar (EMux c a b t)" "simplify_mux c a b = Some e'"
  shows "same_value (EMux c a b t) e'"
proof (cases "const_of c")
  case None
  then show ?thesis using assms by (auto simp: simplify_mux_def same_value_def split: if_splits)
next
  case (Some v)
  then show ?thesis using assms const_den [OF Some] by (auto simp: simplify_mux_def same_value_def)
qed

section \<open>Folding one node\<close>

datatype fold_error = NormalizationFailed rt_error | ShiftCount | FixedFailed fixed_error
  | EvaluatorEscape const_error | FoldIndexError

definition fold_constant :: "int \<Rightarrow> hwtype \<Rightarrow> fold_error + hw_expr" where
  "fold_constant v t = (case normalize_scalar v t of
       Inl e \<Rightarrow> Inl (NormalizationFailed e) | Inr x \<Rightarrow> Inr (EConst x t))"

definition binary_constant :: "bin_op \<Rightarrow> int \<Rightarrow> int \<Rightarrow> hwtype \<Rightarrow> fold_error + hw_expr" where
  "binary_constant p a b t =
     (if p \<in> {OpShiftLeft, OpShiftRight} \<and> b < 0 then Inl ShiftCount else fold_constant (binary_value p a b) t)"

text \<open>The errors of the evaluator that are \<^verbatim>\<open>ConstantExpressionError\<close>.\<close>

definition is_constant_error :: "const_error \<Rightarrow> bool" where
  "is_constant_error e = (case e of
       UnionValueError _ \<Rightarrow> False | PackingEscapes _ \<Rightarrow> False | PythonAttributeError \<Rightarrow> False
     | Constants.PythonIndexError \<Rightarrow> False | RecursionLimit \<Rightarrow> False | _ \<Rightarrow> True)"

definition fold_tail :: "nat \<Rightarrow> hw_expr \<Rightarrow> fold_error + hw_expr" where
  "fold_tail k e = (if scalar_type (type_of e) then
       (case constant_runtime_value k e of
          Inl er \<Rightarrow> if is_constant_error er then Inr e else Inl (EvaluatorEscape er)
        | Inr (VInt i) \<Rightarrow> fold_constant i (type_of e)
        | Inr _ \<Rightarrow> Inr e)
     else Inr e)"

definition or_keep :: "hw_expr option \<Rightarrow> hw_expr \<Rightarrow> fold_error + hw_expr" where
  "or_keep s e = Inr (case s of None \<Rightarrow> e | Some x \<Rightarrow> x)"

definition fold_local :: "nat \<Rightarrow> hw_expr \<Rightarrow> fold_error + hw_expr" where
  "fold_local k e = (case e of
       EAdd l r t \<Rightarrow> (case (const_of l, const_of r) of
           (Some a, Some b) \<Rightarrow> fold_constant (a + b) t
         | _ \<Rightarrow> or_keep (simplify_add l r t) e)
     | EBinary p l r ot t \<Rightarrow> (case (const_of l, const_of r) of
           (Some a, Some b) \<Rightarrow> binary_constant p a b t
         | _ \<Rightarrow> or_keep (simplify_binary p l r t (Some static_unsigned_range)) e)
     | EMux c a b t \<Rightarrow> or_keep (simplify_mux c a b) e
     | ESwitch s cs d t \<Rightarrow> (case const_of s of Some v \<Rightarrow> Inr (select_case v cs d) | None \<Rightarrow> fold_tail k e)
     | EExtend x t \<Rightarrow> (case const_of x of Some v \<Rightarrow> fold_constant v t | None \<Rightarrow> fold_tail k e)
     | ETruncate x t \<Rightarrow> (case const_of x of Some v \<Rightarrow> fold_constant v t | None \<Rightarrow> fold_tail k e)
     | EFixedConvert x r p cv d t \<Rightarrow> (case const_of x of
           Some v \<Rightarrow> (case convert_fixed v (type_of x) r p cv d t of
               Inl er \<Rightarrow> Inl (FixedFailed er) | Inr y \<Rightarrow> fold_constant y t)
         | None \<Rightarrow> fold_tail k e)
     | EField x f t \<Rightarrow> (case x of
           EStruct n fs ts \<Rightarrow> or_keep (map_of (rev fs) f) e | _ \<Rightarrow> fold_tail k e)
     | EProject x i t \<Rightarrow> (case x of
           ETuple es ts \<Rightarrow> if i < length es then Inr (es ! i) else Inl FoldIndexError
         | _ \<Rightarrow> fold_tail k e)
     | EIndex x i t \<Rightarrow> (case x of
           EElements es ts \<Rightarrow> (case i of
               OpInt j \<Rightarrow> if 0 \<le> j \<and> j < int (length es) then Inr (es ! nat j)
                 else if - int (length es) \<le> j \<and> j < 0 then Inr (es ! nat (int (length es) + j))
                 else Inl FoldIndexError
             | _ \<Rightarrow> fold_tail k e)
         | _ \<Rightarrow> fold_tail k e)
     | _ \<Rightarrow> fold_tail k e)"

lemma flat_packable: "flat_scalar t \<Longrightarrow> wf_type t \<Longrightarrow> packable t"
  by (cases t) (simp_all add: packable_def)

lemma pack_flat: "flat_scalar t \<Longrightarrow> wf_type t \<Longrightarrow> int_fits i t \<Longrightarrow> pack_runtime t (VInt i) = Inr (i mod 2 ^ width t)"
  by (cases t) (simp_all add: pack_runtime.simps require_bit_packable_def guardE_def pack_scalar_def and_ones)

lemma unpack_flat:
  assumes "flat_scalar t" "wf_type t" "0 \<le> r" "r < 2 ^ width t"
  shows "unpack_runtime t r = Inr (VInt (represent t r))"
proof -
  have pk: "is_bit_packable t" using flat_packable [OF assms(1,2)] by (simp add: packable_def)
  have "unpack_runtime t r = Inr (unpack_scalar t r)"
    using unpack_unfold [OF pk assms(2-4)] assms(1) by (cases t) simp_all
  moreover have "unpack_scalar t r = VInt (represent t r)"
  proof (cases "t = BitType")
    case True
    then show ?thesis using assms(3,4) by (auto simp: unpack_scalar_def represent_bit and_ones)
  next
    case False
    then show ?thesis using assms by (simp add: unpack_scalar_def represent_flat and_ones Let_def)
  qed
  ultimately show ?thesis by simp
qed

section \<open>The constant evaluator agrees with the denotation\<close>

text \<open>
  What the evaluator may do with a typed scalar: return its value, or refuse; only when the
  depth is not \<open>enough\<close> may it exhaust the stack.
\<close>

definition agrees :: "bool \<Rightarrow> (hw_expr \<Rightarrow> int) \<Rightarrow> hw_expr \<Rightarrow> const_error + rt_value \<Rightarrow> bool" where
  "agrees enough \<sigma> e r \<longleftrightarrow> (case r of Inr v \<Rightarrow> v = VInt (den \<sigma> e)
     | Inl er \<Rightarrow> is_constant_error er \<or> \<not> enough \<and> er = RecursionLimit)"

lemma agrees_simps [simp]:
  "agrees enough \<sigma> e (Inr v) \<longleftrightarrow> v = VInt (den \<sigma> e)"
  "agrees enough \<sigma> e (Inl er) \<longleftrightarrow> is_constant_error er \<or> \<not> enough \<and> er = RecursionLimit"
  by (simp_all add: agrees_def)

lemma agrees_bind:
  assumes "agrees enough \<sigma> x r" "agrees enough \<sigma> e (f (VInt (den \<sigma> x)))"
  shows "agrees enough \<sigma> e (bindE r f)"
  using assms by (cases r) auto

lemma agrees_weaken: "agrees deep \<sigma> e r \<Longrightarrow> (enough \<Longrightarrow> deep) \<Longrightarrow> agrees enough \<sigma> e r"
  by (cases r) auto

lemma compare_normal:
  "constant_comparison p a b = Some c \<Longrightarrow> binary_value p a b = c \<and> (c = 0 \<or> c = 1)"
  by (cases p) (auto simp: constant_comparison_def binary_value_def of_bool_def split: if_splits)

lemma combine_mod:
  assumes "bitwise_combine p = Some f"
  shows "f (a mod 2 ^ w) (b mod 2 ^ w) = binary_value p a b mod 2 ^ w"
  using assms by (cases p) (auto simp: bitwise_combine_def binary_value_def simp flip: take_bit_eq_mod)

lemma bitwise_operands:
  assumes e: "typed_scalar (EBinary p l r ot t)" and p: "p \<in> {OpBitAnd, OpBitOr, OpBitXor}"
  shows "ot = t \<and> int_fits (den \<sigma> l) t \<and> int_fits (den \<sigma> r) t"
proof -
  have rule: "bitwise_rule (type_of l) (type_of r) = Inr \<lparr>operand_type = ot, result_type = t\<rparr>"
    using e p by (auto simp: binary_rule_def)
  have lr: "typed_scalar l" "typed_scalar r" using typed_parts(2) [OF e] by simp_all
  have fam: "family_of (type_of l) = family_of t" "family_of (type_of r) = family_of t"
    using binary_families(1) [OF e] p by auto
  have "bitwise_cases (type_of l) (type_of r) = Inr t" using rule by (simp add: rule_Inr)
  then have "width (type_of l) \<le> width t" "width (type_of r) \<le> width t"
    using fam by (cases "type_of l"; cases "type_of r"; auto simp: bitwise_cases_def)+
  then show ?thesis using rule fits_widen fam den_fits lr typed_flat by (fastforce simp: rule_Inr)
qed

lemma mod_bit: "x = 0 \<or> x = 1 \<Longrightarrow> x mod 2 = (x::int)"
  by auto

lemma represent_mod_exp: "flat_scalar t \<Longrightarrow> wf_type t \<Longrightarrow> t \<noteq> BitType \<Longrightarrow> represent t (v mod 2 ^ width t) = represent t v"
  by (rule represent_cong) simp_all

lemma binary_agrees:
  assumes e: "typed_scalar (EBinary p l r ot t)"
  shows "agrees enough \<sigma> (EBinary p l r ot t) (const_binary p (VInt (den \<sigma> l)) (VInt (den \<sigma> r)) ot)"
proof -
  let ?a = "den \<sigma> l" and ?b = "den \<sigma> r"
  have t: "flat_scalar t" "wf_type t" using typed_flat [OF e] by simp_all
  show ?thesis
  proof (cases "constant_comparison p ?a ?b")
    case (Some c)
    then have "t = BitType" using binary_families(3) [OF e] by (cases p) (auto simp: constant_comparison_def)
    then show ?thesis using Some compare_normal [OF Some] by (auto simp: const_binary_def represent_bit)
  next
    case None
    show ?thesis
    proof (cases "bitwise_combine p")
      case None
      then show ?thesis using \<open>constant_comparison p ?a ?b = None\<close>
        by (simp add: const_binary_def constant_bitwise_def is_constant_error_def)
    next
      case (Some f)
      then have p: "p \<in> {OpBitAnd, OpBitOr, OpBitXor}" by (cases p) (auto simp: bitwise_combine_def)
      note ops = bitwise_operands [OF e p, of \<sigma>]
      have v: "f (?a mod 2 ^ width t) (?b mod 2 ^ width t) = binary_value p ?a ?b mod 2 ^ width t"
        by (rule combine_mod [OF Some])
      have "constant_bitwise p (VInt ?a) (VInt ?b) ot = Some (Inr (VInt (represent t (binary_value p ?a ?b mod 2 ^ width t))))"
        using ops t Some v unpack_flat [OF t, of "binary_value p ?a ?b mod 2 ^ width t"]
        by (simp add: constant_bitwise_def pack_flat)
      moreover have "represent t (binary_value p ?a ?b mod 2 ^ width t) = represent t (binary_value p ?a ?b)"
      proof (cases "t = BitType")
        case True
        then have "?a = 0 \<or> ?a = 1" "?b = 0 \<or> ?b = 1" using ops by simp_all
        then have "binary_value p ?a ?b = 0 \<or> binary_value p ?a ?b = 1" using p by (auto simp: binary_value_def)
        then show ?thesis using True by auto
      next
        case False
        then show ?thesis using represent_mod_exp t by simp
      qed
      ultimately show ?thesis using None by (simp add: const_binary_def escape_def)
    qed
  qed
qed

lemma packed_width_flat: "flat_scalar t \<Longrightarrow> wf_type t \<Longrightarrow> packed_width t = Inr (width t)"
  by (simp add: packed_width_packable flat_packable)

lemma slice_agrees:
  assumes e: "typed_scalar (ESlice x msb lsb t)"
  shows "agrees enough \<sigma> (ESlice x msb lsb t) (const_slice (type_of x) msb lsb (VInt (den \<sigma> x)))"
proof -
  have x: "typed_scalar x" and b: "0 \<le> lsb" "lsb \<le> msb" "msb < int (width (type_of x))"
    and t: "t = BitsType (nat (msb - lsb + 1))" using e by simp_all
  note f = typed_flat [OF x] den_fits [OF x, of \<sigma>]
  have "slice_runtime (VInt (den \<sigma> x mod 2 ^ width (type_of x))) (int (width (type_of x))) msb lsb =
      Inr (shr (den \<sigma> x mod 2 ^ width (type_of x)) (nat lsb) AND ones (nat (msb - lsb + 1)))"
    using b by (simp add: slice_runtime_def slice_width_def bit_mask_def)
  then show ?thesis using f
    by (simp add: const_slice_def packed_width_flat pack_flat escape_def catch_packing_def t represent_flat and_ones)
qed

lemma cast_agrees:
  assumes e: "typed_scalar (ECast c x t)"
  shows "agrees enough \<sigma> (ECast c x t) (const_cast c (type_of x) t (VInt (den \<sigma> x)))"
proof -
  have x: "typed_scalar x" and t: "flat_scalar t" "wf_type t" "width t = width (type_of x)" using e by simp_all
  note f = typed_flat [OF x] den_fits [OF x, of \<sigma>]
  have "freeze_runtime t u = Inr u" for u using t(1) by (cases t) simp_all
  moreover have "unpack_runtime t (den \<sigma> x mod 2 ^ width (type_of x)) =
      Inr (VInt (represent t (den \<sigma> x mod 2 ^ width (type_of x))))"
    using t by (intro unpack_flat) simp_all
  ultimately show ?thesis using f t
    by (simp add: const_cast_def packed_width_flat pack_flat escape_def catch_packing_def)
qed

lemma catch_agrees: "agrees enough \<sigma> e r \<Longrightarrow> agrees enough \<sigma> e (catch_packing n r)"
  by (cases r) (auto simp: catch_packing_def is_constant_error_def split: const_error.splits)

lemma mapE_outcome:
  assumes "\<And>x. x \<in> set xs \<Longrightarrow> (\<exists>er. f x = Inl er \<and> P er) \<or> f x = Inr (g x)"
  shows "(\<exists>er. mapE f xs = Inl er \<and> P er) \<or> mapE f xs = Inr (map g xs)"
  using assms by (induction xs) fastforce+

lemma concat_agrees:
  assumes e: "typed_scalar (EConcat es t)" and ih: "\<And>x. x \<in> set es \<Longrightarrow> agrees enough \<sigma> x (constant_value k E x)"
  shows "agrees enough \<sigma> (EConcat es t) (constant_value (Suc k) E (EConcat es t))"
proof -
  let ?f = "\<lambda>e. bindE (constant_value k E e) (\<lambda>v. bindE (escape (pack_runtime (type_of e) v)) (\<lambda>raw.
      bindE (escape (packed_width (type_of e))) (\<lambda>w. Inr (VInt raw, int w))))"
  let ?p = "\<lambda>e. (width (type_of e), den \<sigma> e mod 2 ^ width (type_of e))"
  let ?ps = "map ?p es"
  have ty: "typed_scalar x" if "x \<in> set es" for x using e that by simp
  have "(\<exists>er. ?f x = Inl er \<and> (is_constant_error er \<or> \<not> enough \<and> er = RecursionLimit)) \<or> ?f x = Inr (VInt (snd (?p x)), int (fst (?p x)))"
    if "x \<in> set es" for x
    using ih [OF that] typed_flat [OF ty [OF that]] den_fits [OF ty [OF that], of \<sigma>]
    by (cases "constant_value k E x") (simp_all add: pack_flat packed_width_flat escape_def)
  then have "(\<exists>er. mapE ?f es = Inl er \<and> (is_constant_error er \<or> \<not> enough \<and> er = RecursionLimit)) \<or>
      mapE ?f es = Inr (map (\<lambda>x. (VInt (snd (?p x)), int (fst (?p x)))) es)" by (rule mapE_outcome)
  then show ?thesis
  proof
    assume "\<exists>er. mapE ?f es = Inl er \<and> (is_constant_error er \<or> \<not> enough \<and> er = RecursionLimit)"
    then show ?thesis by (auto simp: cvs intro!: catch_agrees)
  next
    assume m: "mapE ?f es = Inr (map (\<lambda>x. (VInt (snd (?p x)), int (fst (?p x)))) es)"
    have pos: "\<forall>p\<in>set ?ps. 0 < fst p" using ty typed_flat flat_scalar_pos by fastforce
    have len: "2 \<le> length ?ps" using e by simp
    let ?r = "lsbv (rev (map (\<lambda>p. (fst p, snd p mod 2 ^ fst p)) ?ps))"
    note c = concat_parts [OF len pos]
    have eq: "foldl (\<lambda>a p. a * 2 ^ fst p + snd p mod 2 ^ fst p) 0 (map (\<lambda>e. (width (type_of e), den \<sigma> e)) es) = ?r"
      using foldl_lsbv [of 0 "map (\<lambda>e. (width (type_of e), den \<sigma> e)) es"] by (simp add: comp_def)
    have t: "t = BitsType (sum_list (map (\<lambda>e. width (type_of e)) es))" using e by simp
    have fits: "int_fits ?r t" using c(2,3) t by (simp add: total_bits_def comp_def)
    have "den \<sigma> (EConcat es t) = ?r"
      using eq fits typed_flat [OF e] by simp
    moreover have "parts_of ?ps = map (\<lambda>x. (VInt (snd (?p x)), int (fst (?p x)))) es" by (simp add: parts_of_def comp_def)
    then have "constant_value (Suc k) E (EConcat es t) = Inr (VInt ?r)"
      using m c(1) by (simp add: cvs escape_def catch_packing_def)
    ultimately show ?thesis by (simp del: den.simps)
  qed
qed

lemma evaluator_agrees: "typed_scalar e \<Longrightarrow> agrees (size e < k) \<sigma> e (constant_value k E e)"
proof (induction k arbitrary: e)
  case (Suc k)
  let ?enough = "size e < Suc k"
  have sub: "agrees ?enough \<sigma> c (constant_value k E c)" if "c \<in> set (children e)" "typed_scalar c" for c
    by (rule agrees_weaken [OF Suc.IH [OF that(2)]]) (use children_size [OF that(1)] in simp)
  have refuses: "constant_value (Suc k) E e = Inl Unsupported \<Longrightarrow> ?case" by (simp add: is_constant_error_def)
  show ?case
  proof (cases e)
    case (EBinary p l r ot t)
    then have lr: "agrees ?enough \<sigma> l (constant_value k E l)" "agrees ?enough \<sigma> r (constant_value k E r)"
      using Suc.prems sub [of l] sub [of r] by simp_all
    have "agrees ?enough \<sigma> e (const_binary p (VInt (den \<sigma> l)) (VInt (den \<sigma> r)) ot)"
      unfolding EBinary by (rule binary_agrees) (use Suc.prems EBinary in simp)
    then have "agrees ?enough \<sigma> e (bindE (constant_value k E l) (\<lambda>a. bindE (constant_value k E r) (\<lambda>b. const_binary p a b ot)))"
      by (intro agrees_bind [OF lr(1)] agrees_bind [OF lr(2)])
    then show ?thesis using EBinary by (simp add: cvs)
  next
    case (ESlice x msb lsb t)
    then have "agrees ?enough \<sigma> x (constant_value k E x)" using Suc.prems sub [of x] by simp
    then have "agrees ?enough \<sigma> e (bindE (constant_value k E x) (const_slice (type_of x) msb lsb))"
      by (rule agrees_bind) (use slice_agrees [of x msb lsb t ?enough \<sigma>] Suc.prems ESlice in simp)
    then show ?thesis using ESlice by (simp add: cvs)
  next
    case (ECast c x t)
    then have "agrees ?enough \<sigma> x (constant_value k E x)" using Suc.prems sub [of x] by simp
    then have "agrees ?enough \<sigma> e (bindE (constant_value k E x) (const_cast c (type_of x) t))"
      by (rule agrees_bind) (use cast_agrees [of c x t ?enough \<sigma>] Suc.prems ECast in simp)
    then show ?thesis using ECast by (simp add: cvs)
  next
    case (EConcat es t)
    have "agrees ?enough \<sigma> (EConcat es t) (constant_value (Suc k) E (EConcat es t))"
      by (rule concat_agrees) (use Suc.prems EConcat sub in auto)
    then show ?thesis using EConcat by simp
  qed (use refuses Suc.prems in \<open>simp_all add: cvs\<close>)
qed simp

section \<open>Folding is sound\<close>

lemma fold_constant_same:
  assumes "typed_scalar e" "\<And>\<sigma>. den \<sigma> e = represent (type_of e) v"
  shows "\<exists>e'. fold_constant v (type_of e) = Inr e' \<and> same_value e e'"
proof -
  have t: "flat_scalar (type_of e)" "wf_type (type_of e)" using typed_flat [OF assms(1)] by simp_all
  have "normalize_scalar v (type_of e) = Inr (represent (type_of e) v)"
    using t by (cases "type_of e") (auto simp: represent_def normalize_scalar_def Let_def)
  then have "fold_constant v (type_of e) = Inr (EConst (represent (type_of e) v) (type_of e))"
    by (simp add: fold_constant_def)
  then show ?thesis using const_same [OF assms(1) refl represent_fits [OF t]] assms(2) by blast
qed

text \<open>
  The result of folding a typed node: a node of the same value, unless the depth is not \<open>enough\<close>
  and the stack is exhausted.
\<close>

definition folds :: "bool \<Rightarrow> hw_expr \<Rightarrow> fold_error + hw_expr \<Rightarrow> bool" where
  "folds enough e r \<longleftrightarrow> (case r of Inr e' \<Rightarrow> same_value e e'
     | Inl er \<Rightarrow> \<not> enough \<and> er = EvaluatorEscape RecursionLimit)"

lemma folds_constant:
  "typed_scalar e \<Longrightarrow> (\<And>\<sigma>. den \<sigma> e = represent (type_of e) v) \<Longrightarrow> folds d e (fold_constant v (type_of e))"
  using fold_constant_same [of e v] by (auto simp: folds_def)

lemma folds_keep: "typed_scalar e \<Longrightarrow> (\<And>x. s = Some x \<Longrightarrow> same_value e x) \<Longrightarrow> folds d e (or_keep s e)"
  by (simp add: folds_def or_keep_def same_value_refl split: option.splits)

lemma folds_tail: "typed_scalar e \<Longrightarrow> folds (size e < k) e (fold_tail k e)"
proof -
  assume e: "typed_scalar e"
  have a: "agrees (size e < k) \<sigma> e (constant_runtime_value k e)" for \<sigma>
    using evaluator_agrees [OF e] by (simp add: constant_runtime_value_def)
  have t: "flat_scalar (type_of e)" "wf_type (type_of e)" using typed_flat [OF e] by simp_all
  show ?thesis
  proof (cases "constant_runtime_value k e")
    case (Inl er)
    then show ?thesis using a e by (auto simp: fold_tail_def folds_def same_value_refl)
  next
    case (Inr v)
    then have v: "v = VInt (den \<sigma> e)" for \<sigma> using a by simp
    define i where "i = den (\<lambda>_. 0) e"
    have i: "den \<sigma> e = i" for \<sigma> using v [of \<sigma>] v [of "\<lambda>_. 0"] by (simp add: i_def)
    have "folds (size e < k) e (fold_constant i (type_of e))"
      using e i t den_fits [OF e] by (intro folds_constant) (simp_all flip: i)
    then show ?thesis using Inr t v i by (simp add: fold_tail_def)
  qed
qed

lemma select_case_map: "select_case v (map (\<lambda>c. (fst c, f (snd c))) cs) (f d) = f (select_case v cs d)"
  by (induction cs) auto

lemma folds_switch:
  assumes "typed_scalar (ESwitch s cs d t)" "const_of s = Some v"
  shows "same_value (ESwitch s cs d t) (select_case v cs d)"
  using assms const_den [OF assms(2)] select_case_in [of v cs d] select_case_map [of v "den _" cs d]
  by (auto simp: same_value_def)

lemma shift_amount:
  assumes "typed_scalar (EBinary p l r ot t)" "const_of r = Some b" "p \<in> {OpShiftLeft, OpShiftRight}"
  shows "0 \<le> b"
  using assms binary_families(2) [OF assms(1,3)] by (auto simp: const_of_Some elim: family_of.elims)

lemma folds_binary:
  assumes e: "typed_scalar (EBinary p l r ot t)" and c: "const_of l = Some a" "const_of r = Some b"
  shows "folds d (EBinary p l r ot t) (binary_constant p a b t)"
  using folds_constant [OF e, of "binary_value p a b"] const_den [OF c(1)] const_den [OF c(2)] shift_amount [OF e c(2)]
  by (auto simp: binary_constant_def)

lemma convert_total:
  assumes "converts s t k d" "r \<in> set rounding_modes" "p \<in> set overflow_modes" "0 < width t"
  shows "\<exists>y. convert_fixed v s r p k d t = Inr y"
proof -
  have ov: "\<exists>y. apply_overflow c (width t) sg p = Inr y" for c sg using overflow_in_range [OF assms(4,3)] by blast
  have rd: "\<exists>y. round_ratio n q r = Inr y" if "0 < q" for n q using round_ratio_ok [OF that assms(2)] by blast
  show ?thesis
  proof (cases k)
    case ConvRescale
    then show ?thesis
    proof (cases d)
      case None
      obtain y where "round_ratio v (shl 1 (fraction s - fraction t)) r = Inr y"
        using rd [of "shl 1 (fraction s - fraction t)"] by (auto simp: shl_mult)
      then show ?thesis using ConvRescale None ov by (simp add: convert_fixed_def)
    next
      case (Some q)
      then have "0 < q" using assms(1) ConvRescale by (simp add: converts_def)
      then obtain y where "round_ratio (shl v (fraction t)) q r = Inr y" using rd by blast
      then show ?thesis using ConvRescale Some ov by (simp add: convert_fixed_def quantize_rational_def)
    qed
  qed (simp_all add: convert_fixed_def)
qed

definition narrow_mask :: "hw_expr \<Rightarrow> bool" where
  "narrow_mask e = (case e of
       EBinary p l r ot t \<Rightarrow> p = OpBitAnd \<and> (drops_mask l r t \<or> drops_mask r l t) | _ \<Rightarrow> False)"

lemma fold_local_folds:
  assumes "typed_scalar e" "\<not> narrow_mask e"
  shows "folds (size e < k) e (fold_local k e)"
proof (cases e)
  case (EAdd l r t)
  have "folds (size e < k) e (fold_constant (a + b) t)" if "const_of l = Some a" "const_of r = Some b" for a b
    using folds_constant [OF assms(1), of "a + b"] const_den [OF that(1)] const_den [OF that(2)] EAdd by simp
  moreover have "folds (size e < k) e (or_keep (simplify_add l r t) e)"
    using assms(1) EAdd simplify_add_sound by (intro folds_keep) simp_all
  ultimately show ?thesis using EAdd by (simp add: fold_local_def split: option.split)
next
  case (EBinary p l r ot t)
  have "folds (size e < k) e (binary_constant p a b t)" if "const_of l = Some a" "const_of r = Some b" for a b
    using folds_binary [of p l r ot t] that assms(1) EBinary by simp
  moreover have "folds (size e < k) e (or_keep (simplify_binary p l r t (Some static_unsigned_range)) e)"
    if "const_of l = None \<or> const_of r = None"
    using assms that EBinary simplify_binary_sound [OF _ _ static_range_provider(1)]
    by (intro folds_keep) (simp_all add: narrow_mask_def)
  ultimately show ?thesis using EBinary by (simp add: fold_local_def split: option.split)
next
  case (EMux c a b t)
  have "folds (size e < k) (EMux c a b t) (or_keep (simplify_mux c a b) (EMux c a b t))"
    by (rule folds_keep) (use assms(1) EMux simplify_mux_sound [of c a b t] in simp_all)
  then show ?thesis using EMux by (simp add: fold_local_def)
next
  case (ESwitch s cs d t)
  then show ?thesis using assms(1) folds_switch [of s cs d t] folds_tail [OF assms(1), of k]
    by (simp add: fold_local_def folds_def split: option.split)
next
  case (EExtend x t)
  have "folds (size e < k) e (fold_constant v t)" if "const_of x = Some v" for v
    using folds_constant [OF assms(1), of v] const_den [OF that] EExtend by simp
  then show ?thesis using EExtend folds_tail [OF assms(1), of k] by (simp add: fold_local_def split: option.split)
next
  case (ETruncate x t)
  have "folds (size e < k) e (fold_constant v t)" if "const_of x = Some v" for v
    using folds_constant [OF assms(1), of v] const_den [OF that] ETruncate by simp
  then show ?thesis using ETruncate folds_tail [OF assms(1), of k] by (simp add: fold_local_def split: option.split)
next
  case (EFixedConvert x r p cv d t)
  have t: "flat_scalar t" "wf_type t" and c: "converts (type_of x) t cv d" "r \<in> set rounding_modes" "p \<in> set overflow_modes"
    using assms(1) EFixedConvert by simp_all
  have "\<exists>y. convert_fixed v (type_of x) r p cv d t = Inr y \<and> folds (size e < k) e (fold_constant y t)" if v: "const_of x = Some v" for v
  proof -
    obtain y where y: "convert_fixed v (type_of x) r p cv d t = Inr y"
      using convert_total [OF c flat_scalar_pos [OF t]] by blast
    then show ?thesis using folds_constant [OF assms(1), of y] const_den [OF v] EFixedConvert by simp
  qed
  then show ?thesis using EFixedConvert folds_tail [OF assms(1), of k]
    by (auto simp: fold_local_def split: option.split sum.split)
qed (use assms(1) folds_tail [OF assms(1), of k] in \<open>simp_all add: fold_local_def\<close>)

text \<open>
  C36: folding a typed scalar node of the selected expression graph keeps its type and its value
  in every environment, and raises nothing when the depth the interpreter allows exceeds the size
  of the node (below that it may exhaust the stack).  The one exception is the narrow mask: a
  conjunction of an operand that is not constant with an unsigned constant that is all ones of a
  narrower type.
\<close>

theorem fold_local_sound:
  assumes "typed_scalar e" and "\<not> narrow_mask e"
  shows "case fold_local k e of
      Inr e' \<Rightarrow> typed_scalar e' \<and> type_of e' = type_of e \<and> (\<forall>\<sigma>. den \<sigma> e' = den \<sigma> e)
    | Inl er \<Rightarrow> er = EvaluatorEscape RecursionLimit \<and> k \<le> size e"
  using fold_local_folds [OF assms, of k] unfolding folds_def same_value_def by (auto split: sum.splits)

definition demo_fold :: hw_expr where
  "demo_fold = EBinary OpNotEqual (EAdd (ERead InputRead ''a'' (UIntType 4)) (EConst 2 (UIntType 2)) (UIntType 5))
     (EConst 40 (UIntType 6)) (UIntType 6) BitType"

theorem fold_local_sound_witness:
  "case fold_local 99 demo_fold of
      Inr e' \<Rightarrow> typed_scalar e' \<and> type_of e' = type_of demo_fold \<and> (\<forall>\<sigma>. den \<sigma> e' = den \<sigma> demo_fold)
    | Inl er \<Rightarrow> er = EvaluatorEscape RecursionLimit \<and> 99 \<le> size demo_fold"
  by (rule fold_local_sound)
    (simp_all add: demo_fold_def narrow_mask_def binary_rule_def rule_defs case_defs guardE_def)

text \<open>
  C37: the excluded case is a defect: conjunction with an all-ones constant that is narrower than
  the other operand is folded to that operand, so the node \<open>a AND 15\<close> over an eight-bit
  \<open>a\<close>, a typed node, folds to \<open>a\<close>, which has another value for every \<open>a\<close> above 15.
\<close>

theorem narrow_mask_misfolds:
  "typed_scalar (EBinary OpBitAnd (ERead InputRead ''a'' (UIntType 8)) (EConst 15 (UIntType 4)) (UIntType 8) (UIntType 8)) \<and>
   fold_local k (EBinary OpBitAnd (ERead InputRead ''a'' (UIntType 8)) (EConst 15 (UIntType 4)) (UIntType 8) (UIntType 8)) =
     Inr (ERead InputRead ''a'' (UIntType 8)) \<and>
   den (\<lambda>_. 16) (EBinary OpBitAnd (ERead InputRead ''a'' (UIntType 8)) (EConst 15 (UIntType 4)) (UIntType 8) (UIntType 8)) = 0 \<and>
   den (\<lambda>_. 16) (ERead InputRead ''a'' (UIntType 8)) = 16"
proof (intro conjI)
  have "represent (UIntType 8) 16 = 16" "represent (UIntType 8) 0 = 0" by simp_all
  then show "den (\<lambda>_. 16) (ERead InputRead ''a'' (UIntType 8)) = 16"
    "den (\<lambda>_. 16) (EBinary OpBitAnd (ERead InputRead ''a'' (UIntType 8)) (EConst 15 (UIntType 4)) (UIntType 8) (UIntType 8)) = 0"
    by (simp_all add: binary_value_def)
qed (simp_all add: binary_rule_def rule_defs case_defs guardE_def fold_local_def simplify_binary_def
    simplify_bitwise_def is_mask_def all_ones_def ones_def or_keep_def)

end
