(* ===== verification/Protocol.thy ===== *)
theory Protocol
  imports Denote
begin

text \<open>
  The parts of a module the protocol lowerings look at (\<^verbatim>\<open>zlang/ir/module.py\<close>,
  \<^verbatim>\<open>zlang/ir/interfaces.py\<close>, \<^verbatim>\<open>zlang/ir/verification.py\<close>) and the shared identities of
  \<^verbatim>\<open>zlang/simulation_protocol_shared.py\<close>: which scalar fields an endpoint has, which of them
  the environment drives, how the private fields and registers are named, and which assignment
  drives which field.  A protocol endpoint is a port with a protocol; its scalar fields are
  erased into wires of the generated names.
\<close>

section \<open>Ports, registers and modules\<close>

datatype interface_protocol = Wire | ReadyValid | Credit | Packet | VcCredit

datatype port_direction = Input | Output

text \<open>\<^verbatim>\<open>ProtocolScalarSignal\<close>: the signal of one of the four protocol families.\<close>

datatype scalar_signal =
    RvSignal rv_signal | CreditSignal credit_signal | VcSignal vc_signal | PacketSignal packet_signal

type_synonym signal_key = "string \<times> scalar_signal"

record port =
  pt_direction :: port_direction
  pt_name :: string
  pt_type :: hwtype
  pt_protocol :: interface_protocol
  pt_capacity :: "int option"
  pt_domain :: "string option"
  pt_channels :: "int option"

record register =
  rg_name :: string
  rg_type :: hwtype
  rg_initial :: "hw_expr option"
  rg_domain :: "string option"

datatype assign_target = ToPort port | ToInterface string

record assignment =
  as_target :: assign_target
  as_expression :: hw_expr
  as_signal :: "scalar_signal option"

record next_assignment =
  na_target :: register
  na_expression :: hw_expr
  na_activation :: "hw_expr option"

record clock_domain =
  cd_clock :: string
  cd_reset :: string

text \<open>The verification overlay (\<^verbatim>\<open>zlang/ir/verification.py\<close>).\<close>

datatype goal_kind = AssertGoal | EnsureGoal | CoverGoal

record requirement =
  rq_id :: string
  rq_name :: string
  rq_expression :: hw_expr

record goal =
  gl_id :: string
  gl_scope :: string
  gl_kind :: goal_kind
  gl_name :: string
  gl_expression :: hw_expr

record scope =
  sc_id :: string
  sc_name :: string
  sc_clock :: string
  sc_reset :: string
  sc_requirements :: "requirement list"
  sc_goals :: "goal list"

text \<open>Packet arbiters (\<^verbatim>\<open>zlang/ir/arbitration.py\<close>).\<close>

datatype arbitration_policy = FixedPriority | RoundRobin

datatype grant_scope = BeatGrant | PacketGrant

record packet_arbiter =
  ar_sources :: "port list"
  ar_destination :: port
  ar_policy :: arbitration_policy
  ar_scope :: grant_scope

text \<open>
  The fields of a module the leaf lowerings read or replace.  \<open>md_linked\<close> says that one of the
  connection fields is not empty, \<open>md_stored\<close> that a rule, FIFO, memory, ROM or CSR block is present, and \<open>md_retained\<close> holds the other expression-bearing fields
  (functions, rules, storage, locals, instance bindings, the resolved transition), by field name.
\<close>

record module =
  md_name :: string
  md_ports :: "port list"
  md_assignments :: "assignment list"
  md_clock :: "string option"
  md_reset :: "string option"
  md_registers :: "register list"
  md_next :: "next_assignment list"
  md_domains :: "clock_domain list"
  md_scopes :: "scope list"
  md_linked :: bool
  md_stored :: bool
  md_arbiters :: "packet_arbiter list"
  md_retained :: "(string \<times> hw_expr list) list"

datatype proto_error =
    CounterNotUnsigned | NoChannelCount string | NoCapacity string | NoClockDomain string | NoReset string
  | NoFieldInventory | NoScalarField | UnknownEndpoint string | CyclicSignal signal_key | NoDriver signal_key
  | NoSenderCredits string | NoCounters string | IncompleteEndpoint string | UnknownField signal_key
  | PacketOneArbiter | PacketOnlyEndpoints | PacketNoSources | PacketNoClock | PacketNoReset | MixedFamilies | NotLeaf | AssignmentNoSignal string | DerivedField signal_key
  | EnvironmentOwned signal_key | MultipleDrivers signal_key | RequirementEmptyId | RequirementEmptyName | RequirementNotBit
  | GoalEmptyId | GoalEmptyScope | GoalEmptyName | GoalNotBit | ActivationNotBit
  | ScopeEmptyId | ScopeEmptyName | ScopeClockReset | ScopeDuplicateRequirements | ScopeDuplicateGoals
  | ScopeSharedNames | ScopeForeignGoal | ScopeEmpty | BadConstructor expr_error
  | BadType type_error

section \<open>One-bit expressions\<close>

definition bit_binary :: "bin_op \<Rightarrow> hw_expr \<Rightarrow> hw_expr \<Rightarrow> hw_expr" where
  "bit_binary p l r = EBinary p l r BitType BitType"

definition bit_not :: "hw_expr \<Rightarrow> hw_expr" where
  "bit_not e = bit_binary OpBitXor e (EConst 1 BitType)"

section \<open>Names of the private fields\<close>

fun rv_value :: "rv_signal \<Rightarrow> string" where
  "rv_value RvPayload = ''payload''" | "rv_value RvValid = ''valid''"
| "rv_value RvReady = ''ready''" | "rv_value RvTransfer = ''transfer''"

fun credit_value :: "credit_signal \<Rightarrow> string" where
  "credit_value CrPayload = ''payload''" | "credit_value CrSend = ''send''"
| "credit_value CrReturn = ''return''" | "credit_value CrTransfer = ''transfer''"
| "credit_value CrCredits = ''credits''"

fun packet_value :: "packet_signal \<Rightarrow> string" where
  "packet_value PkPayload = ''payload''" | "packet_value PkValid = ''valid''"
| "packet_value PkReady = ''ready''" | "packet_value PkLast = ''last''"
| "packet_value PkTransfer = ''transfer''"

fun vc_value :: "vc_signal \<Rightarrow> string" where
  "vc_value VcPayload = ''payload''" | "vc_value VcChannel = ''vc''" | "vc_value VcSend = ''send''"
| "vc_value VcReturn = ''return''" | "vc_value VcReturnChannel = ''return_vc''"
| "vc_value VcTransfer = ''transfer''" | "vc_value VcCredits = ''credits''"

fun signal_value :: "scalar_signal \<Rightarrow> string" where
  "signal_value (RvSignal s) = rv_value s" | "signal_value (CreditSignal s) = credit_value s"
| "signal_value (VcSignal s) = vc_value s" | "signal_value (PacketSignal s) = packet_value s"

definition protocol_field_name :: "string \<Rightarrow> string \<Rightarrow> string" where
  "protocol_field_name endpoint field = ''$zlang_protocol:'' @ endpoint @ '':'' @ field"

definition ready_valid_field_name :: "string \<Rightarrow> rv_signal \<Rightarrow> string" where
  "ready_valid_field_name endpoint s = protocol_field_name endpoint (rv_value s)"

definition credit_state_name :: "string \<Rightarrow> string \<Rightarrow> string" where
  "credit_state_name endpoint kind = ''$zlang_protocol_credit:'' @ endpoint @ '':'' @ kind"

text \<open>The decimal digits of a channel number (\<^verbatim>\<open>str\<close> of a non-negative integer).\<close>

fun decimal :: "nat \<Rightarrow> string" where
  "decimal n = (if n < 10 then [char_of (48 + n)] else decimal (n div 10) @ [char_of (48 + n mod 10)])"

declare decimal.simps [simp del]

definition vc_credit_state_name :: "string \<Rightarrow> string \<Rightarrow> nat \<Rightarrow> string" where
  "vc_credit_state_name endpoint kind channel =
     ''$zlang_protocol_vc_credit:'' @ endpoint @ '':'' @ kind @ '':'' @ decimal channel"

definition packet_state_name :: "string \<Rightarrow> string option \<Rightarrow> string" where
  "packet_state_name kind source = ''$zlang_protocol_packet:'' @ kind @
     (case source of None \<Rightarrow> [] | Some n \<Rightarrow> '':'' @ n)"

text \<open>
  \<^verbatim>\<open>parse_ready_valid_field_name\<close>: \<open>rpartition\<close> splits at the last colon, and the endpoint must
  not be empty or hold another one.
\<close>

definition rpartition :: "char \<Rightarrow> string \<Rightarrow> (string \<times> string) option" where
  "rpartition c s = (if c \<notin> set s then None
     else let tail = takeWhile (\<lambda>x. x \<noteq> c) (rev s) in
       Some (take (length s - length tail - 1) s, rev tail))"

definition rv_of_value :: "string \<Rightarrow> rv_signal option" where
  "rv_of_value f = List.find (\<lambda>s. rv_value s = f) [RvPayload, RvValid, RvReady, RvTransfer]"

definition parse_ready_valid_field_name :: "string \<Rightarrow> (string \<times> rv_signal) option" where
  "parse_ready_valid_field_name name = (let prefix = ''$zlang_protocol:'' in
     if take (length prefix) name \<noteq> prefix then None
     else (case rpartition (CHR '':'') (drop (length prefix) name) of
         None \<Rightarrow> None
       | Some p \<Rightarrow> if fst p = [] \<or> CHR '':'' \<in> set (fst p) then None
           else (case rv_of_value (snd p) of
               None \<Rightarrow> None
             | Some s \<Rightarrow> if s = RvTransfer then None
                 else if ready_valid_field_name (fst p) s \<noteq> name then None
                 else Some (fst p, s))))"

section \<open>The scalar fields of an endpoint\<close>

datatype field_kind = PayloadField | BitField | ChannelField

fun protocol_field_specs :: "interface_protocol \<Rightarrow> (scalar_signal \<times> field_kind \<times> bool) list option" where
  "protocol_field_specs ReadyValid = Some
     [(RvSignal RvPayload, PayloadField, True), (RvSignal RvValid, BitField, True), (RvSignal RvReady, BitField, False)]"
| "protocol_field_specs Credit = Some
     [(CreditSignal CrPayload, PayloadField, True), (CreditSignal CrSend, BitField, True),
      (CreditSignal CrReturn, BitField, False)]"
| "protocol_field_specs VcCredit = Some
     [(VcSignal VcPayload, PayloadField, True), (VcSignal VcChannel, ChannelField, True),
      (VcSignal VcSend, BitField, True), (VcSignal VcReturn, BitField, False),
      (VcSignal VcReturnChannel, ChannelField, False)]"
| "protocol_field_specs Packet = Some
     [(PacketSignal PkPayload, PayloadField, True), (PacketSignal PkValid, BitField, True),
      (PacketSignal PkReady, BitField, False), (PacketSignal PkLast, BitField, True)]"
| "protocol_field_specs Wire = None"

definition vc_credit_channel_type :: "port \<Rightarrow> proto_error + hwtype" where
  "vc_credit_channel_type p = (case pt_channels p of
       None \<Rightarrow> Inl (NoChannelCount (pt_name p))
     | Some n \<Rightarrow> if n < 1 then Inl (NoChannelCount (pt_name p))
         else Inr (UIntType (max 1 (bit_length (n - 1)))))"

type_synonym scalar_field = "scalar_signal \<times> hwtype \<times> bool"

definition protocol_scalar_fields :: "port \<Rightarrow> proto_error + scalar_field list" where
  "protocol_scalar_fields p = (case protocol_field_specs (pt_protocol p) of
       None \<Rightarrow> Inl NoFieldInventory
     | Some specs \<Rightarrow>
         bindE (if pt_protocol p = VcCredit then vc_credit_channel_type p else Inr BitType) (\<lambda>channel.
           Inr (map (\<lambda>(s, kind, forward).
               (s, (case kind of PayloadField \<Rightarrow> pt_type p | ChannelField \<Rightarrow> channel | BitField \<Rightarrow> BitType),
                if pt_direction p = Input then forward else \<not> forward)) specs)))"

definition protocol_scalar_field :: "port \<Rightarrow> scalar_signal \<Rightarrow> proto_error + scalar_field" where
  "protocol_scalar_field p s = bindE (protocol_scalar_fields p) (\<lambda>fs.
     case List.find (\<lambda>f. fst f = s) fs of None \<Rightarrow> Inl NoScalarField | Some f \<Rightarrow> Inr f)"

text \<open>The clock and reset that own an endpoint.\<close>

definition owning_domain :: "module \<Rightarrow> port \<Rightarrow> string option" where
  "owning_domain m p = (case pt_domain p of
       Some d \<Rightarrow> if d = [] then md_clock m else Some d | None \<Rightarrow> md_clock m)"

definition clock_reset :: "module \<Rightarrow> string \<Rightarrow> string option" where
  "clock_reset m d = (case List.find (\<lambda>c. cd_clock c = d) (md_domains m) of
       Some c \<Rightarrow> Some (cd_reset c) | None \<Rightarrow> if md_clock m = Some d then md_reset m else None)"

definition domain_reset :: "module \<Rightarrow> port \<Rightarrow> proto_error + (string \<times> string)" where
  "domain_reset m p = (case owning_domain m p of
       None \<Rightarrow> Inl (NoClockDomain (pt_name p))
     | Some d \<Rightarrow> (case clock_reset m d of
         None \<Rightarrow> Inl (NoReset (pt_name p))
       | Some r \<Rightarrow> Inr (d, r)))"

definition reset_deasserted :: "module \<Rightarrow> port \<Rightarrow> proto_error + hw_expr" where
  "reset_deasserted m p = bindE (domain_reset m p) (\<lambda>dr.
     Inr (bit_not (ERead InputRead (''$reset:'' @ snd dr) BitType)))"

definition endpoint_port :: "port list \<Rightarrow> string \<Rightarrow> proto_error + port" where
  "endpoint_port ps n = (case List.find (\<lambda>p. pt_name p = n) (rev ps) of
       None \<Rightarrow> Inl (UnknownEndpoint n) | Some p \<Rightarrow> Inr p)"

section \<open>The drivers of the fields\<close>

definition validate_leaf :: "module \<Rightarrow> interface_protocol \<Rightarrow> proto_error + unit" where
  "validate_leaf m pr = (if list_ex (\<lambda>p. pt_protocol p \<noteq> Wire \<and> pt_protocol p \<noteq> pr) (md_ports m) then Inl MixedFamilies
     else if md_linked m then Inl NotLeaf else Inr ())"

fun signal_family :: "scalar_signal \<Rightarrow> interface_protocol" where
  "signal_family (RvSignal s) = ReadyValid" | "signal_family (CreditSignal s) = Credit"
| "signal_family (VcSignal s) = VcCredit" | "signal_family (PacketSignal s) = Packet"

text \<open>One iteration of the loop of \<^verbatim>\<open>_endpoint_producers\<close>, and the loop.\<close>

definition add_producer ::
    "interface_protocol \<Rightarrow> scalar_signal list \<Rightarrow> assignment \<Rightarrow> (signal_key \<times> hw_expr) list \<Rightarrow>
      proto_error + (signal_key \<times> hw_expr) list" where
  "add_producer pr derived a acc = (case as_target a of
       ToInterface n \<Rightarrow> Inr acc
     | ToPort p \<Rightarrow> if pt_protocol p \<noteq> pr then Inr acc
         else (case as_signal a of
             None \<Rightarrow> Inl (AssignmentNoSignal (pt_name p))
           | Some s \<Rightarrow> if signal_family s \<noteq> pr then Inl (AssignmentNoSignal (pt_name p))
               else if s \<in> set derived then Inl (DerivedField (pt_name p, s))
               else bindE (protocol_scalar_field p s) (\<lambda>f.
                 if snd (snd f) then Inl (EnvironmentOwned (pt_name p, s))
                 else if (pt_name p, s) \<in> set (map fst acc) then Inl (MultipleDrivers (pt_name p, s))
                 else Inr (acc @ [((pt_name p, s), as_expression a)]))))"

definition endpoint_producers ::
    "interface_protocol \<Rightarrow> scalar_signal list \<Rightarrow> assignment list \<Rightarrow> proto_error + (signal_key \<times> hw_expr) list" where
  "endpoint_producers pr derived as = foldE (add_producer pr derived) as []"

section \<open>The scalar boundary\<close>

definition wire_port :: "port_direction \<Rightarrow> string \<Rightarrow> hwtype \<Rightarrow> string option \<Rightarrow> port" where
  "wire_port d n t clk = \<lparr>pt_direction = d, pt_name = n, pt_type = t, pt_protocol = Wire,
     pt_capacity = None, pt_domain = clk, pt_channels = None\<rparr>"

definition retained_wires :: "module \<Rightarrow> port list" where
  "retained_wires m = filter (\<lambda>p. pt_protocol p = Wire) (md_ports m)"

definition add_protocol_endpoint :: "port \<Rightarrow> port list \<Rightarrow> proto_error + port list" where
  "add_protocol_endpoint p ps = bindE (protocol_scalar_fields p) (\<lambda>fs.
     Inr (ps @ map (\<lambda>(s, t, external).
       wire_port (if external then Input else Output) (protocol_field_name (pt_name p) (signal_value s)) t (pt_domain p)) fs))"

text \<open>The last port of a name, as the dictionary \<^verbatim>\<open>by_name\<close> keeps it.\<close>

definition scalar_assignment :: "port list \<Rightarrow> string \<Rightarrow> hw_expr \<Rightarrow> proto_error + assignment" where
  "scalar_assignment ps n e = bindE (endpoint_port ps n) (\<lambda>p.
     Inr \<lparr>as_target = ToPort p, as_expression = e, as_signal = None\<rparr>)"

section \<open>Run-time scopes\<close>

definition mk_next :: "register \<Rightarrow> hw_expr \<Rightarrow> hw_expr option \<Rightarrow> proto_error + next_assignment" where
  "mk_next r e a = (case a of
       None \<Rightarrow> Inr \<lparr>na_target = r, na_expression = e, na_activation = None\<rparr>
     | Some x \<Rightarrow> if type_of x \<noteq> BitType then Inl ActivationNotBit
         else Inr \<lparr>na_target = r, na_expression = e, na_activation = Some x\<rparr>)"

definition mk_requirement :: "string \<Rightarrow> string \<Rightarrow> hw_expr \<Rightarrow> proto_error + requirement" where
  "mk_requirement i n e = (if i = [] then Inl RequirementEmptyId
     else if n = [] then Inl RequirementEmptyName
     else if type_of e \<noteq> BitType then Inl RequirementNotBit
     else Inr \<lparr>rq_id = i, rq_name = n, rq_expression = e\<rparr>)"

definition mk_goal :: "string \<Rightarrow> string \<Rightarrow> goal_kind \<Rightarrow> string \<Rightarrow> hw_expr \<Rightarrow> proto_error + goal" where
  "mk_goal i s k n e = (if i = [] then Inl GoalEmptyId
     else if s = [] then Inl GoalEmptyScope
     else if n = [] then Inl GoalEmptyName
     else if type_of e \<noteq> BitType then Inl GoalNotBit
     else Inr \<lparr>gl_id = i, gl_scope = s, gl_kind = k, gl_name = n, gl_expression = e\<rparr>)"

definition mk_scope ::
    "string \<Rightarrow> string \<Rightarrow> string \<Rightarrow> string \<Rightarrow> requirement list \<Rightarrow> goal list \<Rightarrow> proto_error + scope" where
  "mk_scope i n c r rqs gs = (if i = [] then Inl ScopeEmptyId
     else if n = [] then Inl ScopeEmptyName
     else if c = [] \<or> r = [] then Inl ScopeClockReset
     else if \<not> distinct (map rq_name rqs) then Inl ScopeDuplicateRequirements
     else if \<not> distinct (map gl_name gs) then Inl ScopeDuplicateGoals
     else if list_ex (\<lambda>q. rq_name q \<in> set (map gl_name gs)) rqs then Inl ScopeSharedNames
     else if list_ex (\<lambda>g. gl_scope g \<noteq> i) gs then Inl ScopeForeignGoal
     else if rqs = [] \<and> gs = [] then Inl ScopeEmpty
     else Inr \<lparr>sc_id = i, sc_name = n, sc_clock = c, sc_reset = r, sc_requirements = rqs, sc_goals = gs\<rparr>)"

fun protocol_value :: "interface_protocol \<Rightarrow> string" where
  "protocol_value Wire = ''wire''" | "protocol_value ReadyValid = ''ready_valid''"
| "protocol_value Credit = ''credit''" | "protocol_value Packet = ''packet''"
| "protocol_value VcCredit = ''vc_credit''"

text \<open>\<open>digest\<close> stands for the hexadecimal SHA-256 of the text.\<close>

definition runtime_protocol_scope ::
    "(string \<Rightarrow> string) \<Rightarrow> module \<Rightarrow> port \<Rightarrow> (string \<times> hw_expr) list \<Rightarrow> proto_error + scope" where
  "runtime_protocol_scope digest m p conds = bindE (domain_reset m p) (\<lambda>dr.
     let i = ''$zlang_runtime_protocol:'' @ take 24 (digest
           (md_name m @ ''|'' @ pt_name p @ ''|'' @ protocol_value (pt_protocol p) @ ''|'' @ fst dr @ ''|protocol-check'')) in
     bindE (mapE (\<lambda>(k, c). mk_goal (i @ '':'' @ decimal k) i AssertGoal (fst c) (snd c)) (enumerate 0 conds)) (\<lambda>gs.
       mk_scope i (protocol_value (pt_protocol p) @ '' endpoint '' @ pt_name p) (fst dr) (snd dr) [] gs))"

section \<open>One-bit logic\<close>

definition is_bit :: "(hw_expr \<Rightarrow> int) \<Rightarrow> hw_expr \<Rightarrow> bool" where
  "is_bit \<sigma> e \<longleftrightarrow> den \<sigma> e = 0 \<or> den \<sigma> e = 1"

lemma typed_bit: "typed_scalar e \<Longrightarrow> type_of e = BitType \<Longrightarrow> is_bit \<sigma> e"
  using den_fits [of e \<sigma>] by (auto simp: is_bit_def)

lemma den_bit_and [simp]: "is_bit \<sigma> a \<Longrightarrow> is_bit \<sigma> b \<Longrightarrow>
    den \<sigma> (bit_binary OpBitAnd a b) = of_bool (den \<sigma> a \<noteq> 0 \<and> den \<sigma> b \<noteq> 0)"
  by (auto simp: bit_binary_def is_bit_def represent_bit binary_value_def)

lemma den_bit_not [simp]: "is_bit \<sigma> a \<Longrightarrow> den \<sigma> (bit_not a) = of_bool (den \<sigma> a = 0)"
  by (auto simp: bit_not_def bit_binary_def is_bit_def represent_bit binary_value_def)

lemma den_bit_or [simp]: "is_bit \<sigma> a \<Longrightarrow> is_bit \<sigma> b \<Longrightarrow>
    den \<sigma> (bit_binary OpBitOr a b) = of_bool (den \<sigma> a \<noteq> 0 \<or> den \<sigma> b \<noteq> 0)"
  by (auto simp: bit_binary_def is_bit_def represent_bit binary_value_def)

lemma den_equal: "den \<sigma> (EBinary OpEqual a b t BitType) = of_bool (den \<sigma> a = den \<sigma> b)"
  and is_bit_equal: "is_bit \<sigma> (EBinary OpEqual a b t BitType)"
  by (auto simp: is_bit_def represent_bit binary_value_def)

lemma is_bit_binary [simp]: "is_bit \<sigma> (bit_binary p a b)" "is_bit \<sigma> (bit_not a)"
  by (auto simp: is_bit_def bit_not_def bit_binary_def represent_bit)

lemma is_bit_read [simp]: "is_bit \<sigma> (ERead k n BitType)"
  by (auto simp: is_bit_def represent_bit)

lemma typed_bit_and [simp]: "typed_scalar (bit_binary OpBitAnd a b) \<longleftrightarrow>
    typed_scalar a \<and> typed_scalar b \<and> bitwise_rule (type_of a) (type_of b) = Inr \<lparr>operand_type = BitType, result_type = BitType\<rparr>"
  by (simp add: bit_binary_def binary_rule_def)

lemma bit_rules [simp]: "bitwise_rule BitType BitType = Inr \<lparr>operand_type = BitType, result_type = BitType\<rparr>"
  by (simp add: rule_defs bitwise_cases_def)

lemma typed_bit_not [simp]: "typed_scalar a \<Longrightarrow> type_of a = BitType \<Longrightarrow> typed_scalar (bit_not a)"
  by (simp add: bit_not_def bit_binary_def binary_rule_def)

lemma type_bit [simp]: "type_of (bit_binary p a b) = BitType" "type_of (bit_not a) = BitType"
  by (simp_all add: bit_not_def bit_binary_def)

text \<open>
  A chain of multiplexers compares a selector with 1, 2, ... and falls back on its first choice:
  the index it selects.
\<close>

definition chain_index :: "int \<Rightarrow> nat \<Rightarrow> nat" where
  "chain_index v n = (if 0 \<le> v \<and> v < int n then nat v else 0)"

section \<open>Reset and fields\<close>

definition in_reset :: "(hw_expr \<Rightarrow> int) \<Rightarrow> module \<Rightarrow> port \<Rightarrow> bool" where
  "in_reset \<sigma> m p = (case domain_reset m p of Inl _ \<Rightarrow> True
     | Inr dr \<Rightarrow> den \<sigma> (ERead InputRead (''$reset:'' @ snd dr) BitType) \<noteq> 0)"

definition field_read :: "port \<Rightarrow> scalar_signal \<Rightarrow> hwtype \<Rightarrow> hw_expr" where
  "field_read p s t = ERead InputRead (protocol_field_name (pt_name p) (signal_value s)) t"

lemma find_SomeD: "List.find P xs = Some x \<Longrightarrow> P x \<and> x \<in> set xs"
  by (induction xs) (auto split: if_splits)

lemma endpoint_port_name: "endpoint_port ps n = Inr p \<Longrightarrow> pt_name p = n \<and> p \<in> set ps"
  by (auto simp: endpoint_port_def split: option.splits dest!: find_SomeD)

lemma reset_deasserted_form:
  "reset_deasserted m p = Inr r \<Longrightarrow> \<exists>x. r = bit_not (ERead InputRead x BitType) \<and>
    (\<forall>\<sigma>. in_reset \<sigma> m p \<longleftrightarrow> den \<sigma> (ERead InputRead x BitType) \<noteq> 0)"
  by (auto simp: reset_deasserted_def in_reset_def split: sum.splits)

lemma reset_deasserted_Inr:
  assumes "reset_deasserted m p = Inr r"
  shows "typed_scalar r" "type_of r = BitType" "is_bit \<sigma> r" "den \<sigma> r = of_bool (\<not> in_reset \<sigma> m p)"
proof -
  obtain x where x: "r = bit_not (ERead InputRead x BitType)"
    "\<forall>\<sigma>. in_reset \<sigma> m p \<longleftrightarrow> den \<sigma> (ERead InputRead x BitType) \<noteq> 0"
    using reset_deasserted_form [OF assms] by blast
  show "typed_scalar r" "type_of r = BitType" "is_bit \<sigma> r" using x(1) by simp_all
  show "den \<sigma> r = of_bool (\<not> in_reset \<sigma> m p)" unfolding x(1) x(2) [rule_format] by (simp del: den.simps)
qed

lemma reset_bit: "reset_deasserted m p = Inr r \<Longrightarrow>
    typed_scalar r \<and> type_of r = BitType \<and> is_bit \<sigma> r \<and> den \<sigma> r = of_bool (\<not> in_reset \<sigma> m p)"
  using reset_deasserted_Inr by blast

section \<open>Reading a field name back\<close>

lemma rpartition_append: "c \<notin> set f \<Longrightarrow> rpartition c (e @ c # f) = Some (e, f)"
proof -
  assume "c \<notin> set f"
  then have "\<forall>x\<in>set (rev f). x \<noteq> c" by auto
  then have "takeWhile (\<lambda>x. x \<noteq> c) (rev f @ c # rev e) = rev f" by (simp add: takeWhile_append)
  then show ?thesis by (simp add: rpartition_def)
qed

lemma rv_value_no_colon: "CHR '':'' \<notin> set (rv_value s)"
  by (cases s) auto

lemma rv_of_value_value: "rv_of_value (rv_value s) = Some s"
  by (cases s) (simp_all add: rv_of_value_def)

text \<open>
  C40: the private name of a ready/valid field names its endpoint and signal: it is read back
  exactly, and only names of this form are accepted.
\<close>

theorem field_name_roundtrip:
  "parse_ready_valid_field_name name = Some (endpoint, s) \<longleftrightarrow>
    name = ready_valid_field_name endpoint s \<and> endpoint \<noteq> [] \<and> CHR '':'' \<notin> set endpoint \<and> s \<noteq> RvTransfer"
proof
  assume "parse_ready_valid_field_name name = Some (endpoint, s)"
  then show "name = ready_valid_field_name endpoint s \<and> endpoint \<noteq> [] \<and> CHR '':'' \<notin> set endpoint \<and> s \<noteq> RvTransfer"
    by (auto simp: parse_ready_valid_field_name_def Let_def split: if_splits option.splits)
next
  assume a: "name = ready_valid_field_name endpoint s \<and> endpoint \<noteq> [] \<and> CHR '':'' \<notin> set endpoint \<and> s \<noteq> RvTransfer"
  define prefix where "prefix = ''$zlang_protocol:''"
  have name: "name = prefix @ endpoint @ CHR '':'' # rv_value s"
    using a by (simp add: ready_valid_field_name_def protocol_field_name_def prefix_def)
  have "rpartition (CHR '':'') (drop (length prefix) name) = Some (endpoint, rv_value s)"
    unfolding name using rpartition_append [OF rv_value_no_colon] by simp
  moreover have "take (length prefix) name = prefix" unfolding name by simp
  ultimately show "parse_ready_valid_field_name name = Some (endpoint, s)"
    using a by (simp add: parse_ready_valid_field_name_def prefix_def [symmetric] rv_of_value_value)
qed

end
