(* ===== verification/Lowering.thy ===== *)
theory Lowering
  imports Protocol
begin

text \<open>
  The rewriting that erases protocol references from expressions
  (\<^verbatim>\<open>SimulationExpressionRewriter\<close> of \<^verbatim>\<open>zlang/simulation_rewrite.py\<close> and
  \<^verbatim>\<open>_producer_expression\<close> of \<^verbatim>\<open>zlang/simulation_protocol_shared.py\<close>): a reference to a
  signal of an endpoint becomes an input wire, a counter register, or the lowered expression that
  drives the signal, gated as the protocol says; every other node is rebuilt over its rewritten
  operands by its own validating constructor.  A signal whose driver depends on itself is
  rejected, which is what makes the recursion end.

  The locale \<open>endpoint_rules\<close> states what a protocol promises of the way it resolves a signal;
  inside it, lowering is shown to remove every reference and to keep the type and the value of a
  scalar expression.  The protocol theories interpret it.
\<close>

section \<open>Rebuilding a node\<close>

definition liftB :: "expr_error + 'a \<Rightarrow> proto_error + 'a" where
  "liftB r = (case r of Inl e \<Rightarrow> Inl (BadConstructor e) | Inr x \<Rightarrow> Inr x)"

lemma liftB_Inr [simp]: "liftB r = Inr x \<longleftrightarrow> r = Inr x"
  by (simp add: liftB_def split: sum.splits)

fun rebuild_tables :: "func_table list \<Rightarrow> hw_expr list \<Rightarrow> expr_error + (func_table list \<times> hw_expr list)" where
  "rebuild_tables [] cs = Inr ([], cs)"
| "rebuild_tables (tb # ts) cs = (let k = length (table_values tb) in
     bindE (mk_table (table_name tb) (take k cs) (table_type tb) (table_start tb)) (\<lambda>tb'.
       bindE (rebuild_tables ts (drop k cs)) (\<lambda>r. Inr (tb' # fst r, snd r))))"

definition element_types :: "hwtype \<Rightarrow> hwtype list" where
  "element_types t = (case t of TupleType ts \<Rightarrow> ts | _ \<Rightarrow> [])"

definition rebuild_union :: "string \<Rightarrow> (string \<times> hw_expr) list \<Rightarrow> hwtype \<Rightarrow> expr_error + hw_expr" where
  "rebuild_union v fs t = (case t of TaggedUnionType n vs d \<Rightarrow> mk_union_expr v fs n vs d
     | _ \<Rightarrow> Inl (UnionVariant v))"

text \<open>\<^verbatim>\<open>replace(value, **updates)\<close> runs \<^verbatim>\<open>__post_init__\<close> of the class again.\<close>

fun rebuild :: "hw_expr \<Rightarrow> hw_expr list \<Rightarrow> expr_error + hw_expr" where
  "rebuild (EAdd l r t) cs = Inr (EAdd (cs ! 0) (cs ! 1) t)"
| "rebuild (EBinary p l r ot t) cs = Inr (EBinary p (cs ! 0) (cs ! 1) ot t)"
| "rebuild (EExtend e t) cs = Inr (EExtend (cs ! 0) t)"
| "rebuild (ETruncate e t) cs = Inr (ETruncate (cs ! 0) t)"
| "rebuild (EFixedConvert e r p k d t) cs = Inr (EFixedConvert (cs ! 0) r p k d t)"
| "rebuild (EMux c a b t) cs = Inr (EMux (cs ! 0) (cs ! 1) (cs ! 2) t)"
| "rebuild (ESwitch c ks d t) cs = Inr (ESwitch (cs ! 0) (zip (map fst ks) (tl cs)) (cs ! (1 + length ks)) t)"
| "rebuild (EField e f t) cs = Inr (EField (cs ! 0) f t)"
| "rebuild (EEnumEncode e t) cs = Inr (EEnumEncode (cs ! 0) t)"
| "rebuild (EEnumValid e d t) cs = Inr (EEnumValid (cs ! 0) d t)"
| "rebuild (EEnumDecode e f d) cs = Inr (EEnumDecode (cs ! 0) (cs ! 1) d)"
| "rebuild (EStruct n fs t) cs = Inr (EStruct n (zip (map fst fs) cs) t)"
| "rebuild (ETuple es t) cs = mk_tuple_expr cs (element_types t)"
| "rebuild (EProject e i t) cs = mk_project (cs ! 0) (int i) t"
| "rebuild (EUnion v fs t) cs = rebuild_union v (zip (map fst fs) cs) t"
| "rebuild (EUnionTag e t) cs = mk_union_tag (cs ! 0) t"
| "rebuild (EUnionField e v f t) cs = mk_union_field_expr (cs ! 0) v f t"
| "rebuild (EIndex e i t) cs = mk_index (cs ! 0) i t"
| "rebuild (ERuntimeIndex e i n r t) cs = mk_runtime_index (cs ! 0) (cs ! 1) n r t"
| "rebuild (EUpdate e i v n r t) cs = mk_update (cs ! 0) (cs ! 1) (cs ! 2) n r t"
| "rebuild (ESlice e m l t) cs = Inr (ESlice (cs ! 0) m l t)"
| "rebuild (EConcat es t) cs = Inr (EConcat cs t)"
| "rebuild (ECast k e t) cs = Inr (ECast k (cs ! 0) t)"
| "rebuild (EVecConcat es t) cs = Inr (EVecConcat cs t)"
| "rebuild (EReshape e t) cs = Inr (EReshape (cs ! 0) t)"
| "rebuild (EElements es t) cs = Inr (EElements cs t)"
| "rebuild (ERegion k b e ts caps cts t) cs = bindE (rebuild_tables ts (tl cs)) (\<lambda>r.
     mk_region k b (cs ! 0) (fst r) (zip (map fst caps) (snd r)) cts t)"
| "rebuild (EReduce p e t x pl) cs = mk_reduce p (cs ! 0) t (if x = None then None else Some (cs ! 1)) pl"
| "rebuild (EOther n es t) cs = Inr (EOther n cs t)"
| "rebuild e cs = Inr e"

lemma one_child: "length cs = Suc 0 \<Longrightarrow> [cs ! 0] = cs"
  and two_children: "length cs = Suc (Suc 0) \<Longrightarrow> [cs ! 0, cs ! Suc 0] = cs"
  and three_children: "length cs = Suc (Suc (Suc 0)) \<Longrightarrow> [cs ! 0, cs ! Suc 0, cs ! 2] = cs"
  by (auto simp: length_Suc_conv numeral_2_eq_2)

lemma rebuild_tables_children:
  "rebuild_tables ts cs = Inr r \<Longrightarrow> sum_list (map (\<lambda>tb. length (table_values tb)) ts) \<le> length cs \<Longrightarrow>
    concat (map table_values (fst r)) @ snd r = cs \<and>
      length (snd r) = length cs - sum_list (map (\<lambda>tb. length (table_values tb)) ts)"
proof (induction ts cs arbitrary: r rule: rebuild_tables.induct)
  case (2 tb ts cs)
  let ?k = "length (table_values tb)"
  from 2(2) obtain tb' q where tb': "mk_table (table_name tb) (take ?k cs) (table_type tb) (table_start tb) = Inr tb'"
    and q: "rebuild_tables ts (drop ?k cs) = Inr q" and r: "r = (tb' # fst q, snd q)"
    by (auto simp: Let_def)
  have "table_values tb' = take ?k cs" using tb' by (auto simp: mk_table_def table_defs split: if_splits)
  moreover have "concat (map table_values (fst q)) @ snd q = drop ?k cs"
    "length (snd q) = length cs - ?k - sum_list (map (\<lambda>tb. length (table_values tb)) ts)"
    using 2(1) [OF refl tb' q] 2(3) by simp_all
  ultimately show ?case using r by simp
qed simp

lemma children_region: "children (ERegion k b e ts cs cts t) = e # concat (map table_values ts) @ map snd cs"
  by (simp add: table_values_def [abs_def])

lemma children_rebuild_region:
  assumes "rebuild (ERegion k b e ts caps cts t) cs = Inr e'" "length cs = length (children (ERegion k b e ts caps cts t))"
  shows "children e' = cs"
proof -
  have len: "length cs = Suc (sum_list (map (\<lambda>tb. length (table_values tb)) ts) + length caps)"
    using assms(2) unfolding children_region by (simp add: length_concat comp_def)
  obtain x zs where cs: "cs = x # zs" using len by (cases cs) auto
  obtain r where r: "rebuild_tables ts zs = Inr r"
    and e': "mk_region k b x (fst r) (zip (map fst caps) (snd r)) cts t = Inr e'"
    using assms(1) cs by auto
  have "concat (map table_values (fst r)) @ snd r = zs" "length (snd r) = length caps"
    using rebuild_tables_children [OF r] len cs by simp_all
  moreover have "e' = ERegion k b x (fst r) (zip (map fst caps) (snd r)) cts t"
    using e' by (auto simp: mk_region_def split: hwtype.splits if_splits option.splits)
  ultimately show ?thesis using cs unfolding \<open>e' = _\<close> children_region by simp
qed

lemma children_rebuild:
  assumes "rebuild e cs = Inr e'" "length cs = length (children e)"
  shows "children e' = cs"
proof (cases e)
  case (ERegion k b x ts caps cts t)
  then show ?thesis using children_rebuild_region assms by blast
next
  case (EReduce p x t y pl)
  then show ?thesis using assms
    by (auto simp: mk_reduce_def one_child two_children split: option.splits hwtype.splits if_splits)
next
  case (EUnion v fs t)
  then have "e' = EUnion v (zip (map fst fs) cs) t" "length cs = length fs" using assms
    by (auto simp: rebuild_union_def mk_union_expr_def split: hwtype.splits if_splits option.splits)
  then show ?thesis by simp
next
  case (ESwitch c ks d t)
  then obtain x zs y where cs: "cs = x # zs @ [y]" "length zs = length ks"
    using assms(2) by (cases cs; cases "tl cs" rule: rev_cases) auto
  then show ?thesis using assms(1) ESwitch by (auto simp: nth_append map_snd_zip_take)
qed (use assms in \<open>auto simp: mk_tuple_expr_def mk_project_def mk_union_tag_def
  mk_union_field_expr_def mk_index_def mk_runtime_index_def mk_update_def one_child two_children three_children
  split: hwtype.splits if_splits option.splits\<close>)

section \<open>Lowering\<close>

type_synonym resolution = "signal_key list \<times> (hw_expr list \<Rightarrow> proto_error + hw_expr)"

text \<open>
  \<open>lw_ref\<close> recognises the references of one protocol, \<open>lw_resolve\<close> says which driven signals
  the value of a signal needs and how it is built from their lowered drivers, and
  \<open>lw_producers\<close> is the dictionary of drivers.
\<close>

record lowering =
  lw_ref :: "hw_expr \<Rightarrow> signal_key option"
  lw_resolve :: "string \<Rightarrow> scalar_signal \<Rightarrow> proto_error + resolution"
  lw_producers :: "(signal_key \<times> hw_expr) list"

function lower :: "lowering \<Rightarrow> signal_key set \<Rightarrow> hw_expr \<Rightarrow> proto_error + hw_expr" where
  "lower L act e = (case lw_ref L e of
       Some k \<Rightarrow> bindE (lw_resolve L (fst k) (snd k)) (\<lambda>r.
         bindE (mapE (\<lambda>d. if d \<in> act then Inl (CyclicSignal d)
             else (case map_of (lw_producers L) d of
                 None \<Rightarrow> Inl (NoDriver d) | Some src \<Rightarrow> lower L (insert d act) src)) (fst r)) (snd r))
     | None \<Rightarrow> bindE (mapE (lower L act) (children e)) (\<lambda>cs.
         if cs = children e then Inr e else liftB (rebuild e cs)))"
  by pat_completeness auto
termination
proof (relation "(\<lambda>(L, act, e). card (set (map fst (lw_producers L)) - act)) <*mlex*> measure (\<lambda>(L, act, e). size e)")
  show "wf ((\<lambda>(L, act, e). card (set (map fst (lw_producers L)) - act)) <*mlex*> measure (\<lambda>(L, act, e). size e))"
    by (intro wf_mlex wf_measure)
next
  fix L :: lowering and act e d src
  assume "d \<notin> act" "map_of (lw_producers L) d = Some src"
  then have "d \<in> set (map fst (lw_producers L)) - act" by (auto dest: map_of_SomeD intro: rev_image_eqI)
  then have "set (map fst (lw_producers L)) - insert d act \<subset> set (map fst (lw_producers L)) - act" by blast
  then have "card (set (map fst (lw_producers L)) - insert d act) < card (set (map fst (lw_producers L)) - act)"
    by (intro psubset_card_mono) auto
  then show "((L, insert d act, src), L, act, e) \<in>
      (\<lambda>(L, act, e). card (set (map fst (lw_producers L)) - act)) <*mlex*> measure (\<lambda>(L, act, e). size e)"
    by (intro mlex_less) simp
next
  fix L :: lowering and act e c
  assume "c \<in> set (children e)"
  then show "((L, act, c), L, act, e) \<in>
      (\<lambda>(L, act, e). card (set (map fst (lw_producers L)) - act)) <*mlex*> measure (\<lambda>(L, act, e). size e)"
    by (intro mlex_leq) (auto simp: children_size)
qed

declare lower.simps [simp del]

text \<open>\<open>_producer_expression\<close> and the \<open>signal\<close> method a lowering calls for a field.\<close>

definition produce :: "lowering \<Rightarrow> signal_key set \<Rightarrow> signal_key \<Rightarrow> proto_error + hw_expr" where
  "produce L act d = (if d \<in> act then Inl (CyclicSignal d)
     else (case map_of (lw_producers L) d of
         None \<Rightarrow> Inl (NoDriver d) | Some src \<Rightarrow> lower L (insert d act) src))"

definition lower_signal :: "lowering \<Rightarrow> signal_key set \<Rightarrow> string \<Rightarrow> scalar_signal \<Rightarrow> proto_error + hw_expr" where
  "lower_signal L act n s = bindE (lw_resolve L n s) (\<lambda>r. bindE (mapE (produce L act) (fst r)) (snd r))"

lemma lower_ref: "lw_ref L e = Some k \<Longrightarrow> lower L act e = lower_signal L act (fst k) (snd k)"
  unfolding lower_signal_def produce_def [abs_def] by (subst lower.simps) simp

lemma lower_node: "lw_ref L e = None \<Longrightarrow> lower L act e = bindE (mapE (lower L act) (children e)) (\<lambda>cs.
    if cs = children e then Inr e else liftB (rebuild e cs))"
  by (subst lower.simps) simp

text \<open>An expression without any reference of the protocol.\<close>

definition free_of :: "(hw_expr \<Rightarrow> signal_key option) \<Rightarrow> hw_expr \<Rightarrow> bool" where
  "free_of ref e \<longleftrightarrow> list_all (\<lambda>x. ref x = None) (walk (\<lambda>_. False) e)"

lemma free_of_simp: "free_of ref e \<longleftrightarrow> ref e = None \<and> (\<forall>c\<in>set (children e). free_of ref c)"
  unfolding free_of_def by (subst walk.simps) (auto simp: list_all_iff simp del: walk_simps)

text \<open>Reads whose operands are not evaluated have no operands: the scalar reading is total on these.\<close>

fun plain_node :: "hw_expr \<Rightarrow> bool" where
  "plain_node (EOther c es t) = (es = [])" | "plain_node _ = True"

definition plain :: "hw_expr \<Rightarrow> bool" where
  "plain e \<longleftrightarrow> list_all plain_node (walk (\<lambda>_. False) e)"

lemma plain_simp: "plain e \<longleftrightarrow> plain_node e \<and> (\<forall>c\<in>set (children e). plain c)"
  unfolding plain_def by (subst walk.simps) (auto simp: list_all_iff simp del: walk_simps)

definition refs_of :: "(hw_expr \<Rightarrow> signal_key option) \<Rightarrow> hw_expr \<Rightarrow> hw_expr set" where
  "refs_of ref e = {x \<in> set (walk (\<lambda>_. False) e). ref x \<noteq> None}"

lemma refs_of_child: "c \<in> set (children e) \<Longrightarrow> refs_of ref c \<subseteq> refs_of ref e"
  unfolding refs_of_def by (subst (2) walk.simps) (auto simp del: walk_simps)

lemma refs_of_self: "ref e \<noteq> None \<Longrightarrow> e \<in> refs_of ref e"
  unfolding refs_of_def by (subst walk.simps) (simp del: walk_simps)

lemma mapE_Inr_all: "mapE f xs = Inr ys \<longleftrightarrow> list_all2 (\<lambda>x y. f x = Inr y) xs ys"
  by (induction xs arbitrary: ys) (auto simp: list_all2_Cons1)

section \<open>Rebuilding a scalar node\<close>

lemma switch_children:
  assumes "length cs = length (children (ESwitch c ks d t))"
  obtains x zs y where "cs = x # zs @ [y]" "length zs = length ks"
  using assms by (cases cs; cases "tl cs" rule: rev_cases) auto

lemma rebuild_switch:
  assumes "typed_scalar (ESwitch c ks d t)" "list_all typed_scalar cs"
    "map type_of cs = map type_of (children (ESwitch c ks d t))" "rebuild (ESwitch c ks d t) cs = Inr e'"
  shows "typed_scalar e' \<and> type_of e' = t \<and>
    (map (den \<sigma>) cs = map (den \<sigma>) (children (ESwitch c ks d t)) \<longrightarrow> den \<sigma> e' = den \<sigma> (ESwitch c ks d t))"
proof -
  have "length cs = length (children (ESwitch c ks d t))" using assms(3) by (metis length_map)
  then obtain x zs y where cs: "cs = x # zs @ [y]" "length zs = length ks" by (rule switch_children)
  have e': "e' = ESwitch x (zip (map fst ks) zs) y t" using assms(4) cs by (auto simp: nth_append zip_append2)
  have ty: "type_of x = type_of c" "map type_of zs = map (type_of \<circ> snd) ks" "type_of y = type_of d"
    using assms(3) cs by auto
  have elem: "(k, z) \<in> set (zip (map fst ks) zs) \<Longrightarrow> typed_scalar z \<and> type_of z = t" for k z
  proof -
    assume "(k, z) \<in> set (zip (map fst ks) zs)"
    then obtain i where i: "i < length zs" "z = zs ! i" by (auto simp: in_set_conv_nth)
    then have "type_of z = type_of (snd (ks ! i))" using ty(2) cs(2) by (metis comp_apply nth_map)
    moreover have "ks ! i \<in> set ks" "z \<in> set cs" using i cs by auto
    ultimately show ?thesis using assms(1,2) by (auto simp: list_all_iff)
  qed
  have "typed_scalar e'" using assms(1,2) e' ty cs elem by (auto simp: list_all_iff)
  moreover have "map (\<lambda>p. (fst p, den \<sigma> (snd p))) (zip (map fst ks) zs) = map (\<lambda>p. (fst p, den \<sigma> (snd p))) ks"
    if "map (den \<sigma>) zs = map (den \<sigma> \<circ> snd) ks"
  proof (rule nth_equalityI)
    fix i assume "i < length (map (\<lambda>p. (fst p, den \<sigma> (snd p))) (zip (map fst ks) zs))"
    then have "i < length ks" using cs by simp
    moreover from this have "den \<sigma> (zs ! i) = den \<sigma> (snd (ks ! i))" using arg_cong [OF that, of "\<lambda>l. l ! i"] cs by simp
    ultimately show "map (\<lambda>p. (fst p, den \<sigma> (snd p))) (zip (map fst ks) zs) ! i = map (\<lambda>p. (fst p, den \<sigma> (snd p))) ks ! i"
      using cs by simp
  qed (use cs in simp)
  ultimately show ?thesis using e' cs by (auto simp: comp_def)
qed

lemma rebuild_scalar:
  assumes "typed_scalar e" "plain_node e" "list_all typed_scalar cs"
    "map type_of cs = map type_of (children e)" "rebuild e cs = Inr e'"
  shows "typed_scalar e' \<and> type_of e' = type_of e \<and>
    (map (den \<sigma>) cs = map (den \<sigma>) (children e) \<longrightarrow> den \<sigma> e' = den \<sigma> e)"
proof -
  have len: "length cs = length (children e)" using assms(4) by (metis length_map)
  consider (switch) c ks d t where "e = ESwitch c ks d t" | (cat) es t where "e = EConcat es t"
    | (leaf) "children e = []" | (one) x where "children e = [x]"
    | (two) x y where "children e = [x, y]" | (mux) c a b t where "e = EMux c a b t"
    using assms(1,2) by (cases e) auto
  then show ?thesis
  proof cases
    case switch
    then show ?thesis using rebuild_switch [of c ks d t cs e' \<sigma>] assms by simp
  next
    case cat
    have w: "map (\<lambda>e. width (type_of e)) cs = map (\<lambda>e. width (type_of e)) es"
      using arg_cong [OF assms(4), of "map width"] cat by (simp add: comp_def)
    have "map (\<lambda>e. (width (type_of e), den \<sigma> e)) cs = map (\<lambda>e. (width (type_of e), den \<sigma> e)) es"
      if "map (den \<sigma>) cs = map (den \<sigma>) es"
      using arg_cong2 [OF w that, of zip] by (simp add: zip_map_map zip_same_conv_map comp_def)
    then show ?thesis using cat assms len w by (auto simp: list_all_iff)
  next
    case leaf
    then have "cs = []" using len by simp
    then show ?thesis using leaf assms by (cases e) auto
  next
    case one
    then obtain z where "cs = [z]" using len by (auto simp: length_Suc_conv)
    then show ?thesis using one assms by (cases e) auto
  next
    case two
    then obtain w z where "cs = [w, z]" using len by (auto simp: length_Suc_conv)
    then show ?thesis using two assms by (cases e) auto
  next
    case mux
    then obtain x y z where "cs = [x, y, z]" using len by (auto simp: length_Suc_conv)
    then show ?thesis using mux assms by auto
  qed
qed

section \<open>What a protocol promises\<close>

text \<open>
  \<open>sig_type\<close> is the type of a signal, \<open>gate\<close> its value given the values of its drivers, and
  \<open>ready\<close> the condition on the configuration under which resolved signals are well typed.
\<close>

text \<open>
  A source expression is scalar when it and its references are typed as the protocol types its
  signals, and an environment is consistent when every reference has the value the protocol
  gives it from the values of its drivers.
\<close>

definition typed_refs :: "lowering \<Rightarrow> (signal_key \<Rightarrow> hwtype) \<Rightarrow> hw_expr \<Rightarrow> bool" where
  "typed_refs L sig_type e \<longleftrightarrow> (\<forall>x\<in>refs_of (lw_ref L) e. type_of x = sig_type (the (lw_ref L x)))"

definition scalar_source :: "lowering \<Rightarrow> (signal_key \<Rightarrow> hwtype) \<Rightarrow> hw_expr \<Rightarrow> bool" where
  "scalar_source L sig_type e \<longleftrightarrow> typed_scalar e \<and> plain e \<and> typed_refs L sig_type e"

definition scalar_drivers :: "lowering \<Rightarrow> (signal_key \<Rightarrow> hwtype) \<Rightarrow> bool" where
  "scalar_drivers L sig_type \<longleftrightarrow>
     list_all (\<lambda>d. scalar_source L sig_type (snd d) \<and> type_of (snd d) = sig_type (fst d)) (lw_producers L)"

definition consistent ::
    "lowering \<Rightarrow> (signal_key \<Rightarrow> hwtype) \<Rightarrow> ((hw_expr \<Rightarrow> int) \<Rightarrow> signal_key \<Rightarrow> int list \<Rightarrow> int) \<Rightarrow> (hw_expr \<Rightarrow> int) \<Rightarrow> bool" where
  "consistent L sig_type gate \<sigma> \<longleftrightarrow> (\<forall>x k r srcs. lw_ref L x = Some k \<longrightarrow> type_of x = sig_type k \<longrightarrow>
     lw_resolve L (fst k) (snd k) = Inr r \<longrightarrow>
     list_all2 (\<lambda>d src. map_of (lw_producers L) d = Some src) (fst r) srcs \<longrightarrow>
     den \<sigma> x = gate \<sigma> k (map (den \<sigma>) srcs))"

lemma scalar_child: "typed_scalar e \<Longrightarrow> plain_node e \<Longrightarrow> c \<in> set (children e) \<Longrightarrow> typed_scalar c"
  by (cases e) auto

lemma scalar_source_child: "scalar_source L T e \<Longrightarrow> c \<in> set (children e) \<Longrightarrow> scalar_source L T c"
  using refs_of_child [of c e "lw_ref L"] scalar_child [of e c] plain_simp [of e]
  by (auto simp: scalar_source_def typed_refs_def)

lemma list_all2_ball:
  "list_all2 P xs ys \<Longrightarrow> \<forall>y\<in>set ys. \<exists>x\<in>set xs. P x y"
  by (auto simp: list_all2_conv_all_nth in_set_conv_nth) (metis nth_mem)

locale endpoint_rules =
  fixes L :: lowering and sig_type :: "signal_key \<Rightarrow> hwtype"
    and gate :: "(hw_expr \<Rightarrow> int) \<Rightarrow> signal_key \<Rightarrow> int list \<Rightarrow> int" and ready :: bool
  assumes ref_leaf: "lw_ref L e = Some k \<Longrightarrow> children e = []"
    and resolve_free: "lw_resolve L n s = Inr r \<Longrightarrow> list_all (free_of (lw_ref L)) xs \<Longrightarrow>
      length xs = length (fst r) \<Longrightarrow> snd r xs = Inr e \<Longrightarrow> free_of (lw_ref L) e"
    and resolve_sound: "ready \<Longrightarrow> lw_resolve L n s = Inr r \<Longrightarrow> flat_scalar (sig_type (n, s)) \<Longrightarrow>
      wf_type (sig_type (n, s)) \<Longrightarrow> list_all typed_scalar xs \<Longrightarrow> map type_of xs = map sig_type (fst r) \<Longrightarrow>
      snd r xs = Inr e \<Longrightarrow>
      typed_scalar e \<and> type_of e = sig_type (n, s) \<and> den \<sigma> e = gate \<sigma> (n, s) (map (den \<sigma>) xs)"
begin

lemma lower_node_cases:
  assumes "lw_ref L e = None" "lower L act e = Inr e'"
  obtains cs where "list_all2 (\<lambda>c c'. lower L act c = Inr c') (children e) cs"
    "cs = children e \<and> e' = e \<or> cs \<noteq> children e \<and> rebuild e cs = Inr e'"
  using assms by (auto simp: lower_node mapE_Inr_all split: if_splits)

lemma lower_ref_cases:
  assumes "lw_ref L e = Some k" "lower L act e = Inr e'"
  obtains r xs where "lw_resolve L (fst k) (snd k) = Inr r"
    "list_all2 (\<lambda>d x. produce L act d = Inr x) (fst r) xs" "snd r xs = Inr e'"
  using assms by (auto simp: lower_ref lower_signal_def mapE_Inr_all)

lemma produce_Inr:
  "produce L act d = Inr x \<longleftrightarrow>
    d \<notin> act \<and> (\<exists>src. map_of (lw_producers L) d = Some src \<and> lower L (insert d act) src = Inr x)"
  by (auto simp: produce_def split: option.splits)

text \<open>Every reference of the protocol is erased.\<close>

lemma lower_free_aux: "L' = L \<Longrightarrow> lower L' act e = Inr e' \<Longrightarrow> free_of (lw_ref L) e'"
proof (induction L' act e arbitrary: e' rule: lower.induct)
  case (1 L' act e)
  show ?case
  proof (cases "lw_ref L e")
    case None
    then obtain cs where cs: "list_all2 (\<lambda>c c'. lower L act c = Inr c') (children e) cs"
      and e': "cs = children e \<and> e' = e \<or> cs \<noteq> children e \<and> rebuild e cs = Inr e'"
      using 1(3,4) lower_node_cases by metis
    have free: "\<forall>c\<in>set cs. free_of (lw_ref L) c"
      using list_all2_ball [OF cs] 1(1) None 1(3) by metis
    from e' show ?thesis
    proof
      assume "cs = children e \<and> e' = e"
      then show ?thesis using free None by (subst free_of_simp) auto
    next
      assume r: "cs \<noteq> children e \<and> rebuild e cs = Inr e'"
      then have ch: "children e' = cs" using children_rebuild [of e cs e'] cs list_all2_lengthD by metis
      have "cs \<noteq> []" using r cs by auto
      then have "lw_ref L e' = None" using ref_leaf [of e'] ch by (cases "lw_ref L e'") auto
      then show ?thesis using free ch by (subst free_of_simp) auto
    qed
  next
    case (Some k)
    then obtain r xs where r: "lw_resolve L (fst k) (snd k) = Inr r"
      and xs: "list_all2 (\<lambda>d x. produce L act d = Inr x) (fst r) xs" and e': "snd r xs = Inr e'"
      using 1(3,4) lower_ref_cases by metis
    have "list_all (free_of (lw_ref L)) xs"
      unfolding list_all_length
    proof (intro allI impI)
      fix i assume i: "i < length xs"
      then have "fst r ! i \<in> set (fst r)" "produce L act (fst r ! i) = Inr (xs ! i)"
        using xs by (auto simp: list_all2_conv_all_nth)
      then show "free_of (lw_ref L) (xs ! i)"
        using 1(2) [of k r "fst r ! i"] 1(3) Some r by (auto simp: produce_Inr)
    qed
    then show ?thesis using resolve_free r e' list_all2_lengthD [OF xs] by metis
  qed
qed

lemma lower_free: "lower L act e = Inr e' \<Longrightarrow> free_of (lw_ref L) e'"
  using lower_free_aux by blast


text \<open>Types are kept in any environment, values in a consistent one.\<close>

lemma lower_sound_aux:
  assumes ready and drivers: "scalar_drivers L sig_type"
  shows "L' = L \<Longrightarrow> lower L' act e = Inr e' \<Longrightarrow> scalar_source L sig_type e \<Longrightarrow>
    typed_scalar e' \<and> type_of e' = type_of e \<and>
      (consistent L sig_type gate \<sigma> \<longrightarrow> den \<sigma> e' = den \<sigma> e)"
proof (induction L' act e arbitrary: e' rule: lower.induct)
  case (1 L' act e)
  show ?case
  proof (cases "lw_ref L e")
    case None
    then obtain cs where cs: "list_all2 (\<lambda>c c'. lower L act c = Inr c') (children e) cs"
      and e': "cs = children e \<and> e' = e \<or> cs \<noteq> children e \<and> rebuild e cs = Inr e'"
      using 1(3,4) lower_node_cases by metis
    have ih: "typed_scalar (cs ! i) \<and> type_of (cs ! i) = type_of (children e ! i) \<and>
        (consistent L sig_type gate \<sigma> \<longrightarrow> den \<sigma> (cs ! i) = den \<sigma> (children e ! i))" if "i < length cs" for i
      using 1(1) [OF _ _ _ _ scalar_source_child [OF 1(5)], of "children e ! i" "cs ! i"] None 1(3) that cs
      by (auto simp: list_all2_conv_all_nth)
    have len: "length cs = length (children e)" using cs list_all2_lengthD by metis
    have "map type_of cs = map type_of (children e)" "list_all typed_scalar cs"
      "consistent L sig_type gate \<sigma> \<Longrightarrow> map (den \<sigma>) cs = map (den \<sigma>) (children e)"
      using ih len by (auto intro!: nth_equalityI simp: list_all_length)
    moreover have "typed_scalar e" "plain_node e" using 1(5) plain_simp [of e] by (auto simp: scalar_source_def)
    ultimately show ?thesis using rebuild_scalar [of e cs e' \<sigma>] e' by auto
  next
    case (Some k)
    then obtain r xs where r: "lw_resolve L (fst k) (snd k) = Inr r"
      and xs: "list_all2 (\<lambda>d x. produce L act d = Inr x) (fst r) xs" and e': "snd r xs = Inr e'"
      using 1(3,4) lower_ref_cases by metis
    have len: "length xs = length (fst r)" using xs list_all2_lengthD by metis
    define srcs where "srcs = map (\<lambda>d. the (map_of (lw_producers L) d)) (fst r)"
    have ih: "map_of (lw_producers L) (fst r ! i) = Some (srcs ! i) \<and> typed_scalar (xs ! i) \<and>
        type_of (xs ! i) = sig_type (fst r ! i) \<and>
        (consistent L sig_type gate \<sigma> \<longrightarrow> den \<sigma> (xs ! i) = den \<sigma> (srcs ! i))" if i: "i < length xs" for i
    proof -
      have "produce L act (fst r ! i) = Inr (xs ! i)" using xs i by (simp add: list_all2_conv_all_nth)
      then obtain src where src: "fst r ! i \<notin> act" "map_of (lw_producers L) (fst r ! i) = Some src"
        "lower L (insert (fst r ! i) act) src = Inr (xs ! i)" by (auto simp: produce_Inr)
      moreover have "scalar_source L sig_type src \<and> type_of src = sig_type (fst r ! i)"
        using drivers map_of_SomeD [OF src(2)] by (auto simp: scalar_drivers_def list_all_iff)
      ultimately show ?thesis using 1(2) [of k r "fst r ! i" src "xs ! i"] 1(3) Some r i len by (simp add: srcs_def)
    qed
    have ty: "type_of e = sig_type k"
      using 1(5) Some refs_of_self [of "lw_ref L" e] by (auto simp: scalar_source_def typed_refs_def)
    have flat: "flat_scalar (sig_type (fst k, snd k))" "wf_type (sig_type (fst k, snd k))"
      using typed_flat [of e] 1(5) ty by (auto simp: scalar_source_def)
    have "list_all typed_scalar xs" "map type_of xs = map sig_type (fst r)"
      "consistent L sig_type gate \<sigma> \<Longrightarrow> map (den \<sigma>) xs = map (den \<sigma>) srcs"
      using ih len by (auto intro!: nth_equalityI simp: list_all_length srcs_def)
    moreover have "list_all2 (\<lambda>d src. map_of (lw_producers L) d = Some src) (fst r) srcs"
      using ih len by (simp add: list_all2_conv_all_nth srcs_def)
    then have "consistent L sig_type gate \<sigma> \<Longrightarrow> den \<sigma> e = gate \<sigma> k (map (den \<sigma>) srcs)"
      unfolding consistent_def using Some ty r by blast
    ultimately show ?thesis using resolve_sound [OF \<open>ready\<close> r flat _ _ e', of \<sigma>] ty by simp
  qed
qed

lemma lower_typed:
  "ready \<Longrightarrow> scalar_drivers L sig_type \<Longrightarrow> lower L act e = Inr e' \<Longrightarrow> scalar_source L sig_type e \<Longrightarrow>
    typed_scalar e' \<and> type_of e' = type_of e"
  using lower_sound_aux [OF _ _ refl] by blast

lemma lower_sound:
  "ready \<Longrightarrow> scalar_drivers L sig_type \<Longrightarrow> consistent L sig_type gate \<sigma> \<Longrightarrow> lower L act e = Inr e' \<Longrightarrow>
    scalar_source L sig_type e \<Longrightarrow> typed_scalar e' \<and> type_of e' = type_of e \<and> den \<sigma> e' = den \<sigma> e"
  using lower_sound_aux [OF _ _ refl] by blast

end

section \<open>The retained parts of a module\<close>

definition lower_assignment :: "lowering \<Rightarrow> assignment \<Rightarrow> proto_error + assignment" where
  "lower_assignment L a = bindE (lower L {} (as_expression a)) (\<lambda>e. Inr (a\<lparr>as_expression := e\<rparr>))"

definition drives_wire :: "assignment \<Rightarrow> bool" where
  "drives_wire a = (case as_target a of ToPort p \<Rightarrow> pt_protocol p = Wire | ToInterface n \<Rightarrow> True)"

definition retained_wire_assignments :: "lowering \<Rightarrow> module \<Rightarrow> proto_error + assignment list" where
  "retained_wire_assignments L m = mapE (lower_assignment L) (filter drives_wire (md_assignments m))"

definition lower_register :: "lowering \<Rightarrow> register \<Rightarrow> proto_error + register" where
  "lower_register L r = (case rg_initial r of
       None \<Rightarrow> Inr r | Some e \<Rightarrow> bindE (lower L {} e) (\<lambda>e'. Inr (r\<lparr>rg_initial := Some e'\<rparr>)))"

definition lower_next :: "lowering \<Rightarrow> next_assignment \<Rightarrow> proto_error + next_assignment" where
  "lower_next L na = bindE (lower_register L (na_target na)) (\<lambda>r.
     bindE (lower L {} (na_expression na)) (\<lambda>e.
     bindE (case na_activation na of None \<Rightarrow> Inr None
         | Some a \<Rightarrow> bindE (lower L {} a) (\<lambda>a'. Inr (Some a'))) (mk_next r e)))"

definition lower_requirement :: "lowering \<Rightarrow> requirement \<Rightarrow> proto_error + requirement" where
  "lower_requirement L q = bindE (lower L {} (rq_expression q)) (\<lambda>e.
     mk_requirement (rq_id q) (rq_name q) e)"

definition lower_goal :: "lowering \<Rightarrow> goal \<Rightarrow> proto_error + goal" where
  "lower_goal L g = bindE (lower L {} (gl_expression g)) (\<lambda>e.
     mk_goal (gl_id g) (gl_scope g) (gl_kind g) (gl_name g) e)"

definition lower_scope :: "lowering \<Rightarrow> scope \<Rightarrow> proto_error + scope" where
  "lower_scope L s = bindE (mapE (lower_requirement L) (sc_requirements s)) (\<lambda>rqs.
     bindE (mapE (lower_goal L) (sc_goals s)) (\<lambda>gs.
     mk_scope (sc_id s) (sc_name s) (sc_clock s) (sc_reset s) rqs gs))"

definition lower_retained :: "lowering \<Rightarrow> string \<times> hw_expr list \<Rightarrow> proto_error + (string \<times> hw_expr list)" where
  "lower_retained L f = bindE (mapE (lower L {}) (snd f)) (\<lambda>es. Inr (fst f, es))"

text \<open>
  \<^verbatim>\<open>_finalize_protocol_module\<close>: the new ports and assignments, the rewritten fields, and no
  connections.
\<close>

definition finalize_module ::
    "lowering \<Rightarrow> module \<Rightarrow> port list \<Rightarrow> assignment list \<Rightarrow> register list \<Rightarrow> next_assignment list \<Rightarrow> scope list \<Rightarrow>
      proto_error + module" where
  "finalize_module L m ps as regs nas scs = bindE (mapE (lower_retained L) (md_retained m)) (\<lambda>fs.
     Inr (m\<lparr>md_ports := ps, md_assignments := as, md_registers := regs, md_next := nas, md_scopes := scs,
       md_linked := False, md_retained := fs\<rparr>))"

end
