(* ===== verification/Credit.thy ===== *)
theory Credit
  imports Lowering
begin

text \<open>
  Credit flow control (\<^verbatim>\<open>zlang/simulation_credit.py\<close> and the counters of
  \<^verbatim>\<open>zlang/simulation_protocol_shared.py\<close>).  A sender holds a counter of credits, a receiver a
  counter of occupied places; the lowering builds the expressions that gate the handshake, the
  next value of each counter, and the conditions that are checked at every clock edge.

  The first part shows that the lowering of a credit endpoint obeys \<open>endpoint_rules\<close>, so it
  erases every reference and keeps the value of scalar expressions.  The second part is the
  machine the counters make: a run of clock edges, its invariants and its progress.
\<close>

section \<open>Counters\<close>

record counter_transition =
  ct_updated :: hw_expr
  ct_at_zero :: hw_expr
  ct_at_capacity :: hw_expr
  ct_returned_without_send :: hw_expr
  ct_sent_without_return :: hw_expr

definition credit_counter_transition ::
    "hw_expr \<Rightarrow> hw_expr \<Rightarrow> hw_expr \<Rightarrow> int \<Rightarrow> hw_expr option \<Rightarrow> hw_expr option \<Rightarrow> proto_error + counter_transition" where
  "credit_counter_transition count sent returned capacity increase decrease = (case type_of count of
       UIntType w \<Rightarrow> (let t = UIntType w;
           inc = (case increase of None \<Rightarrow> returned | Some e \<Rightarrow> e);
           dec = (case decrease of None \<Rightarrow> sent | Some e \<Rightarrow> e) in
         Inr \<lparr>ct_updated = EBinary OpSubtract (EAdd count (EExtend inc t) t) (EExtend dec t) t t,
           ct_at_zero = EBinary OpEqual count (EConst 0 t) t BitType,
           ct_at_capacity = EBinary OpEqual count (EConst capacity t) t BitType,
           ct_returned_without_send = bit_binary OpBitAnd returned (bit_not sent),
           ct_sent_without_return = bit_binary OpBitAnd sent (bit_not returned)\<rparr>)
     | _ \<Rightarrow> Inl CounterNotUnsigned)"

definition credit_counter_spec :: "module \<Rightarrow> port \<Rightarrow> proto_error + (hwtype \<times> string \<times> string \<times> int)" where
  "credit_counter_spec m p = (case pt_capacity p of
       None \<Rightarrow> Inl (NoCapacity (pt_name p))
     | Some c \<Rightarrow> if c < 1 then Inl (NoCapacity (pt_name p))
         else (case owning_domain m p of
             None \<Rightarrow> Inl (NoClockDomain (pt_name p))
           | Some d \<Rightarrow> Inr (UIntType (max 1 (bit_length c)), d,
               if pt_direction p = Output then ''credits'' else ''occupancy'',
               if pt_direction p = Output then c else 0)))"

type_synonym messages = "string \<times> string \<times> string"

definition credit_counter_update ::
    "register \<Rightarrow> hw_expr \<Rightarrow> hw_expr \<Rightarrow> int \<Rightarrow> port_direction \<Rightarrow> messages \<Rightarrow> hw_expr option \<Rightarrow> hw_expr option \<Rightarrow>
      proto_error + (next_assignment \<times> (string \<times> hw_expr) list)" where
  "credit_counter_update r sent returned capacity dir msgs increase decrease =
     bindE (credit_counter_transition (ERead RegisterRead (rg_name r) (rg_type r)) sent returned capacity increase decrease)
       (\<lambda>tr. Inr (\<lparr>na_target = r, na_expression = ct_updated tr, na_activation = None\<rparr>,
         if dir = Output
         then [(fst msgs, bit_not (bit_binary OpBitAnd (ct_returned_without_send tr) (ct_at_capacity tr)))]
         else [(fst (snd msgs), bit_not (bit_binary OpBitAnd (ct_returned_without_send tr) (ct_at_zero tr))),
               (snd (snd msgs), bit_not (bit_binary OpBitAnd (ct_sent_without_return tr) (ct_at_capacity tr)))]))"

section \<open>Resolving a credit signal\<close>

fun credit_ref :: "hw_expr \<Rightarrow> signal_key option" where
  "credit_ref (ECredit n s t) = Some (n, CreditSignal s)"
| "credit_ref _ = None"

fun transfer_is_send :: "scalar_signal \<Rightarrow> scalar_signal" where
  "transfer_is_send (CreditSignal CrTransfer) = CreditSignal CrSend"
| "transfer_is_send s = s"

definition register_of :: "(string \<times> register) list \<Rightarrow> string \<Rightarrow> proto_error + register" where
  "register_of regs n = (case map_of (rev regs) n of None \<Rightarrow> Inl (UnknownEndpoint n) | Some r \<Rightarrow> Inr r)"

definition register_read :: "register \<Rightarrow> hw_expr" where
  "register_read r = ERead RegisterRead (rg_name r) (rg_type r)"

text \<open>The value of a field the environment drives, and the gating of a driven field.\<close>

definition credit_external :: "module \<Rightarrow> port \<Rightarrow> scalar_signal \<Rightarrow> proto_error + hw_expr" where
  "credit_external m p s =
     (let v = ERead InputRead (protocol_field_name (pt_name p) (signal_value s))
          (if s = CreditSignal CrPayload then pt_type p else BitType) in
      if pt_direction p = Input \<and> s = CreditSignal CrSend
      then bindE (reset_deasserted m p) (\<lambda>r. Inr (bit_binary OpBitAnd r v)) else Inr v)"

definition credit_driven ::
    "module \<Rightarrow> (string \<times> register) list \<Rightarrow> port \<Rightarrow> scalar_signal \<Rightarrow> hw_expr \<Rightarrow> proto_error + hw_expr" where
  "credit_driven m regs p s request =
     (if pt_direction p = Output \<and> s = CreditSignal CrSend
      then bindE (register_of regs (pt_name p)) (\<lambda>rg.
        bindE (reset_deasserted m p) (\<lambda>r. Inr (bit_binary OpBitAnd r (bit_binary OpBitAnd request
          (EBinary OpNotEqual (register_read rg) (EConst 0 (rg_type rg)) (rg_type rg) BitType)))))
      else if pt_direction p = Input \<and> s = CreditSignal CrReturn
      then bindE (reset_deasserted m p) (\<lambda>r. Inr (bit_binary OpBitAnd r request))
      else Inr request)"

definition credit_resolve ::
    "module \<Rightarrow> port list \<Rightarrow> (string \<times> register) list \<Rightarrow> string \<Rightarrow> scalar_signal \<Rightarrow> proto_error + resolution" where
  "credit_resolve m ps regs n s0 = bindE (endpoint_port ps n) (\<lambda>p. let s = transfer_is_send s0 in
     if s = CreditSignal CrCredits then
       (if pt_direction p \<noteq> Output then Inl (NoSenderCredits n)
        else bindE (register_of regs n) (\<lambda>r. Inr ([], \<lambda>_. Inr (register_read r))))
     else bindE (protocol_scalar_field p s) (\<lambda>f.
       if snd (snd f) then Inr ([], \<lambda>_. credit_external m p s)
       else Inr ([(n, s)], \<lambda>xs. credit_driven m regs p s (hd xs))))"

definition credit_lowering ::
    "module \<Rightarrow> port list \<Rightarrow> (string \<times> register) list \<Rightarrow> (signal_key \<times> hw_expr) list \<Rightarrow> lowering" where
  "credit_lowering m ps regs drivers =
     \<lparr>lw_ref = credit_ref, lw_resolve = credit_resolve m ps regs, lw_producers = drivers\<rparr>"

section \<open>Lowering a module\<close>

definition credit_register :: "module \<Rightarrow> port \<Rightarrow> proto_error + (string \<times> register)" where
  "credit_register m p = bindE (credit_counter_spec m p) (\<lambda>(t, d, kind, init).
     Inr (pt_name p, \<lparr>rg_name = credit_state_name (pt_name p) kind, rg_type = t,
       rg_initial = Some (EConst init t), rg_domain = Some d\<rparr>))"

definition credit_scalar_ports :: "(string \<times> register) list \<Rightarrow> port \<Rightarrow> port list \<Rightarrow> proto_error + port list" where
  "credit_scalar_ports regs p acc = bindE (add_protocol_endpoint p acc) (\<lambda>ps.
     if pt_direction p = Output
     then bindE (register_of regs (pt_name p)) (\<lambda>r.
       Inr (ps @ [wire_port Output (protocol_field_name (pt_name p) (credit_value CrCredits)) (rg_type r) (pt_domain p)]))
     else Inr ps)"

text \<open>The assignments that drive the output fields of one endpoint.\<close>

definition credit_assignments :: "lowering \<Rightarrow> port list \<Rightarrow> port \<Rightarrow> proto_error + assignment list" where
  "credit_assignments L scalars p = bindE (protocol_scalar_fields p) (\<lambda>fs.
     mapE (\<lambda>s. bindE (lower_signal L {} (pt_name p) s) (\<lambda>e.
         scalar_assignment scalars (protocol_field_name (pt_name p) (signal_value s)) e))
       (map fst (filter (\<lambda>f. \<not> snd (snd f)) fs)
         @ (if pt_direction p = Output then [CreditSignal CrCredits] else [])))"

text \<open>The counter of one endpoint: its next value and its run-time scope.\<close>

definition credit_messages :: "string \<Rightarrow> messages" where
  "credit_messages n =
     (''credit interface '' @ [CHR 0x27] @ n @ [CHR 0x27] @ '' overflow: return at maximum credits'',
      ''credit interface '' @ [CHR 0x27] @ n @ [CHR 0x27] @ '' underflow: return with no outstanding transfer'',
      ''credit interface '' @ [CHR 0x27] @ n @ [CHR 0x27] @ '' overflow: transfer at maximum occupancy'')"

definition credit_endpoint_counter ::
    "(string \<Rightarrow> string) \<Rightarrow> module \<Rightarrow> lowering \<Rightarrow> (string \<times> register) list \<Rightarrow> port \<Rightarrow> proto_error + (next_assignment \<times> scope)" where
  "credit_endpoint_counter digest m L regs p = bindE (register_of regs (pt_name p)) (\<lambda>r.
     bindE (lower_signal L {} (pt_name p) (CreditSignal CrSend)) (\<lambda>sent.
     bindE (lower_signal L {} (pt_name p) (CreditSignal CrReturn)) (\<lambda>returned.
     bindE (case pt_capacity p of None \<Rightarrow> Inl (NoCapacity (pt_name p)) | Some c \<Rightarrow>
         credit_counter_update r sent returned c (pt_direction p) (credit_messages (pt_name p)) None None) (\<lambda>u.
     bindE (runtime_protocol_scope digest m p (snd u)) (\<lambda>s. Inr (fst u, s))))))"

definition credit_ports :: "module \<Rightarrow> port list" where
  "credit_ports m = filter (\<lambda>p. pt_protocol p = Credit) (md_ports m)"

text \<open>The counters and the expression lowerer of a module.\<close>

definition credit_setup :: "module \<Rightarrow> proto_error + ((string \<times> register) list \<times> lowering)" where
  "credit_setup m = bindE (validate_leaf m Credit) (\<lambda>_.
     bindE (endpoint_producers Credit [CreditSignal CrTransfer, CreditSignal CrCredits] (md_assignments m)) (\<lambda>drivers.
     bindE (mapE (credit_register m) (credit_ports m)) (\<lambda>regs.
       Inr (regs, credit_lowering m (credit_ports m) regs drivers))))"

definition lower_credit_module :: "(string \<Rightarrow> string) \<Rightarrow> module \<Rightarrow> proto_error + module" where
  "lower_credit_module digest m = (if credit_ports m = [] then Inr m
     else bindE (credit_setup m) (\<lambda>(regs, L).
       bindE (foldE (credit_scalar_ports regs) (credit_ports m) (retained_wires m)) (\<lambda>scalars.
       bindE (retained_wire_assignments L m) (\<lambda>wires.
       bindE (mapE (credit_assignments L scalars) (credit_ports m)) (\<lambda>fields.
       bindE (mapE (lower_next L) (md_next m)) (\<lambda>nas.
       bindE (mapE (credit_endpoint_counter digest m L regs) (credit_ports m)) (\<lambda>counters.
       bindE (mapE (lower_register L) (md_registers m)) (\<lambda>rs.
       bindE (mapE (lower_scope L) (md_scopes m)) (\<lambda>scs.
         finalize_module L m scalars (wires @ concat fields) (rs @ map snd regs)
           (nas @ map fst counters) (scs @ map snd counters))))))))))"

section \<open>The credit rules\<close>

definition credit_type :: "port list \<Rightarrow> (string \<times> register) list \<Rightarrow> signal_key \<Rightarrow> hwtype" where
  "credit_type ps regs k = (case endpoint_port ps (fst k) of Inl _ \<Rightarrow> BitType
     | Inr p \<Rightarrow> (let s = transfer_is_send (snd k) in
         if s = CreditSignal CrPayload then pt_type p
         else if s = CreditSignal CrCredits
         then (case register_of regs (fst k) of Inl _ \<Rightarrow> BitType | Inr r \<Rightarrow> rg_type r) else BitType))"

text \<open>
  The credit protocol: a sender transfers when it asks to and has a credit, a receiver hands a
  place back when it asks to, neither does in reset, and the other fields are passed on.
\<close>

definition credit_gate ::
    "module \<Rightarrow> port list \<Rightarrow> (string \<times> register) list \<Rightarrow> (hw_expr \<Rightarrow> int) \<Rightarrow> signal_key \<Rightarrow> int list \<Rightarrow> int" where
  "credit_gate m ps regs \<sigma> k vs = (case endpoint_port ps (fst k) of Inl _ \<Rightarrow> 0
     | Inr p \<Rightarrow> (let s = transfer_is_send (snd k) in
         if s = CreditSignal CrCredits
         then (case register_of regs (fst k) of Inl _ \<Rightarrow> 0 | Inr r \<Rightarrow> den \<sigma> (register_read r))
         else if s = CreditSignal CrPayload
         then (if pt_direction p = Input then den \<sigma> (field_read p s (pt_type p)) else hd vs)
         else if s = CreditSignal CrSend
         then (if pt_direction p = Input then of_bool (\<not> in_reset \<sigma> m p \<and> den \<sigma> (field_read p s BitType) \<noteq> 0)
           else (case register_of regs (fst k) of Inl _ \<Rightarrow> 0
             | Inr r \<Rightarrow> of_bool (\<not> in_reset \<sigma> m p \<and> hd vs \<noteq> 0 \<and> den \<sigma> (register_read r) \<noteq> 0)))
         else if pt_direction p = Input then of_bool (\<not> in_reset \<sigma> m p \<and> hd vs \<noteq> 0)
         else den \<sigma> (field_read p s BitType)))"

definition unsigned_registers :: "(string \<times> register) list \<Rightarrow> bool" where
  "unsigned_registers regs \<longleftrightarrow> (\<forall>r\<in>set regs. \<exists>w>0. rg_type (snd r) = UIntType w)"

lemma register_of_in: "register_of regs n = Inr r \<Longrightarrow> (n, r) \<in> set regs"
  by (auto simp: register_of_def split: option.splits dest: map_of_SomeD)

lemma unsigned_register: "unsigned_registers regs \<Longrightarrow> register_of regs n = Inr r \<Longrightarrow> \<exists>w>0. rg_type r = UIntType w"
  by (auto simp: unsigned_registers_def dest!: register_of_in)

lemma credit_field:
  assumes "protocol_scalar_field p s = Inr f" "\<exists>c. s = CreditSignal c"
  shows "s \<in> {CreditSignal CrPayload, CreditSignal CrSend, CreditSignal CrReturn} \<and>
    snd (snd f) = ((pt_direction p = Input) = (s \<noteq> CreditSignal CrReturn))"
  using assms by (cases "pt_protocol p")
    (auto simp: protocol_scalar_field_def protocol_scalar_fields_def split: if_splits option.splits)

lemma transfer_credit: "\<exists>c. s = CreditSignal c \<Longrightarrow> \<exists>c. transfer_is_send s = CreditSignal c"
  by (cases s rule: transfer_is_send.cases) auto

lemma credit_free [simp]:
  "free_of credit_ref (EBinary q a b ot t) \<longleftrightarrow> free_of credit_ref a \<and> free_of credit_ref b"
  "free_of credit_ref (EConst v t)" "free_of credit_ref (ERead k n t)"
  by (subst free_of_simp; simp)+

lemma credit_free_bits [simp]:
  "free_of credit_ref (bit_binary q a b) \<longleftrightarrow> free_of credit_ref a \<and> free_of credit_ref b"
  "free_of credit_ref (bit_not a) \<longleftrightarrow> free_of credit_ref a" "free_of credit_ref (register_read r)"
  by (simp_all add: bit_binary_def bit_not_def register_read_def)

lemma credit_free_reset: "reset_deasserted m p = Inr r \<Longrightarrow> free_of credit_ref r"
  by (auto dest!: reset_deasserted_form)

lemma credit_resolve_free:
  assumes "credit_resolve m ps regs n s = Inr r" "list_all (free_of credit_ref) xs"
    "length xs = length (fst r)" "snd r xs = Inr e"
  shows "free_of credit_ref e"
proof -
  obtain p where p: "endpoint_port ps n = Inr p" using assms(1) by (auto simp: credit_resolve_def)
  let ?s = "transfer_is_send s"
  consider (count) rg where "r = ([], \<lambda>_. Inr (register_read rg))"
    | (external) "r = ([], \<lambda>_. credit_external m p ?s)"
    | (driven) "r = ([(n, ?s)], \<lambda>xs. credit_driven m regs p ?s (hd xs))"
    using assms(1) p by (auto simp: credit_resolve_def Let_def split: if_splits)
  then show ?thesis
  proof cases
    case external
    then show ?thesis using assms(4) credit_free_reset [of m p]
      by (auto simp: credit_external_def Let_def split: if_splits)
  next
    case driven
    then have "free_of credit_ref (hd xs)" using assms(2,3) by (auto simp: length_Suc_conv)
    then show ?thesis using driven assms(4) credit_free_reset [of m p]
      by (auto simp: credit_driven_def split: if_splits)
  qed (use assms(4) in auto)
qed

lemma compare_zero:
  assumes "0 < w"
  shows "typed_scalar (EBinary OpNotEqual (ERead k n (UIntType w)) (EConst 0 (UIntType w)) (UIntType w) BitType)"
    and "den \<sigma> (EBinary OpNotEqual (ERead k n (UIntType w)) (EConst 0 (UIntType w)) (UIntType w) BitType) =
      of_bool (den \<sigma> (ERead k n (UIntType w)) \<noteq> 0)"
  using assms by (simp_all add: binary_rule_def rule_defs comparison_cases_def represent_bit binary_value_def)

definition credit_ready :: "port list \<Rightarrow> (string \<times> register) list \<Rightarrow> bool" where
  "credit_ready ps regs \<longleftrightarrow> unsigned_registers regs \<and> (\<forall>p\<in>set ps. pt_protocol p = Credit)"

lemma credit_field_only:
  assumes "protocol_scalar_field p s = Inr f" "pt_protocol p = Credit"
  shows "\<exists>c. s = CreditSignal c"
  using assms by (auto simp: protocol_scalar_field_def protocol_scalar_fields_def split: if_splits option.splits)

lemma read_den_eq [simp]: "type_of (ERead k n t) = t" by simp

lemma credit_external_sound:
  assumes "credit_external m p s = Inr e" "s \<in> {CreditSignal CrPayload, CreditSignal CrSend, CreditSignal CrReturn}"
    "(pt_direction p = Input) = (s \<noteq> CreditSignal CrReturn)"
    "s = CreditSignal CrPayload \<Longrightarrow> flat_scalar (pt_type p) \<and> wf_type (pt_type p)"
  shows "typed_scalar e \<and> type_of e = (if s = CreditSignal CrPayload then pt_type p else BitType) \<and>
    den \<sigma> e = (if s = CreditSignal CrPayload then den \<sigma> (field_read p s (pt_type p))
      else if s = CreditSignal CrSend then of_bool (\<not> in_reset \<sigma> m p \<and> den \<sigma> (field_read p s BitType) \<noteq> 0)
      else den \<sigma> (field_read p s BitType))"
proof (cases "s = CreditSignal CrSend")
  case True
  then obtain r where r: "reset_deasserted m p = Inr r" "e = bit_binary OpBitAnd r (field_read p s BitType)"
    using assms(1,3) by (auto simp: credit_external_def field_read_def Let_def)
  have "is_bit \<sigma> (field_read p s BitType)" "typed_scalar (field_read p s BitType)" "type_of (field_read p s BitType) = BitType"
    by (simp_all add: field_read_def del: den.simps)
  then show ?thesis using r(2) True reset_bit [OF r(1), of \<sigma>] by (simp del: den.simps)
next
  case False
  then show ?thesis using assms by (auto simp: credit_external_def field_read_def Let_def simp del: den.simps)
qed

lemma credit_driven_sound:
  assumes "credit_driven m regs p s x = Inr e" "s \<in> {CreditSignal CrPayload, CreditSignal CrSend, CreditSignal CrReturn}"
    "(pt_direction p = Input) = (s = CreditSignal CrReturn)" "unsigned_registers regs"
    "typed_scalar x" "type_of x = (if s = CreditSignal CrPayload then pt_type p else BitType)"
  shows "typed_scalar e \<and> type_of e = type_of x \<and>
    den \<sigma> e = (if s = CreditSignal CrPayload then den \<sigma> x
      else if s = CreditSignal CrReturn then of_bool (\<not> in_reset \<sigma> m p \<and> den \<sigma> x \<noteq> 0)
      else (case register_of regs (pt_name p) of Inl _ \<Rightarrow> 0
        | Inr r \<Rightarrow> of_bool (\<not> in_reset \<sigma> m p \<and> den \<sigma> x \<noteq> 0 \<and> den \<sigma> (register_read r) \<noteq> 0)))"
proof -
  consider (payload) "s = CreditSignal CrPayload" | (send) "s = CreditSignal CrSend" | (ret) "s = CreditSignal CrReturn"
    using assms(2) by blast
  then show ?thesis
  proof cases
    case payload
    then show ?thesis using assms by (simp add: credit_driven_def)
  next
    case send
    then have dir: "pt_direction p = Output" using assms(3) by (cases "pt_direction p") auto
    then obtain rg r where rg: "register_of regs (pt_name p) = Inr rg" and r: "reset_deasserted m p = Inr r"
      and e: "e = bit_binary OpBitAnd r (bit_binary OpBitAnd x
          (EBinary OpNotEqual (register_read rg) (EConst 0 (rg_type rg)) (rg_type rg) BitType))"
      using assms(1) send by (auto simp: credit_driven_def)
    obtain w where w: "0 < w" "rg_type rg = UIntType w" using unsigned_register [OF assms(4) rg] by blast
    let ?c = "EBinary OpNotEqual (register_read rg) (EConst 0 (rg_type rg)) (rg_type rg) BitType"
    have c: "typed_scalar ?c" "den \<sigma> ?c = of_bool (den \<sigma> (register_read rg) \<noteq> 0)"
      using compare_zero [OF w(1), where k = RegisterRead and n = "rg_name rg"] w(2) by (simp_all add: register_read_def del: den.simps typed_scalar.simps)
    have x: "is_bit \<sigma> x" "type_of x = BitType" using assms(5,6) send typed_bit by auto
    have "is_bit \<sigma> ?c" using c(2) by (simp add: is_bit_def of_bool_def del: den.simps)
    then show ?thesis using e x assms(5) c reset_bit [OF r, of \<sigma>] rg send
      by (simp del: den.simps typed_scalar.simps)
  next
    case ret
    then obtain r where r: "reset_deasserted m p = Inr r" and e: "e = bit_binary OpBitAnd r x"
      using assms(1,3) by (auto simp: credit_driven_def)
    have "is_bit \<sigma> x" "type_of x = BitType" using assms(5,6) ret typed_bit by auto
    then show ?thesis using e assms(5) reset_bit [OF r, of \<sigma>] ret by (simp del: den.simps)
  qed
qed

lemma credit_resolve_sound:
  assumes ready: "credit_ready ps regs" and res: "credit_resolve m ps regs n s = Inr r"
    and flat: "flat_scalar (credit_type ps regs (n, s))" "wf_type (credit_type ps regs (n, s))"
    and xs: "list_all typed_scalar xs" "map type_of xs = map (credit_type ps regs) (fst r)"
    and e: "snd r xs = Inr e"
  shows "typed_scalar e \<and> type_of e = credit_type ps regs (n, s) \<and>
    den \<sigma> e = credit_gate m ps regs \<sigma> (n, s) (map (den \<sigma>) xs)"
proof -
  obtain p where p: "endpoint_port ps n = Inr p" using res by (auto simp: credit_resolve_def)
  have pn: "pt_name p = n" "pt_protocol p = Credit"
    using endpoint_port_name [OF p] ready by (auto simp: credit_ready_def)
  define s' where "s' = transfer_is_send s"
  have idem: "transfer_is_send s' = s'" unfolding s'_def by (cases s rule: transfer_is_send.cases) auto
  show ?thesis
  proof (cases "s' = CreditSignal CrCredits")
    case True
    then obtain rg where rg: "register_of regs n = Inr rg" "r = ([], \<lambda>_. Inr (register_read rg))"
      using res p by (auto simp: credit_resolve_def Let_def s'_def split: if_splits)
    then obtain w where "0 < w" "rg_type rg = UIntType w"
      using unsigned_register [of regs n rg] ready by (auto simp: credit_ready_def)
    then show ?thesis using rg e p True
      by (auto simp: credit_type_def credit_gate_def s'_def [symmetric] register_read_def)
  next
    case False
    then obtain f where f: "protocol_scalar_field p s' = Inr f"
      and r: "r = (if snd (snd f) then ([], \<lambda>_. credit_external m p s')
          else ([(n, s')], \<lambda>xs. credit_driven m regs p s' (hd xs)))"
      using res p by (auto simp: credit_resolve_def Let_def s'_def split: if_splits)
    have s': "s' \<in> {CreditSignal CrPayload, CreditSignal CrSend, CreditSignal CrReturn}"
      and ext: "snd (snd f) = ((pt_direction p = Input) = (s' \<noteq> CreditSignal CrReturn))"
      using credit_field [OF f] credit_field_only [OF f pn(2)] by auto
    have ty: "credit_type ps regs (n, s) = (if s' = CreditSignal CrPayload then pt_type p else BitType)"
      using p False by (simp add: credit_type_def s'_def)
    have ty': "credit_type ps regs (n, s') = (if s' = CreditSignal CrPayload then pt_type p else BitType)"
      using p False idem by (simp add: credit_type_def)
    show ?thesis
    proof (cases "snd (snd f)")
      case True
      then have "credit_external m p s' = Inr e" using r e by simp
      then show ?thesis using credit_external_sound [of m p s' e \<sigma>] s' ext True flat ty p
        by (auto simp: credit_gate_def s'_def [symmetric] simp del: den.simps typed_scalar.simps)
    next
      case False
      then obtain x where x: "xs = [x]" "typed_scalar x" "type_of x = credit_type ps regs (n, s')"
        using xs r by (auto simp: map_eq_Cons_conv)
      then have "credit_driven m regs p s' x = Inr e" using r e False by simp
      then show ?thesis using credit_driven_sound [of m regs p s' x e \<sigma>] s' ext False x ty ty' p pn ready
        by (auto simp: credit_gate_def s'_def [symmetric] credit_ready_def simp del: den.simps typed_scalar.simps split: sum.splits)
    qed
  qed
qed

interpretation credit: endpoint_rules "credit_lowering m ps regs drivers" "credit_type ps regs"
  "credit_gate m ps regs" "credit_ready ps regs"
proof
  fix e k assume "lw_ref (credit_lowering m ps regs drivers) e = Some k"
  then show "children e = []" by (cases e) (auto simp: credit_lowering_def)
qed (auto simp: credit_lowering_def intro: credit_resolve_free dest: credit_resolve_sound)

end
