(* ===== verification/Clocking.thy ===== *)
theory Clocking
  imports Lowering
begin

text \<open>
  Clock edges of a lowered module, as \<^verbatim>\<open>zlang/simulation_edge_lowering.py\<close> builds them
  (\<^verbatim>\<open>EdgeProgramFinalizer\<close>): at an edge of a clock every goal of the clock's scopes other than a
  cover must hold, unless its reset is active or a requirement of its scope fails; then every register of the clock takes the value of its next-state
  expression, or its initial value in reset.  Expressions are read before the edge.  Domains
  with a synchronised reset release, which add one internal counter, are not modelled.
\<close>

section \<open>Edges\<close>

type_synonym valuation = "string \<Rightarrow> int"

fun wire_env :: "valuation \<Rightarrow> valuation \<Rightarrow> hw_expr \<Rightarrow> int" where
  "wire_env ins regs (ERead InputRead n t) = ins n"
| "wire_env ins regs (ERead RegisterRead n t) = regs n"
| "wire_env ins regs e = 0"

definition reset_active :: "module \<Rightarrow> valuation \<Rightarrow> string \<Rightarrow> bool" where
  "reset_active m ins d = (case clock_reset m d of None \<Rightarrow> False
     | Some r \<Rightarrow> den (wire_env ins (\<lambda>_. 0)) (ERead InputRead (''$reset:'' @ r) BitType) \<noteq> 0)"

definition register_domain :: "module \<Rightarrow> register \<Rightarrow> string option" where
  "register_domain m r = (case rg_domain r of None \<Rightarrow> md_clock m | Some d \<Rightarrow> Some d)"

definition initial_of :: "register \<Rightarrow> int option" where
  "initial_of r = map_option (den (\<lambda>_. 0)) (rg_initial r)"

definition active_now :: "valuation \<Rightarrow> valuation \<Rightarrow> next_assignment \<Rightarrow> bool" where
  "active_now ins regs na = (case na_activation na of None \<Rightarrow> True | Some a \<Rightarrow> den (wire_env ins regs) a \<noteq> 0)"

text \<open>The assignments of a clock are applied in order, each to the value the former ones left.\<close>

definition assigns :: "module \<Rightarrow> string \<Rightarrow> string \<Rightarrow> next_assignment \<Rightarrow> bool" where
  "assigns m d n na \<longleftrightarrow> rg_name (na_target na) = n \<and> register_domain m (na_target na) = Some d"

definition next_value :: "module \<Rightarrow> string \<Rightarrow> valuation \<Rightarrow> valuation \<Rightarrow> string \<Rightarrow> int" where
  "next_value m d ins regs n = foldl (\<lambda>old na. if assigns m d n na \<and> active_now ins regs na
     then den (wire_env ins regs) (na_expression na) else old) (regs n) (md_next m)"

definition commit_register :: "module \<Rightarrow> string \<Rightarrow> valuation \<Rightarrow> valuation \<Rightarrow> register \<Rightarrow> int" where
  "commit_register m d ins regs r = (if reset_active m ins d
     then (case initial_of r of None \<Rightarrow> next_value m d ins regs (rg_name r) | Some i \<Rightarrow> i)
     else next_value m d ins regs (rg_name r))"

definition register_named :: "module \<Rightarrow> string \<Rightarrow> string \<Rightarrow> register option" where
  "register_named m d n = List.find (\<lambda>r. rg_name r = n \<and> register_domain m r = Some d) (md_registers m)"

definition after_edge :: "module \<Rightarrow> string \<Rightarrow> valuation \<Rightarrow> valuation \<Rightarrow> valuation" where
  "after_edge m d ins regs n = (case register_named m d n of
     None \<Rightarrow> regs n | Some r \<Rightarrow> commit_register m d ins regs r)"

text \<open>
  The conditions of the probes of one scope: a check holds in reset, when a requirement of the
  scope does not hold, or when its condition does; cover goals never fail.
\<close>

definition scope_active :: "module \<Rightarrow> string \<Rightarrow> valuation \<Rightarrow> valuation \<Rightarrow> scope \<Rightarrow> bool" where
  "scope_active m d ins regs s \<longleftrightarrow> \<not> reset_active m ins d \<and>
     list_all (\<lambda>q. den (wire_env ins regs) (rq_expression q) \<noteq> 0) (sc_requirements s)"

definition goal_holds :: "module \<Rightarrow> string \<Rightarrow> valuation \<Rightarrow> valuation \<Rightarrow> scope \<Rightarrow> goal \<Rightarrow> bool" where
  "goal_holds m d ins regs s g \<longleftrightarrow> gl_kind g = CoverGoal \<or> \<not> scope_active m d ins regs s \<or>
     den (wire_env ins regs) (gl_expression g) \<noteq> 0"

definition checks_hold :: "module \<Rightarrow> string \<Rightarrow> valuation \<Rightarrow> valuation \<Rightarrow> bool" where
  "checks_hold m d ins regs \<longleftrightarrow>
     list_all (\<lambda>s. sc_clock s \<noteq> d \<or> list_all (goal_holds m d ins regs s) (sc_goals s)) (md_scopes m)"

text \<open>A scope of checks alone, as the lowerings add one for each endpoint.\<close>

definition check_scope :: "scope \<Rightarrow> string \<Rightarrow> hw_expr list \<Rightarrow> bool" where
  "check_scope s d conds \<longleftrightarrow> sc_clock s = d \<and> sc_requirements s = [] \<and>
     list_all (\<lambda>g. gl_kind g = AssertGoal) (sc_goals s) \<and> map gl_expression (sc_goals s) = conds"

lemma check_scope_goals:
  assumes "check_scope s d conds"
  shows "list_all (goal_holds m d ins regs s) (sc_goals s) \<longleftrightarrow>
    reset_active m ins d \<or> (\<forall>e\<in>set conds. den (wire_env ins regs) e \<noteq> 0)"
proof -
  have "goal_holds m d ins regs s g \<longleftrightarrow> reset_active m ins d \<or> den (wire_env ins regs) (gl_expression g) \<noteq> 0"
    if "g \<in> set (sc_goals s)" for g
    using assms that by (auto simp: check_scope_def goal_holds_def scope_active_def list_all_iff)
  moreover have "set conds = gl_expression ` set (sc_goals s)" using assms by (auto simp: check_scope_def)
  ultimately show ?thesis by (auto simp: list_all_iff)
qed

text \<open>An edge of clock \<open>d\<close> under the inputs \<open>ins\<close>; a failing check stops the simulation.\<close>

inductive clock_edge :: "module \<Rightarrow> string \<Rightarrow> valuation \<Rightarrow> valuation \<Rightarrow> valuation \<Rightarrow> bool" where
  edge: "checks_hold m d ins regs \<Longrightarrow> clock_edge m d ins regs (after_edge m d ins regs)"

inductive_cases clock_edgeE: "clock_edge m d ins regs regs'"

text \<open>The registers a module starts with.\<close>

definition starts :: "module \<Rightarrow> valuation \<Rightarrow> bool" where
  "starts m regs \<longleftrightarrow> list_all (\<lambda>r. case initial_of r of
       None \<Rightarrow> True | Some i \<Rightarrow> regs (rg_name r) = i) (md_registers m)"

section \<open>Values at an edge\<close>

lemma den_input: "den (wire_env ins regs) (ERead InputRead n BitType) = of_bool (ins n \<noteq> 0)"
  and den_register: "den (wire_env ins regs) (ERead RegisterRead n (UIntType w)) = represent (UIntType w) (regs n)"
  by (simp_all add: represent_bit)

lemma domain_reset_clock: "domain_reset m p = Inr (d, r) \<Longrightarrow> clock_reset m d = Some r \<and> owning_domain m p = Some d"
  by (simp add: domain_reset_def split: option.splits)

lemma in_reset_active:
  assumes "domain_reset m p = Inr (d, r)"
  shows "in_reset (wire_env ins regs) m p \<longleftrightarrow> reset_active m ins d"
proof -
  have r: "clock_reset m d = Some r" using domain_reset_clock [OF assms] by blast
  show ?thesis unfolding in_reset_def reset_active_def assms r den_input sum.case option.case snd_conv by (rule refl)
qed

lemma checks_holdD:
  assumes "checks_hold m d ins regs" "s \<in> set (md_scopes m)" "check_scope s d conds" "e \<in> set conds" "\<not> reset_active m ins d"
  shows "den (wire_env ins regs) e \<noteq> 0"
proof -
  have "sc_clock s = d" using assms(3) by (simp add: check_scope_def)
  then have "list_all (goal_holds m d ins regs s) (sc_goals s)"
    using assms(1,2) by (auto simp: checks_hold_def list_all_iff)
  then show ?thesis using check_scope_goals [OF assms(3)] assms(4,5) by blast
qed

lemma clock_edge_next:
  assumes "clock_edge m d ins regs regs'" "register_named m d n = Some r"
  shows "regs' n = commit_register m d ins regs r"
  using assms by (auto elim!: clock_edgeE simp: after_edge_def)

lemma clock_edge_keeps:
  assumes "clock_edge m d ins regs regs'" "register_named m d n = None"
  shows "regs' n = regs n"
  using assms by (auto elim!: clock_edgeE simp: after_edge_def)

text \<open>A register that occurs once, and its only next-state assignment.\<close>

lemma find_unique: "y \<in> set xs \<Longrightarrow> P y \<Longrightarrow> \<forall>x\<in>set xs. P x \<longrightarrow> x = y \<Longrightarrow> List.find P xs = Some y"
proof (induction xs)
  case (Cons a xs)
  show ?case
  proof (cases "P a")
    case True
    then have "a = y" using Cons(4) by (metis list.set_intros(1))
    then show ?thesis using True by simp
  next
    case False
    then have "y \<in> set xs" "\<forall>x\<in>set xs. P x \<longrightarrow> x = y" using Cons(2-4) by (metis set_ConsD, metis list.set_intros(2))
    then have "List.find P xs = Some y" by (rule Cons.IH [OF _ Cons.prems(2)])
    then show ?thesis using False by simp
  qed
qed simp

lemma register_named_unique:
  assumes "r \<in> set (md_registers m)" "register_domain m r = Some d" "rg_name r = n"
    "\<forall>x\<in>set (md_registers m). rg_name x = n \<longrightarrow> x = r"
  shows "register_named m d' n = (if d' = d then Some r else None)"
proof (cases "d' = d")
  case True
  have "List.find (\<lambda>x. rg_name x = n \<and> register_domain m x = Some d) (md_registers m) = Some r"
    by (rule find_unique) (use assms in blast)+
  then show ?thesis unfolding register_named_def True by (simp only: refl if_True)
next
  case False
  have "\<not> (\<exists>x\<in>set (md_registers m). rg_name x = n \<and> register_domain m x = Some d')"
    using assms(2,4) False by (metis option.inject)
  then show ?thesis using False unfolding register_named_def by (simp add: find_None_iff)
qed

lemma foldl_only:
  "\<forall>x\<in>set xs. P x \<longrightarrow> f x = v \<Longrightarrow> foldl (\<lambda>old x. if P x then f x else old) z xs = (if \<exists>x\<in>set xs. P x then v else z)"
  by (induction xs rule: rev_induct) auto

lemma next_value_unique:
  assumes "na \<in> set (md_next m)" "assigns m d n na" "na_activation na = None"
    "\<forall>x\<in>set (md_next m). rg_name (na_target x) = n \<longrightarrow> x = na"
  shows "next_value m d ins regs n = den (wire_env ins regs) (na_expression na)"
proof -
  let ?P = "\<lambda>x. assigns m d n x \<and> active_now ins regs x"
  have "?P na" using assms(2,3) by (simp add: active_now_def)
  then have ex: "\<exists>x\<in>set (md_next m). ?P x" using assms(1) by blast
  have all: "\<forall>x\<in>set (md_next m). ?P x \<longrightarrow> den (wire_env ins regs) (na_expression x) = den (wire_env ins regs) (na_expression na)"
    using assms(4) unfolding assigns_def by blast
  show ?thesis unfolding next_value_def foldl_only [OF all] using ex by (simp only: if_True)
qed

text \<open>What an edge does to a register with one unconditional assignment.\<close>

lemma register_edge:
  assumes edge: "clock_edge m d' ins regs regs'"
    and r: "r \<in> set (md_registers m)" "register_domain m r = Some d" "\<forall>x\<in>set (md_registers m). rg_name x = rg_name r \<longrightarrow> x = r"
    and na: "na \<in> set (md_next m)" "na_target na = r" "na_activation na = None"
      "\<forall>x\<in>set (md_next m). rg_name (na_target x) = rg_name r \<longrightarrow> x = na"
    and i: "initial_of r = Some i"
  shows "regs' (rg_name r) = (if d' \<noteq> d then regs (rg_name r) else if reset_active m ins d then i
    else den (wire_env ins regs) (na_expression na))"
proof -
  note named = register_named_unique [OF r(1,2) refl r(3), of d']
  have "next_value m d ins regs (rg_name r) = den (wire_env ins regs) (na_expression na)"
    by (rule next_value_unique [OF na(1) _ na(3,4)]) (simp add: assigns_def na(2) r(2))
  then show ?thesis
    using named clock_edge_keeps [OF edge, of "rg_name r"] clock_edge_next [OF edge, of "rg_name r" r] i
    by (auto simp: commit_register_def)
qed

end
