(* ===== verification/Counters.thy ===== *)
theory Counters
  imports Credit Clocking
begin

text \<open>
  The counters of a lowered module, for every protocol that builds them with
  \<^verbatim>\<open>credit_counter_update\<close>.  \<open>counter_in\<close> says that a module holds one counter with its
  next-state assignment and its checks; \<open>flow_run\<close> is a run of clock edges with the number of
  transfers of a flow that have not been returned since the last reset.  A counter of credits is
  the capacity less that number, a counter of occupied places is that number, and the counter of
  a receiver whose increments and decrements are exchanged is its negation modulo the range.
\<close>

section \<open>One edge of a counter\<close>

lemma counter_update_value:
  assumes "credit_counter_update r sent ret c dir msgs inc dec = Inr (na, conds)" "rg_type r = UIntType w"
    "is_bit \<sigma> (case inc of None \<Rightarrow> ret | Some e \<Rightarrow> e)" "is_bit \<sigma> (case dec of None \<Rightarrow> sent | Some e \<Rightarrow> e)" "0 < w"
  shows "na_target na = r" "den \<sigma> (na_expression na) =
    (den \<sigma> (register_read r) + den \<sigma> (case inc of None \<Rightarrow> ret | Some e \<Rightarrow> e)
      - den \<sigma> (case dec of None \<Rightarrow> sent | Some e \<Rightarrow> e)) mod 2 ^ w"
proof -
  let ?i = "case inc of None \<Rightarrow> ret | Some e \<Rightarrow> e" and ?d = "case dec of None \<Rightarrow> sent | Some e \<Rightarrow> e"
  let ?t = "UIntType w"
  have na: "na = \<lparr>na_target = r, na_expression =
      EBinary OpSubtract (EAdd (register_read r) (EExtend ?i ?t) ?t) (EExtend ?d ?t) ?t ?t, na_activation = None\<rparr>"
    using assms(1,2) by (auto simp: credit_counter_update_def credit_counter_transition_def register_read_def Let_def)
  then show "na_target na = r" by simp
  have rep: "represent ?t v = v mod 2 ^ w" for v by (simp add: represent_flat)
  have "b mod 2 ^ w = b" if "b = 0 \<or> b = 1" for b :: int using that assms(5) by auto
  then have bits: "den \<sigma> ?i mod 2 ^ w = den \<sigma> ?i" "den \<sigma> ?d mod 2 ^ w = den \<sigma> ?d"
    using assms(3,4) by (auto simp: is_bit_def)
  have "den \<sigma> (na_expression na) = ((den \<sigma> (register_read r) + den \<sigma> ?i) mod 2 ^ w - den \<sigma> ?d) mod 2 ^ w"
    unfolding na by (simp add: rep binary_value_def bits)
  then show "den \<sigma> (na_expression na) = (den \<sigma> (register_read r) + den \<sigma> ?i - den \<sigma> ?d) mod 2 ^ w"
    by (simp add: mod_diff_left_eq)
qed

lemma equal_constant:
  "den \<sigma> (EBinary OpEqual e (EConst k t) t BitType) = of_bool (den \<sigma> e = k)"
  "is_bit \<sigma> (EBinary OpEqual e (EConst k t) t BitType)"
  by (auto simp: represent_bit binary_value_def is_bit_def)

lemma counter_update_checks:
  assumes "credit_counter_update r sent ret c dir msgs inc dec = Inr (na, conds)"
    "is_bit \<sigma> sent" "is_bit \<sigma> ret"
  shows "(\<forall>e\<in>set (map snd conds). den \<sigma> e \<noteq> 0) \<longleftrightarrow> (if dir = Output
    then \<not> (den \<sigma> ret \<noteq> 0 \<and> den \<sigma> sent = 0 \<and> den \<sigma> (register_read r) = c)
    else \<not> (den \<sigma> ret \<noteq> 0 \<and> den \<sigma> sent = 0 \<and> den \<sigma> (register_read r) = 0) \<and>
         \<not> (den \<sigma> sent \<noteq> 0 \<and> den \<sigma> ret = 0 \<and> den \<sigma> (register_read r) = c))"
  using assms(1,2,3)
  by (auto simp: credit_counter_update_def credit_counter_transition_def Let_def equal_constant
      register_read_def [symmetric] split: hwtype.splits simp del: den.simps)

section \<open>Lowered pieces\<close>

lemma den_and_nonzero: "den \<sigma> (bit_binary OpBitAnd a b) \<noteq> 0 \<Longrightarrow> den \<sigma> a \<noteq> 0 \<and> den \<sigma> b \<noteq> 0"
  by (auto simp: bit_binary_def represent_bit binary_value_def)

lemma mapE_member: "mapE f xs = Inr ys \<Longrightarrow> x \<in> set xs \<Longrightarrow> \<exists>y\<in>set ys. f x = Inr y"
  by (auto simp: mapE_Inr_all list_all2_conv_all_nth in_set_conv_nth)

lemma lower_signal_Inr:
  "lower_signal L {} n s = Inr e \<Longrightarrow> \<exists>r xs. lw_resolve L n s = Inr r \<and> length xs = length (fst r) \<and> snd r xs = Inr e"
  by (auto simp: lower_signal_def mapE_Inr_all dest!: list_all2_lengthD)

lemma lower_register_name: "lower_register L r = Inr r' \<Longrightarrow> rg_name r' = rg_name r"
  by (auto simp: lower_register_def split: option.splits)

lemma mk_next_target: "mk_next r e a = Inr na \<Longrightarrow> na_target na = r"
  by (auto simp: mk_next_def split: option.splits if_splits)

lemma lower_next_target:
  assumes "lower_next L na = Inr na'"
  shows "rg_name (na_target na') = rg_name (na_target na)"
proof -
  obtain r e a where "lower_register L (na_target na) = Inr r" "mk_next r e a = Inr na'"
    using assms unfolding lower_next_def bindE_Inr_iff by blast
  then show ?thesis using lower_register_name mk_next_target by metis
qed

lemma endpoint_port_distinct:
  assumes "distinct (map pt_name ps)" "p \<in> set ps"
  shows "endpoint_port ps (pt_name p) = Inr p"
proof -
  have "\<forall>q\<in>set ps. pt_name q = pt_name p \<longrightarrow> q = p" using assms by (auto simp: distinct_map dest: inj_onD)
  then have "List.find (\<lambda>q. pt_name q = pt_name p) (rev ps) = Some p" using assms(2) by (intro find_unique) auto
  then show ?thesis by (simp add: endpoint_port_def)
qed

lemma runtime_scope_Inr:
  assumes "runtime_protocol_scope digest m p conds = Inr s"
  shows "\<exists>r. domain_reset m p = Inr (sc_clock s, r)" "check_scope s (sc_clock s) (map snd conds)"
proof -
  obtain dr where dr: "domain_reset m p = Inr dr"
    using assms by (cases "domain_reset m p") (auto simp: runtime_protocol_scope_def)
  define i where "i = ''$zlang_runtime_protocol:'' @ take 24 (digest
           (md_name m @ ''|'' @ pt_name p @ ''|'' @ protocol_value (pt_protocol p) @ ''|'' @ fst dr @ ''|protocol-check''))"
  let ?mk = "\<lambda>(k, c). mk_goal (i @ '':'' @ decimal k) i AssertGoal (fst c) (snd c)"
  have "bindE (mapE ?mk (enumerate 0 conds)) (\<lambda>gs.
      mk_scope i (protocol_value (pt_protocol p) @ '' endpoint '' @ pt_name p) (fst dr) (snd dr) [] gs) = Inr s"
    using assms unfolding runtime_protocol_scope_def dr bindE.simps Let_def i_def .
  then obtain gs where gs: "mapE ?mk (enumerate 0 conds) = Inr gs"
    and s: "mk_scope i (protocol_value (pt_protocol p) @ '' endpoint '' @ pt_name p) (fst dr) (snd dr) [] gs = Inr s"
    unfolding bindE_Inr_iff by blast
  have s': "sc_clock s = fst dr" "sc_goals s = gs" "sc_requirements s = []"
    using s by (auto simp: mk_scope_def split: if_splits)
  then show "\<exists>r. domain_reset m p = Inr (sc_clock s, r)" using dr by (cases dr) auto
  have l2: "list_all2 (\<lambda>x g. ?mk x = Inr g) (enumerate 0 conds) gs"
    using gs by (simp add: mapE_Inr_all)
  then have "map gl_expression gs = map (\<lambda>x. snd (snd x)) (enumerate 0 conds) \<and> list_all (\<lambda>g. gl_kind g = AssertGoal) gs"
    by (induction rule: list_all2_induct) (auto simp: mk_goal_def split: if_splits)
  moreover have "map (\<lambda>x. snd (snd x)) (enumerate 0 conds) = map snd (map snd (enumerate 0 conds))" by (simp only: map_map comp_def)
  ultimately show "check_scope s (sc_clock s) (map snd conds)"
    unfolding check_scope_def s' map_snd_enumerate by simp
qed

text \<open>A name no part of the source module has belongs to at most one new part.\<close>

lemma lowered_next_unique:
  assumes "mapE (lower_next L) old = Inr nas" "\<forall>na\<in>set old. rg_name (na_target na) \<noteq> n"
    "\<And>y. y \<in> set new \<Longrightarrow> rg_name (na_target y) = n \<Longrightarrow> y = na" "x \<in> set (nas @ new)" "rg_name (na_target x) = n"
  shows "x = na"
proof -
  have "x \<notin> set nas"
    using list_all2_ball [OF assms(1) [unfolded mapE_Inr_all]] lower_next_target assms(2,5) by metis
  then show ?thesis using assms(3-5) by simp
qed

lemma lowered_register_unique:
  assumes "mapE (lower_register L) old = Inr rs" "\<forall>r\<in>set old. rg_name r \<noteq> n"
    "\<And>y. y \<in> set new \<Longrightarrow> rg_name y = n \<Longrightarrow> y = r" "x \<in> set (rs @ new)" "rg_name x = n"
  shows "x = r"
proof -
  have "x \<notin> set rs"
    using list_all2_ball [OF assms(1) [unfolded mapE_Inr_all]] lower_register_name assms(2,5) by metis
  then show ?thesis using assms(3-5) by simp
qed

text \<open>The dictionary of the counters, by the name of the endpoint.\<close>

lemma endpoint_dict:
  assumes "mapE f ps = Inr regs" "\<And>p x. f p = Inr x \<Longrightarrow> fst x = pt_name p" "distinct (map pt_name ps)" "p \<in> set ps"
  shows "\<exists>x. f p = Inr x \<and> map_of (rev regs) (pt_name p) = Some (snd x)"
proof -
  have l2: "list_all2 (\<lambda>x y. f x = Inr y) ps regs" using assms(1) by (simp add: mapE_Inr_all)
  have "map fst regs = map pt_name ps"
    using l2 by (induction rule: list_all2_induct) (auto dest: assms(2))
  then have "distinct (map fst (rev regs))" using assms(3) by (simp add: rev_map [symmetric])
  moreover obtain x where "x \<in> set regs" "f p = Inr x" using mapE_member [OF assms(1,4)] by blast
  moreover have "fst x = pt_name p" using assms(2) \<open>f p = Inr x\<close> by blast
  ultimately show ?thesis by (metis map_of_eq_Some_iff prod.collapse set_rev)
qed

section \<open>A counter of a module\<close>

definition endpoint_width :: "int \<Rightarrow> nat" where
  "endpoint_width c = max 1 (bit_length c)"

lemma endpoint_width_pos: "0 < endpoint_width c"
  by (simp add: endpoint_width_def)

lemma den_register_read: "rg_type r = UIntType w \<Longrightarrow> den (wire_env ins regs) (register_read r) = regs (rg_name r) mod 2 ^ w"
  by (simp add: register_read_def represent_flat)

lemma bit_value: "is_bit \<sigma> e \<Longrightarrow> den \<sigma> e \<in> {0, 1}" "is_bit \<sigma> e \<Longrightarrow> den \<sigma> e \<noteq> 0 \<longleftrightarrow> den \<sigma> e = 1"
  by (auto simp: is_bit_def)

text \<open>
  \<open>up\<close> says that the counter counts transfers up and returns down; otherwise it counts the other
  way round.
\<close>

definition counter_in ::
    "module \<Rightarrow> string \<Rightarrow> port_direction \<Rightarrow> bool \<Rightarrow> int \<Rightarrow> register \<Rightarrow> hw_expr \<Rightarrow> hw_expr \<Rightarrow> next_assignment \<Rightarrow>
      (string \<times> hw_expr) list \<Rightarrow> bool" where
  "counter_in M d dir up c r sent ret na conds \<longleftrightarrow>
     1 \<le> c \<and> rg_type r = UIntType (endpoint_width c) \<and> rg_domain r = Some d \<and>
     initial_of r = Some (if dir = Output then c else 0) \<and>
     (\<exists>msgs inc dec. credit_counter_update r sent ret c dir msgs inc dec = Inr (na, conds) \<and>
        (case inc of None \<Rightarrow> ret | Some e \<Rightarrow> e) = (if up then sent else ret) \<and>
        (case dec of None \<Rightarrow> sent | Some e \<Rightarrow> e) = (if up then ret else sent)) \<and>
     (\<forall>\<sigma>. is_bit \<sigma> sent \<and> is_bit \<sigma> ret) \<and>
     (dir = Output \<longrightarrow> (\<forall>\<sigma>. den \<sigma> sent \<noteq> 0 \<longrightarrow> den \<sigma> (register_read r) \<noteq> 0)) \<and>
     na \<in> set (md_next M) \<and> (\<forall>x\<in>set (md_next M). rg_name (na_target x) = rg_name r \<longrightarrow> x = na) \<and>
     r \<in> set (md_registers M) \<and> (\<forall>x\<in>set (md_registers M). rg_name x = rg_name r \<longrightarrow> x = r) \<and>
     (\<exists>s\<in>set (md_scopes M). \<exists>cs. check_scope s d cs \<and> set (map snd conds) \<subseteq> set cs)"

text \<open>
  What an edge outside reset does to a counter: \<open>q\<close> is the counter, \<open>w\<close> its width and \<open>send\<close> and
  \<open>give\<close> the transfer and the return of this cycle.
\<close>

definition counter_step :: "port_direction \<Rightarrow> bool \<Rightarrow> int \<Rightarrow> nat \<Rightarrow> int \<Rightarrow> int \<Rightarrow> int \<Rightarrow> int \<Rightarrow> bool" where
  "counter_step dir up c w q send give q' \<longleftrightarrow>
     q' = (q mod 2 ^ w + (if up then send - give else give - send)) mod 2 ^ w \<and> send \<in> {0, 1} \<and> give \<in> {0, 1} \<and>
     (if dir = Output then (send = 1 \<longrightarrow> q mod 2 ^ w \<noteq> 0) \<and> \<not> (give = 1 \<and> send = 0 \<and> q mod 2 ^ w = c)
      else \<not> (give = 1 \<and> send = 0 \<and> q mod 2 ^ w = 0) \<and> \<not> (send = 1 \<and> give = 0 \<and> q mod 2 ^ w = c))"

lemma counter_edge:
  assumes cin: "counter_in M d dir up c r sent ret na conds" and edge: "clock_edge M d' ins regs regs'"
  shows "d' \<noteq> d \<Longrightarrow> regs' (rg_name r) = regs (rg_name r)"
    and "d' = d \<Longrightarrow> reset_active M ins d \<Longrightarrow> regs' (rg_name r) = (if dir = Output then c else 0)"
    and "d' = d \<Longrightarrow> \<not> reset_active M ins d \<Longrightarrow>
      counter_step dir up c (endpoint_width c) (regs (rg_name r))
        (den (wire_env ins regs) sent) (den (wire_env ins regs) ret) (regs' (rg_name r))"
proof -
  let ?w = "endpoint_width c" and ?\<sigma> = "wire_env ins regs"
  note P = cin [unfolded counter_in_def]
  have r: "rg_type r = UIntType ?w" "rg_domain r = Some d" "initial_of r = Some (if dir = Output then c else 0)"
    using P by blast+
  have bits: "is_bit ?\<sigma> sent" "is_bit ?\<sigma> ret" using P by auto
  obtain msgs inc dec where u: "credit_counter_update r sent ret c dir msgs inc dec = Inr (na, conds)"
    and inc: "(case inc of None \<Rightarrow> ret | Some e \<Rightarrow> e) = (if up then sent else ret)"
    and dec: "(case dec of None \<Rightarrow> sent | Some e \<Rightarrow> e) = (if up then ret else sent)" using P by blast
  have na: "na_target na = r" "den ?\<sigma> (na_expression na) = (den ?\<sigma> (register_read r) +
      (if up then den ?\<sigma> sent - den ?\<sigma> ret else den ?\<sigma> ret - den ?\<sigma> sent)) mod 2 ^ ?w"
    using counter_update_value [OF u r(1), of ?\<sigma>, unfolded inc dec] bits endpoint_width_pos by (simp_all add: add_diff_eq split: if_splits)
  have dom: "register_domain M r = Some d" using r(2) by (simp add: register_domain_def)
  have act0: "na_activation na = None" using u by (auto simp: credit_counter_update_def)
  have reg: "r \<in> set (md_registers M)" "\<forall>x\<in>set (md_registers M). rg_name x = rg_name r \<longrightarrow> x = r"
    and nxt: "na \<in> set (md_next M)" "\<forall>x\<in>set (md_next M). rg_name (na_target x) = rg_name r \<longrightarrow> x = na"
    using P by blast+
  note commit = register_edge [OF edge reg(1) dom reg(2) nxt(1) na(1) act0 nxt(2) r(3)]
  show "d' \<noteq> d \<Longrightarrow> regs' (rg_name r) = regs (rg_name r)"
    "d' = d \<Longrightarrow> reset_active M ins d \<Longrightarrow> regs' (rg_name r) = (if dir = Output then c else 0)"
    using commit by simp_all
  assume act: "d' = d" "\<not> reset_active M ins d"
  obtain s cs where s: "s \<in> set (md_scopes M)" "check_scope s d cs" "set (map snd conds) \<subseteq> set cs"
    using P by blast
  have "checks_hold M d ins regs" using edge act(1) by (auto elim: clock_edgeE)
  then have checks: "\<forall>e\<in>set (map snd conds). den ?\<sigma> e \<noteq> 0"
    using checks_holdD [OF _ s(1,2) _ act(2)] s(3) by blast
  have q: "den ?\<sigma> (register_read r) = regs (rg_name r) mod 2 ^ ?w" using den_register_read [OF r(1)] by simp
  have "regs' (rg_name r) = (regs (rg_name r) mod 2 ^ ?w +
      (if up then den ?\<sigma> sent - den ?\<sigma> ret else den ?\<sigma> ret - den ?\<sigma> sent)) mod 2 ^ ?w"
    using commit act na(2) q by simp
  moreover have "dir = Output \<Longrightarrow> den ?\<sigma> sent \<noteq> 0 \<Longrightarrow> regs (rg_name r) mod 2 ^ ?w \<noteq> 0"
    using P q by metis
  ultimately show "counter_step dir up c ?w (regs (rg_name r)) (den ?\<sigma> sent) (den ?\<sigma> ret) (regs' (rg_name r))"
    unfolding counter_step_def
    using checks counter_update_checks [OF u bits] q bit_value [OF bits(1)] bit_value [OF bits(2)] by auto
qed

section \<open>Runs\<close>

text \<open>
  Runs of a module, with the transfers of a flow (\<open>send\<close>) less its returns (\<open>give\<close>) since the last
  reset of its clock \<open>flow_clock\<close>.
\<close>

inductive flow_run ::
    "module \<Rightarrow> string option \<Rightarrow> (valuation \<Rightarrow> valuation \<Rightarrow> int) \<Rightarrow> (valuation \<Rightarrow> valuation \<Rightarrow> int) \<Rightarrow> valuation \<Rightarrow> int \<Rightarrow> bool"
  for M flow_clock send give where
  begins: "starts M regs \<Longrightarrow> flow_run M flow_clock send give regs 0"
| ticks: "flow_run M flow_clock send give regs k \<Longrightarrow> clock_edge M d ins regs regs' \<Longrightarrow>
    k' = (if flow_clock \<noteq> Some d then k else if reset_active M ins d then 0
      else k + send ins regs - give ins regs) \<Longrightarrow>
    flow_run M flow_clock send give regs' k'"

lemma width_double: "(2::int) ^ endpoint_width c = 2 * 2 ^ (endpoint_width c - 1)"
  using endpoint_width_pos [of c] by (cases "endpoint_width c") auto

lemma capacity_bits: "1 \<le> c \<Longrightarrow> c < 2 ^ endpoint_width c" "1 \<le> c \<Longrightarrow> 2 ^ endpoint_width c \<le> 2 * c"
proof -
  assume c: "1 \<le> c"
  then show "c < 2 ^ endpoint_width c"
    using bit_length_le_iff [of c "endpoint_width c"] by (simp add: endpoint_width_def)
  have "\<not> c < 2 ^ (endpoint_width c - 1)"
  proof (cases "endpoint_width c = 1")
    case False
    then have "endpoint_width c = bit_length c" "0 < bit_length c" by (auto simp: endpoint_width_def)
    then have "\<not> bit_length c \<le> endpoint_width c - 1" by linarith
    then show ?thesis using bit_length_le_iff [of c "endpoint_width c - 1"] c by simp
  qed (use c in simp)
  then show "2 ^ endpoint_width c \<le> 2 * c" using width_double [of c] by simp
qed

text \<open>What the counter holds after \<open>k\<close> transfers that were not returned, and the bound on \<open>k\<close>.\<close>

definition flow_invariant :: "port_direction \<Rightarrow> bool \<Rightarrow> int \<Rightarrow> nat \<Rightarrow> int \<Rightarrow> int \<Rightarrow> bool" where
  "flow_invariant dir up c w q k \<longleftrightarrow> 0 \<le> k \<and>
     (if dir = Output then q = c - k \<and> k \<le> c
      else if up then q = k \<and> k \<le> c
      else q = (- k) mod 2 ^ w \<and> k \<le> 2 ^ w - c)"

lemma sender_step:
  assumes "counter_step Output False c w q send give q'" "flow_invariant Output False c w q k" "c < 2 ^ w"
  shows "flow_invariant Output False c w q' (k + send - give)"
proof -
  have k: "q = c - k" "0 \<le> k" "k \<le> c" using assms(2) by (simp_all add: flow_invariant_def)
  have q: "q mod 2 ^ w = c - k" using k assms(3) by simp
  have b: "0 \<le> k + send - give" "k + send - give \<le> c"
    using assms(1) k unfolding counter_step_def q by auto
  have "q' = (c - (k + send - give)) mod 2 ^ w" using assms(1) unfolding counter_step_def q by (simp add: algebra_simps)
  then show ?thesis using b assms(3) by (simp add: flow_invariant_def)
qed

lemma occupancy_step:
  assumes "counter_step Input True c w q send give q'" "flow_invariant Input True c w q k" "c < 2 ^ w"
  shows "flow_invariant Input True c w q' (k + send - give)"
proof -
  have k: "q = k" "0 \<le> k" "k \<le> c" using assms(2) by (simp_all add: flow_invariant_def)
  have q: "q mod 2 ^ w = k" using k assms(3) by simp
  have b: "0 \<le> k + send - give" "k + send - give \<le> c"
    using assms(1) k unfolding counter_step_def q by auto
  have "q' = (k + send - give) mod 2 ^ w" using assms(1) unfolding counter_step_def q by (simp add: algebra_simps)
  then show ?thesis using b assms(3) by (simp add: flow_invariant_def)
qed

lemma negated_mod: "0 \<le> k \<Longrightarrow> k \<le> (2::int) ^ w \<Longrightarrow> (- k) mod 2 ^ w = (if k = 0 \<or> k = 2 ^ w then 0 else 2 ^ w - k)"
  by (auto simp: zmod_zminus1_eq_if)

lemma reversed_step:
  assumes "counter_step Input False c w q send give q'" "flow_invariant Input False c w q k" "1 \<le> c" "c < 2 ^ w"
  shows "flow_invariant Input False c w q' (k + send - give)"
proof -
  have k: "q = (- k) mod 2 ^ w" "0 \<le> k" "k \<le> 2 ^ w - c" using assms(2) by (simp_all add: flow_invariant_def)
  have q: "q mod 2 ^ w = (if k = 0 then 0 else 2 ^ w - k)" using k assms(3,4) negated_mod [of k w] by simp
  have "q' = ((- k) mod 2 ^ w + give - send) mod 2 ^ w" using assms(1) k(1) by (simp add: counter_step_def add_diff_eq)
  also have "\<dots> = (- k + (give - send)) mod 2 ^ w" by (metis add_diff_eq mod_add_left_eq)
  finally have "q' = (- (k + send - give)) mod 2 ^ w" by (simp add: algebra_simps)
  moreover have "0 \<le> k + send - give" "k + send - give \<le> 2 ^ w - c"
    using assms(1,3,4) k(2,3) unfolding counter_step_def q by (auto split: if_splits)
  ultimately show ?thesis by (simp add: flow_invariant_def)
qed

lemma starts_counter:
  assumes "counter_in M d dir up c r sent ret na conds" "starts M regs"
  shows "regs (rg_name r) = (if dir = Output then c else 0)"
proof -
  have r: "r \<in> set (md_registers M)" and i: "initial_of r = Some (if dir = Output then c else 0)"
    using assms(1) unfolding counter_in_def by blast+
  have "case initial_of r of None \<Rightarrow> True | Some i \<Rightarrow> regs (rg_name r) = i"
    using assms(2) r unfolding starts_def list_all_iff by blast
  then show ?thesis unfolding i option.case .
qed

lemma fresh_invariant: "1 \<le> c \<Longrightarrow> c < 2 ^ w \<Longrightarrow> flow_invariant dir up c w (if dir = Output then c else 0) 0"
  by (simp add: flow_invariant_def)

text \<open>A credit counter counts down, so \<open>dir = Output\<close> excludes \<open>up\<close>.\<close>

lemma flow_run_invariant:
  assumes cin: "counter_in M d dir up c r sent ret na conds" and dir: "dir = Output \<Longrightarrow> \<not> up"
    and now: "\<And>ins regs. send ins regs = den (wire_env ins regs) sent" "\<And>ins regs. give ins regs = den (wire_env ins regs) ret"
    and run: "flow_run M (Some d) send give regs k"
  shows "flow_invariant dir up c (endpoint_width c) (regs (rg_name r)) k"
  using run
proof (induction rule: flow_run.induct)
  have c: "1 \<le> c" using cin unfolding counter_in_def by blast
  note bound = capacity_bits(1) [OF c]
  {
    case (begins regs)
    show ?case using starts_counter [OF cin begins] fresh_invariant [OF c bound] by simp
  next
    case (ticks regs k d' ins regs' k')
    note edge = counter_edge [OF cin ticks.hyps(2)]
    consider "d' \<noteq> d" | "d' = d" "reset_active M ins d" | "d' = d" "\<not> reset_active M ins d" by blast
    then show ?case
    proof cases
      case 1
      then show ?thesis using edge(1) ticks by auto
    next
      case 2
      then show ?thesis using edge(2) ticks.hyps(3) fresh_invariant [OF c bound] by simp
    next
      case 3
      then have "k' = k + send ins regs - give ins regs" using ticks.hyps(3) by simp
      then have "k' = k + den (wire_env ins regs) sent - den (wire_env ins regs) ret" using now by simp
      then show ?thesis
        using edge(3) [OF 3] ticks.IH dir sender_step occupancy_step reversed_step [OF _ _ c] bound
        by (cases dir; cases up) auto
    qed
  }
qed

section \<open>Pieces of example modules\<close>

definition wire_input :: "string \<Rightarrow> port" where
  "wire_input n = wire_port Input n BitType None"

definition leaf_module :: "string \<Rightarrow> port list \<Rightarrow> assignment list \<Rightarrow> module" where
  "leaf_module n ps as = \<lparr>md_name = n, md_ports = ps, md_assignments = as, md_clock = Some ''clk'', md_reset = Some ''rst'',
     md_registers = [], md_next = [], md_domains = [], md_scopes = [], md_linked = False, md_stored = False, md_arbiters = [], md_retained = []\<rparr>"

definition high :: "string list \<Rightarrow> valuation" where
  "high ns n = of_bool (n \<in> set ns)"

end
