(* ===== verification/Credit_Runs.thy ===== *)
theory Credit_Runs
  imports Counters
begin

text \<open>
  The machine of the credit counters.  A run of a lowered module is a sequence of clock edges;
  next to the registers it keeps the number of transfers of one endpoint that have not been
  returned since the last reset.  The counter of a sender is the capacity less that number, and
  no run exceeds the capacity.  The counter of a receiver of \<^verbatim>\<open>simulation_credit.py\<close> is
  decremented by a transfer and incremented by a return, so it holds the negated number modulo
  the counter's range, and the overflow check compares that with the capacity.
\<close>

section \<open>The signals of an endpoint\<close>

lemma credit_signal_field:
  assumes "lower_signal (credit_lowering m ps regs drivers) {} n (CreditSignal s) = Inr e"
    "endpoint_port ps n = Inr p" "s = CrSend \<or> s = CrReturn"
  shows "\<exists>x. (if (pt_direction p = Input) = (s \<noteq> CrReturn) then credit_external m p (CreditSignal s)
      else credit_driven m regs p (CreditSignal s) x) = Inr e"
proof -
  obtain r xs where r: "credit_resolve m ps regs n (CreditSignal s) = Inr r" "snd r xs = Inr e"
    using lower_signal_Inr [OF assms(1)] by (auto simp: credit_lowering_def)
  have s: "transfer_is_send (CreditSignal s) = CreditSignal s" "s \<noteq> CrCredits" using assms(3) by auto
  then obtain f where f: "protocol_scalar_field p (CreditSignal s) = Inr f"
    and "r = (if snd (snd f) then ([], \<lambda>_. credit_external m p (CreditSignal s))
          else ([(n, CreditSignal s)], \<lambda>xs. credit_driven m regs p (CreditSignal s) (hd xs)))"
    using r(1) assms(2) by (auto simp: credit_resolve_def Let_def split: if_splits)
  then show ?thesis using credit_field [OF f] r(2) by (cases "snd (snd f)") auto
qed

lemma sender_signals:
  assumes L: "L = credit_lowering m ps regs drivers" and p: "endpoint_port ps n = Inr p" "pt_protocol p = Credit"
    and dir: "pt_direction p = Output" and r: "register_of regs n = Inr r" "rg_type r = UIntType w" "0 < w"
    and sent: "lower_signal L {} n (CreditSignal CrSend) = Inr sent"
    and ret: "lower_signal L {} n (CreditSignal CrReturn) = Inr ret"
  shows "is_bit \<sigma> sent" "is_bit \<sigma> ret" "den \<sigma> sent \<noteq> 0 \<Longrightarrow> \<not> in_reset \<sigma> m p \<and> den \<sigma> (register_read r) \<noteq> 0"
proof -
  have pn: "pt_name p = n" using endpoint_port_name [OF p(1)] by simp
  obtain x where "credit_driven m regs p (CreditSignal CrSend) x = Inr sent"
    using credit_signal_field [OF sent [unfolded L] p(1)] dir by auto
  then obtain rs where rs: "reset_deasserted m p = Inr rs" and s: "sent = bit_binary OpBitAnd rs (bit_binary OpBitAnd x
      (EBinary OpNotEqual (register_read r) (EConst 0 (rg_type r)) (rg_type r) BitType))"
    using dir r(1) pn by (auto simp: credit_driven_def)
  show "is_bit \<sigma> sent" using s by simp
  have c: "den \<sigma> (EBinary OpNotEqual (register_read r) (EConst 0 (rg_type r)) (rg_type r) BitType) =
      of_bool (den \<sigma> (register_read r) \<noteq> 0)"
    using compare_zero(2) [OF r(3), where k = RegisterRead and n = "rg_name r"] r(2) by (simp add: register_read_def)
  show "\<not> in_reset \<sigma> m p \<and> den \<sigma> (register_read r) \<noteq> 0" if nz: "den \<sigma> sent \<noteq> 0"
  proof -
    have "den \<sigma> rs \<noteq> 0" "den \<sigma> (EBinary OpNotEqual (register_read r) (EConst 0 (rg_type r)) (rg_type r) BitType) \<noteq> 0"
      using nz den_and_nonzero unfolding s by blast+
    then show ?thesis using c reset_bit [OF rs, of \<sigma>] by auto
  qed
  obtain x where "credit_external m p (CreditSignal CrReturn) = Inr ret"
    using credit_signal_field [OF ret [unfolded L] p(1)] dir by auto
  then show "is_bit \<sigma> ret" using dir by (auto simp: credit_external_def)
qed

lemma receiver_signals:
  assumes L: "L = credit_lowering m ps regs drivers" and p: "endpoint_port ps n = Inr p"
    and dir: "pt_direction p = Input"
    and sent: "lower_signal L {} n (CreditSignal CrSend) = Inr sent"
    and ret: "lower_signal L {} n (CreditSignal CrReturn) = Inr ret"
  shows "is_bit \<sigma> sent" "is_bit \<sigma> ret"
proof -
  obtain x where "credit_external m p (CreditSignal CrSend) = Inr sent"
    using credit_signal_field [OF sent [unfolded L] p(1)] dir by auto
  then show "is_bit \<sigma> sent" using dir by (auto simp: credit_external_def)
  obtain y where "credit_driven m regs p (CreditSignal CrReturn) y = Inr ret"
    using credit_signal_field [OF ret [unfolded L] p(1)] dir by auto
  then show "is_bit \<sigma> ret" using dir by (auto simp: credit_driven_def)
qed

section \<open>The counter of an endpoint in the lowered module\<close>

definition counter_name :: "port \<Rightarrow> string" where
  "counter_name p = credit_state_name (pt_name p) (if pt_direction p = Output then ''credits'' else ''occupancy'')"

text \<open>No register of the source module has the name of a counter, and endpoints have distinct names.\<close>

definition credit_names_fresh :: "module \<Rightarrow> bool" where
  "credit_names_fresh m \<longleftrightarrow> distinct (map pt_name (credit_ports m)) \<and>
     (\<forall>na\<in>set (md_next m). \<forall>p\<in>set (credit_ports m). rg_name (na_target na) \<noteq> counter_name p) \<and>
     (\<forall>r\<in>set (md_registers m). \<forall>p\<in>set (credit_ports m). rg_name r \<noteq> counter_name p)"

lemma counter_name_inj: "counter_name p = counter_name q \<Longrightarrow> pt_name p = pt_name q"
proof -
  assume eq: "counter_name p = counter_name q"
  have l: "last (counter_name p) = (if pt_direction p = Output then CHR ''s'' else CHR ''y'')" for p
    by (simp add: counter_name_def credit_state_name_def)
  have "(pt_direction p = Output) = (pt_direction q = Output)"
    using arg_cong [OF eq, of last] unfolding l by (simp split: if_splits)
  then show ?thesis using eq unfolding counter_name_def credit_state_name_def by simp
qed

lemma register_of_ports:
  assumes "mapE (credit_register m) ps = Inr regs" "distinct (map pt_name ps)" "p \<in> set ps"
  shows "\<exists>x. credit_register m p = Inr x \<and> register_of regs (pt_name p) = Inr (snd x)"
proof -
  have "\<exists>x. credit_register m p = Inr x \<and> map_of (rev regs) (pt_name p) = Some (snd x)"
    by (rule endpoint_dict [OF assms(1) _ assms(2,3)]) (auto simp: credit_register_def)
  then show ?thesis by (auto simp: register_of_def)
qed

text \<open>The lowered pieces of one endpoint.\<close>

definition credit_signal_now :: "module \<Rightarrow> port \<Rightarrow> credit_signal \<Rightarrow> valuation \<Rightarrow> valuation \<Rightarrow> int" where
  "credit_signal_now m p s ins regs = (case credit_setup m of Inl _ \<Rightarrow> 0
     | Inr (rs, L) \<Rightarrow> (case lower_signal L {} (pt_name p) (CreditSignal s) of Inl _ \<Rightarrow> 0
         | Inr e \<Rightarrow> den (wire_env ins regs) e))"

lemma credit_module_pieces:
  assumes low: "lower_credit_module digest m = Inr M" and p: "p \<in> set (credit_ports m)"
  obtains regs L scalars nas counters rs where "credit_setup m = Inr (regs, L)"
    "mapE (lower_register L) (md_registers m) = Inr rs" "md_registers M = rs @ map snd regs"
    "mapE (lower_next L) (md_next m) = Inr nas" "mapE (credit_endpoint_counter digest m L regs) (credit_ports m) = Inr counters"
    "md_next M = nas @ map fst counters" "set (map snd counters) \<subseteq> set (md_scopes M)"
    "md_domains M = md_domains m" "md_clock M = md_clock m" "md_reset M = md_reset m"
proof -
  have "credit_ports m \<noteq> []" using p by auto
  then show thesis using low that
    by (force simp: lower_credit_module_def finalize_module_def)
qed

text \<open>What the lowering puts into the module for one endpoint.\<close>

definition counter_parts ::
    "module \<Rightarrow> module \<Rightarrow> port \<Rightarrow> int \<Rightarrow> string \<Rightarrow> register \<Rightarrow> hw_expr \<Rightarrow> hw_expr \<Rightarrow> next_assignment \<Rightarrow>
      (string \<times> hw_expr) list \<Rightarrow> bool" where
  "counter_parts m M p c d r sent ret na conds \<longleftrightarrow>
     counter_in M d (pt_direction p) False c r sent ret na conds \<and> rg_name r = counter_name p \<and>
     pt_capacity p = Some c \<and> owning_domain m p = Some d \<and>
     (\<exists>s\<in>set (md_scopes M). check_scope s d (map snd conds)) \<and>
     (\<forall>ins regs. credit_signal_now m p CrSend ins regs = den (wire_env ins regs) sent) \<and>
     (\<forall>ins regs. credit_signal_now m p CrReturn ins regs = den (wire_env ins regs) ret)"

lemma credit_register_counter:
  assumes "credit_register m p = Inr x"
  shows "\<exists>c d. pt_capacity p = Some c \<and> 1 \<le> c \<and> owning_domain m p = Some d \<and>
    snd x = \<lparr>rg_name = counter_name p, rg_type = UIntType (endpoint_width c),
      rg_initial = Some (EConst (if pt_direction p = Output then c else 0) (UIntType (endpoint_width c))), rg_domain = Some d\<rparr>"
  using assms by (auto simp: credit_register_def credit_counter_spec_def counter_name_def endpoint_width_def
      split: option.splits if_splits)

lemma endpoint_counter_target:
  assumes "credit_endpoint_counter digest m L rs p = Inr y" "register_of rs (pt_name p) = Inr r"
  shows "na_target (fst y) = r"
  using assms by (auto simp: credit_endpoint_counter_def credit_counter_update_def split: option.splits)

lemma credit_counter_parts:
  assumes low: "lower_credit_module digest m = Inr M" and fresh: "credit_names_fresh m" and p: "p \<in> set (credit_ports m)"
  shows "\<exists>c d r sent ret na conds. counter_parts m M p c d r sent ret na conds"
proof -
  obtain rs L nas ctrs ors where su: "credit_setup m = Inr (rs, L)"
    and ors: "mapE (lower_register L) (md_registers m) = Inr ors" "md_registers M = ors @ map snd rs"
    and nas: "mapE (lower_next L) (md_next m) = Inr nas"
    and ctrs: "mapE (credit_endpoint_counter digest m L rs) (credit_ports m) = Inr ctrs"
    and M: "md_next M = nas @ map fst ctrs" "set (map snd ctrs) \<subseteq> set (md_scopes M)"
      "md_domains M = md_domains m" "md_clock M = md_clock m" "md_reset M = md_reset m"
    using credit_module_pieces [OF low p] by metis
  obtain drivers where L: "L = credit_lowering m (credit_ports m) rs drivers"
    and rs: "mapE (credit_register m) (credit_ports m) = Inr rs"
    using su by (auto simp: credit_setup_def)
  have dist: "distinct (map pt_name (credit_ports m))" using fresh by (simp add: credit_names_fresh_def)
  note ep = endpoint_port_distinct [OF dist p]
  obtain x where x: "credit_register m p = Inr x" "register_of rs (pt_name p) = Inr (snd x)"
    using register_of_ports [OF rs dist p] by blast
  obtain y where y: "y \<in> set ctrs" "credit_endpoint_counter digest m L rs p = Inr y" using mapE_member [OF ctrs p] by blast
  obtain sent ret c conds where sent: "lower_signal L {} (pt_name p) (CreditSignal CrSend) = Inr sent"
    and ret: "lower_signal L {} (pt_name p) (CreditSignal CrReturn) = Inr ret" and c: "pt_capacity p = Some c"
    and u: "credit_counter_update (snd x) sent ret c (pt_direction p) (credit_messages (pt_name p)) None None = Inr (fst y, conds)"
    and sc: "runtime_protocol_scope digest m p conds = Inr (snd y)"
    using y(2) x(2) by (auto simp: credit_endpoint_counter_def split: option.splits)
  obtain d where r: "1 \<le> c" "owning_domain m p = Some d"
    "snd x = \<lparr>rg_name = counter_name p, rg_type = UIntType (endpoint_width c),
      rg_initial = Some (EConst (if pt_direction p = Output then c else 0) (UIntType (endpoint_width c))), rg_domain = Some d\<rparr>"
    using credit_register_counter [OF x(1)] c by auto
  have dom: "\<exists>rst. domain_reset m p = Inr (d, rst)" "sc_clock (snd y) = d"
    using runtime_scope_Inr(1) [OF sc] domain_reset_clock r(2) by fastforce+
  have old: "\<forall>na\<in>set (md_next m). rg_name (na_target na) \<noteq> counter_name p"
    "\<forall>r\<in>set (md_registers m). rg_name r \<noteq> counter_name p"
    using fresh p unfolding credit_names_fresh_def by blast+
  have "z = fst y" if z: "z \<in> set (map fst ctrs)" "rg_name (na_target z) = counter_name p" for z
  proof -
    obtain y' where y': "y' \<in> set ctrs" "z = fst y'" using z(1) by auto
    then obtain q where q: "q \<in> set (credit_ports m)" "credit_endpoint_counter digest m L rs q = Inr y'"
      using list_all2_ball [OF ctrs [unfolded mapE_Inr_all]] by blast
    obtain x' where x': "credit_register m q = Inr x'" "register_of rs (pt_name q) = Inr (snd x')"
      using register_of_ports [OF rs dist q(1)] by blast
    have "rg_name (snd x') = counter_name q" using credit_register_counter [OF x'(1)] by auto
    then have "counter_name q = counter_name p" using z(2) y'(2) endpoint_counter_target [OF q(2) x'(2)] by simp
    then have "q = p" using counter_name_inj dist p q(1) by (meson distinct_map inj_onD)
    then show ?thesis using q(2) y(2) y'(2) by simp
  qed
  then have "z = fst y" if "z \<in> set (md_next M)" "rg_name (na_target z) = counter_name p" for z
    using lowered_next_unique [OF nas old(1)] that M(1) by metis
  moreover have "z = snd x" if z: "z \<in> set (map snd rs)" "rg_name z = counter_name p" for z
  proof -
    obtain x' where x': "x' \<in> set rs" "z = snd x'" using z(1) by auto
    then obtain q where q: "q \<in> set (credit_ports m)" "credit_register m q = Inr x'"
      using list_all2_ball [OF rs [unfolded mapE_Inr_all]] by blast
    have "counter_name q = counter_name p" using z(2) x'(2) credit_register_counter [OF q(2)] by auto
    then have "q = p" using counter_name_inj dist p q(1) by (meson distinct_map inj_onD)
    then show ?thesis using q(2) x(1) x'(2) by simp
  qed
  then have "z = snd x" if "z \<in> set (md_registers M)" "rg_name z = counter_name p" for z
    using lowered_register_unique [OF ors(1) old(2)] that ors(2) by metis
  moreover have "snd x \<in> set (md_registers M)"
    using imageI [OF register_of_in [OF x(2)], of snd] ors(2) by simp
  moreover have "fst y \<in> set (md_next M)" using y(1) M(1) by auto
  moreover have "\<And>\<sigma>. is_bit \<sigma> sent \<and> is_bit \<sigma> ret"
  proof (cases "pt_direction p")
    case Input
    then show "\<And>\<sigma>. is_bit \<sigma> sent \<and> is_bit \<sigma> ret" using receiver_signals [OF L ep Input sent ret] by blast
  next
    case Output
    then show "\<And>\<sigma>. is_bit \<sigma> sent \<and> is_bit \<sigma> ret"
      using sender_signals(1,2) [OF L ep _ Output x(2) _ _ sent ret] r(3) p by (simp add: credit_ports_def endpoint_width_def)
  qed
  moreover have "den \<sigma> sent \<noteq> 0 \<Longrightarrow> den \<sigma> (register_read (snd x)) \<noteq> 0" if "pt_direction p = Output" for \<sigma>
    using sender_signals(3) [OF L ep _ that x(2) _ _ sent ret, where w = "endpoint_width c"] r(3) p
    by (simp add: credit_ports_def endpoint_width_def)
  moreover have "credit_signal_now m p CrSend ins regs = den (wire_env ins regs) sent"
    "credit_signal_now m p CrReturn ins regs = den (wire_env ins regs) ret" for ins regs
    by (simp_all add: credit_signal_now_def su sent ret)
  moreover have scope: "\<exists>s\<in>set (md_scopes M). check_scope s d (map snd conds)"
    using dom runtime_scope_Inr(2) [OF sc] y(1) M(2) by auto
  moreover have "\<exists>s\<in>set (md_scopes M). \<exists>cs. check_scope s d cs \<and> set (map snd conds) \<subseteq> set cs"
    using scope by (metis order_refl)
  moreover have "\<exists>msgs inc dec. credit_counter_update (snd x) sent ret c (pt_direction p) msgs inc dec = Inr (fst y, conds) \<and>
      (case inc of None \<Rightarrow> ret | Some e \<Rightarrow> e) = (if False then sent else ret) \<and>
      (case dec of None \<Rightarrow> sent | Some e \<Rightarrow> e) = (if False then ret else sent)"
    using u by (intro exI [of _ "credit_messages (pt_name p)"] exI [of _ None]) simp
  moreover have "rg_type (snd x) = UIntType (endpoint_width c)" "rg_domain (snd x) = Some d" "rg_name (snd x) = counter_name p"
    "initial_of (snd x) = Some (if pt_direction p = Output then c else 0)"
    unfolding r(3) initial_of_def by simp_all
  ultimately have "counter_parts m M p c d (snd x) sent ret (fst y) conds"
    unfolding counter_parts_def counter_in_def using c r(1,2) by metis
  then show ?thesis by blast
qed

section \<open>Edges and runs\<close>

text \<open>The runs of a lowered module with the flow of endpoint \<open>p\<close>.\<close>

abbreviation credit_run :: "module \<Rightarrow> module \<Rightarrow> port \<Rightarrow> valuation \<Rightarrow> int \<Rightarrow> bool" where
  "credit_run m M p \<equiv> flow_run M (owning_domain m p) (credit_signal_now m p CrSend) (credit_signal_now m p CrReturn)"

lemma credit_run_counter:
  assumes parts: "counter_parts m M p c d r sent ret na conds" and run: "credit_run m M p regs k"
  shows "flow_invariant (pt_direction p) False c (endpoint_width c) (regs (counter_name p)) k"
proof -
  have "flow_run M (Some d) (credit_signal_now m p CrSend) (credit_signal_now m p CrReturn) regs k"
    using run parts unfolding counter_parts_def by simp
  then show ?thesis
    using flow_run_invariant [of M d "pt_direction p" False c r sent ret na conds] parts unfolding counter_parts_def by metis
qed

lemma counter_parts_capacity: "counter_parts m M p c d r sent ret na conds \<Longrightarrow> 1 \<le> c"
  unfolding counter_parts_def counter_in_def by blast

section \<open>Properties\<close>

text \<open>
  C19: lowering a scalar expression of a module with credit endpoints removes every credit
  reference and keeps the type and the value, in every environment where each reference has the
  value the credit protocol gives it (a sender sends when it asks to and has a credit, nothing
  moves in reset).
\<close>

theorem credit_lowering_sound:
  assumes "credit_setup m = Inr (regs, L)"
    and "scalar_drivers L (credit_type (credit_ports m) regs)"
    and "consistent L (credit_type (credit_ports m) regs) (credit_gate m (credit_ports m) regs) \<sigma>"
    and "scalar_source L (credit_type (credit_ports m) regs) e" and "lower L {} e = Inr e'"
  shows "free_of credit_ref e' \<and> typed_scalar e' \<and> type_of e' = type_of e \<and> den \<sigma> e' = den \<sigma> e"
proof -
  obtain drivers where L: "L = credit_lowering m (credit_ports m) regs drivers"
    and regs: "mapE (credit_register m) (credit_ports m) = Inr regs"
    using assms(1) by (auto simp: credit_setup_def)
  have "unsigned_registers regs"
    using list_all2_ball [OF regs [unfolded mapE_Inr_all]] endpoint_width_pos
    by (fastforce simp: unsigned_registers_def dest: credit_register_counter)
  then have ready: "credit_ready (credit_ports m) regs" by (simp add: credit_ready_def credit_ports_def)
  have "free_of credit_ref e'"
    using credit.lower_free [of m "credit_ports m" regs drivers "{}" e e'] assms(5) by (simp add: L credit_lowering_def)
  moreover have "typed_scalar e' \<and> type_of e' = type_of e \<and> den \<sigma> e' = den \<sigma> e"
    using credit.lower_sound [OF ready] assms(2-5) unfolding L by blast
  ultimately show ?thesis by blast
qed

text \<open>
  C15: in every run of a lowered module the credit counter of a sender is the capacity less the
  transfers that have not been returned, and these never exceed the capacity.
\<close>

theorem credit_sender_conserves:
  assumes "lower_credit_module digest m = Inr M" "credit_names_fresh m" "p \<in> set (credit_ports m)"
    and "pt_direction p = Output" "pt_capacity p = Some c" "credit_run m M p regs k"
  shows "regs (counter_name p) = c - k \<and> 0 \<le> k \<and> k \<le> c"
proof -
  obtain c' d r sent ret na conds where parts: "counter_parts m M p c' d r sent ret na conds"
    using credit_counter_parts [OF assms(1-3)] by blast
  then have "c' = c" using assms(5) unfolding counter_parts_def by simp
  then show ?thesis using credit_run_counter [OF parts assms(6)] assms(4) by (simp add: flow_invariant_def)
qed

text \<open>
  C38: the counter of a receiver holds the negated number of transfers that have not been
  returned, modulo its range, and at most \<open>2 ^ w - c\<close> of them are ever accepted, where \<open>w\<close> is the
  width of the counter: the capacity itself only when it is a power of two.
\<close>

theorem credit_receiver_counts_down:
  assumes "lower_credit_module digest m = Inr M" "credit_names_fresh m" "p \<in> set (credit_ports m)"
    and "pt_direction p = Input" "pt_capacity p = Some c" "credit_run m M p regs k"
  shows "regs (counter_name p) = (- k) mod 2 ^ endpoint_width c \<and> 0 \<le> k \<and> k \<le> 2 ^ endpoint_width c - c"
proof -
  obtain c' d r sent ret na conds where parts: "counter_parts m M p c' d r sent ret na conds"
    using credit_counter_parts [OF assms(1-3)] by blast
  then have "c' = c" using assms(5) unfolding counter_parts_def by simp
  then show ?thesis using credit_run_counter [OF parts assms(6)] assms(4) by (simp add: flow_invariant_def)
qed

text \<open>
  C17: a receiver that holds \<open>2 ^ w - c\<close> transfers rejects the next one, although that is below
  the capacity whenever the capacity is not a power of two.
\<close>

theorem credit_receiver_rejects_early:
  assumes "lower_credit_module digest m = Inr M" "credit_names_fresh m" "p \<in> set (credit_ports m)"
    and "pt_direction p = Input" "pt_capacity p = Some c" "credit_run m M p regs k"
    and "k = 2 ^ endpoint_width c - c" "owning_domain m p = Some d" "\<not> reset_active M ins d"
    and "credit_signal_now m p CrSend ins regs = 1" "credit_signal_now m p CrReturn ins regs = 0"
  shows "\<not> clock_edge M d ins regs regs' \<and> (k < c \<longleftrightarrow> c \<noteq> 2 ^ (endpoint_width c - 1))"
proof -
  obtain c' d' r sent ret na conds where parts: "counter_parts m M p c' d' r sent ret na conds"
    using credit_counter_parts [OF assms(1-3)] by blast
  then have eq: "c' = c" "d' = d" and c: "1 \<le> c"
    using assms(5,8) counter_parts_capacity [OF parts] by (auto simp: counter_parts_def)
  have "regs (counter_name p) = (- k) mod 2 ^ endpoint_width c"
    using credit_run_counter [OF parts assms(6)] assms(4) eq by (simp add: flow_invariant_def)
  then have "regs (counter_name p) mod 2 ^ endpoint_width c = c"
    using negated_mod [of k "endpoint_width c"] capacity_bits [OF c] assms(7) c by simp
  then have no: "\<not> counter_step Input False c (endpoint_width c) (regs (counter_name p)) 1 0 q" for q
    by (simp add: counter_step_def)
  have "\<not> clock_edge M d ins regs regs'"
  proof
    assume "clock_edge M d ins regs regs'"
    from counter_edge(3) [OF _ this, of d' "pt_direction p" False c' r sent ret na conds] assms(9)
    have "counter_step (pt_direction p) False c (endpoint_width c) (regs (counter_name p))
        (credit_signal_now m p CrSend ins regs) (credit_signal_now m p CrReturn ins regs) (regs' (counter_name p))"
      using parts unfolding eq counter_parts_def by metis
    then show False using no unfolding assms(4,10,11) by blast
  qed
  moreover define X :: int where "X = 2 ^ (endpoint_width c - 1)"
  have "k = 2 * X - c" "c < 2 * X" "2 * X \<le> 2 * c"
    using assms(7) capacity_bits [OF c] width_double [of c] unfolding X_def by linarith+
  then have "k < c \<longleftrightarrow> c \<noteq> X" by linarith
  ultimately show ?thesis unfolding X_def by blast
qed

section \<open>Draining\<close>

lemma sole_scope:
  assumes "lower_credit_module digest m = Inr M" "credit_ports m = [p]" "md_scopes m = []"
    and parts: "counter_parts m M p c d r sent ret na conds"
  shows "checks_hold M d ins regs \<longleftrightarrow> reset_active M ins d \<or> (\<forall>e\<in>set (map snd conds). den (wire_env ins regs) e \<noteq> 0)"
proof -
  obtain s where s: "md_scopes M = [s]"
    using assms(1-3) by (auto simp: lower_credit_module_def finalize_module_def)
  then have "check_scope s d (map snd conds)" using parts by (auto simp: counter_parts_def)
  from this check_scope_goals [OF this] show ?thesis
    using s unfolding checks_hold_def by (auto simp: check_scope_def)
qed

lemma drain_edge:
  assumes low: "lower_credit_module digest m = Inr M" "credit_ports m = [p]" "md_scopes m = []"
    and parts: "counter_parts m M p c d r sent ret na conds" and dir: "pt_direction p = Output"
    and run: "credit_run m M p regs k" "0 < k" and quiet: "\<not> reset_active M ins d"
      "credit_signal_now m p CrSend ins regs = 0" "credit_signal_now m p CrReturn ins regs = 1"
  shows "clock_edge M d ins regs (after_edge M d ins regs) \<and> credit_run m M p (after_edge M d ins regs) (k - 1)"
proof -
  let ?\<sigma> = "wire_env ins regs"
  note P = parts [unfolded counter_parts_def counter_in_def]
  have bits: "is_bit ?\<sigma> sent" "is_bit ?\<sigma> ret" and od: "owning_domain m p = Some d" and c: "1 \<le> c" using P by blast+
  obtain msgs inc dec where u: "credit_counter_update r sent ret c (pt_direction p) msgs inc dec = Inr (na, conds)" using P by blast
  have q: "regs (counter_name p) = c - k" "k \<le> c" using credit_run_counter [OF parts run(1)] dir by (simp_all add: flow_invariant_def)
  have r: "rg_type r = UIntType (endpoint_width c)" "rg_name r = counter_name p" using P by blast+
  have "den ?\<sigma> (register_read r) = c - k"
    using den_register_read [OF r(1), of ins regs] q r(2) run(2) capacity_bits(1) [OF c] by simp
  then have "\<forall>e\<in>set (map snd conds). den ?\<sigma> e \<noteq> 0"
    unfolding counter_update_checks [OF u bits] using dir run(2) by simp
  then have edge: "clock_edge M d ins regs (after_edge M d ins regs)"
    using sole_scope [OF low parts] by (intro clock_edge.edge) blast
  moreover have "credit_run m M p (after_edge M d ins regs) (k - 1)"
    by (rule flow_run.ticks [OF run(1) edge]) (use od quiet in simp)
  ultimately show ?thesis by blast
qed

text \<open>
  C39: a sender never gets stuck.  The sender is the only credit endpoint of its module and the
  module has no verification scopes of its own, so that the checks of the sender are the only
  ones; no register of the source module has the private name of a counter.  From every run of
  such a module, under inputs that keep reset inactive, ask for no
  transfer and return one credit in every cycle, no check fails and after as many edges as there
  are outstanding transfers all credits are back.
\<close>

theorem credit_sender_drains:
  assumes "lower_credit_module digest m = Inr M" "credit_names_fresh m" "credit_ports m = [p]" "md_scopes m = []"
    and "pt_direction p = Output" "pt_capacity p = Some c" "owning_domain m p = Some d"
    and "\<not> reset_active M ins d" "\<And>r. credit_signal_now m p CrSend ins r = 0" "\<And>r. credit_signal_now m p CrReturn ins r = 1"
    and "credit_run m M p regs k"
  shows "\<exists>regs'. (clock_edge M d ins ^^ nat k) regs regs' \<and> credit_run m M p regs' 0 \<and> regs' (counter_name p) = c"
proof -
  have "p \<in> set (credit_ports m)" using assms(3) by simp
  then obtain c' d' r sent ret na conds where parts: "counter_parts m M p c' d' r sent ret na conds"
    using credit_counter_parts [OF assms(1,2)] by blast
  then have eq: "c' = c" "d' = d" using assms(6,7) by (auto simp: counter_parts_def)
  have "\<exists>regs'. (clock_edge M d ins ^^ n) regs regs' \<and> credit_run m M p regs' 0"
    if "credit_run m M p regs k" "nat k = n" for n regs k
    using that
  proof (induction n arbitrary: regs k)
    case 0
    then have "k = 0" using credit_run_counter [OF parts 0(1)] assms(5) by (simp add: flow_invariant_def)
    then show ?case using 0(1) by auto
  next
    case (Suc n)
    let ?after = "after_edge M d ins regs"
    have "0 < k" "nat (k - 1) = n" using Suc.prems(2) by auto
    then have "clock_edge M d ins regs ?after" "credit_run m M p ?after (k - 1)"
      using drain_edge [OF assms(1,3,4) parts assms(5) Suc.prems(1) _ _ assms(9,10), unfolded eq] assms(8) by blast+
    then show ?case using Suc.IH [of ?after "k - 1"] \<open>nat (k - 1) = n\<close> by (meson relpowp_Suc_I2)
  qed
  then obtain regs' where "(clock_edge M d ins ^^ nat k) regs regs'" "credit_run m M p regs' 0"
    using assms(11) by blast
  then show ?thesis using credit_run_counter [OF parts, of regs' 0] assms(5) eq by (auto simp: flow_invariant_def)
qed

section \<open>Two endpoints of capacity three\<close>

definition credit_port :: "port_direction \<Rightarrow> string \<Rightarrow> int \<Rightarrow> port" where
  "credit_port dir n c = \<lparr>pt_direction = dir, pt_name = n, pt_type = UIntType 8, pt_protocol = Credit,
     pt_capacity = Some c, pt_domain = None, pt_channels = None\<rparr>"

definition source_module :: module where
  "source_module = leaf_module ''Source'' [wire_input ''request'', credit_port Output ''tx'' 3]
     [\<lparr>as_target = ToPort (credit_port Output ''tx'' 3), as_expression = EConst 5 (UIntType 8), as_signal = Some (CreditSignal CrPayload)\<rparr>,
      \<lparr>as_target = ToPort (credit_port Output ''tx'' 3), as_expression = ERead InputRead ''request'' BitType, as_signal = Some (CreditSignal CrSend)\<rparr>]"

definition sink_module :: module where
  "sink_module = leaf_module ''Sink'' [wire_input ''release'', credit_port Input ''rx'' 3]
     [\<lparr>as_target = ToPort (credit_port Input ''rx'' 3), as_expression = ERead InputRead ''release'' BitType, as_signal = Some (CreditSignal CrReturn)\<rparr>]"

definition lowered :: "module \<Rightarrow> module" where
  "lowered m = projr (lower_credit_module (\<lambda>t. t) m)"

lemma source_lowers: "lower_credit_module (\<lambda>t. t) source_module = Inr (lowered source_module)"
  by code_simp

lemma sink_lowers: "lower_credit_module (\<lambda>t. t) sink_module = Inr (lowered sink_module)"
  by code_simp

lemma source_run: "credit_run source_module (lowered source_module) (credit_port Output ''tx'' 3)
    (after_edge (lowered source_module) ''clk'' (high [''request'']) (\<lambda>_. 3)) 1"
proof (rule flow_run.ticks)
  show "credit_run source_module (lowered source_module) (credit_port Output ''tx'' 3) (\<lambda>_. 3) 0"
    by (rule flow_run.begins) code_simp
  show "clock_edge (lowered source_module) ''clk'' (high [''request'']) (\<lambda>_. 3)
      (after_edge (lowered source_module) ''clk'' (high [''request'']) (\<lambda>_. 3))"
    by (rule clock_edge.edge) code_simp
qed code_simp

lemma sink_run: "credit_run sink_module (lowered sink_module) (credit_port Input ''rx'' 3)
    (after_edge (lowered sink_module) ''clk'' (high [''$zlang_protocol:rx:send'']) (\<lambda>_. 0)) 1"
proof (rule flow_run.ticks)
  show "credit_run sink_module (lowered sink_module) (credit_port Input ''rx'' 3) (\<lambda>_. 0) 0"
    by (rule flow_run.begins) code_simp
  show "clock_edge (lowered sink_module) ''clk'' (high [''$zlang_protocol:rx:send'']) (\<lambda>_. 0)
      (after_edge (lowered sink_module) ''clk'' (high [''$zlang_protocol:rx:send'']) (\<lambda>_. 0))"
    by (rule clock_edge.edge) code_simp
qed code_simp

theorem credit_sender_conserves_witness:
  "after_edge (lowered source_module) ''clk'' (high [''request'']) (\<lambda>_. 3) (counter_name (credit_port Output ''tx'' 3)) = 3 - 1
    \<and> (0::int) \<le> 1 \<and> (1::int) \<le> 3"
  by (rule credit_sender_conserves [OF source_lowers _ _ _ _ source_run]) code_simp+

theorem credit_receiver_counts_down_witness:
  "after_edge (lowered sink_module) ''clk'' (high [''$zlang_protocol:rx:send'']) (\<lambda>_. 0) (counter_name (credit_port Input ''rx'' 3))
      = (- 1) mod 2 ^ endpoint_width 3 \<and> (0::int) \<le> 1 \<and> 1 \<le> 2 ^ endpoint_width 3 - (3::int)"
  by (rule credit_receiver_counts_down [OF sink_lowers _ _ _ _ sink_run]) code_simp+

theorem credit_receiver_rejects_early_witness:
  "\<forall>regs'. \<not> clock_edge (lowered sink_module) ''clk'' (high [''$zlang_protocol:rx:send''])
      (after_edge (lowered sink_module) ''clk'' (high [''$zlang_protocol:rx:send'']) (\<lambda>_. 0)) regs'
    \<and> ((1::int) < 3 \<longleftrightarrow> (3::int) \<noteq> 2 ^ (endpoint_width 3 - 1))"
  by (rule allI, rule credit_receiver_rejects_early [OF sink_lowers _ _ _ _ sink_run]) code_simp+


lemma source_signals:
  "credit_signal_now source_module (credit_port Output ''tx'' 3) CrSend ins r =
     den (wire_env ins r) (bit_binary OpBitAnd (bit_not (ERead InputRead ''$reset:rst'' BitType))
       (bit_binary OpBitAnd (ERead InputRead ''request'' BitType)
         (EBinary OpNotEqual (ERead RegisterRead ''$zlang_protocol_credit:tx:credits'' (UIntType 2)) (EConst 0 (UIntType 2))
           (UIntType 2) BitType)))"
  "credit_signal_now source_module (credit_port Output ''tx'' 3) CrReturn ins r =
     den (wire_env ins r) (ERead InputRead ''$zlang_protocol:tx:return'' BitType)"
proof -
  have "is_ok (credit_setup source_module)" by code_simp
  then obtain rs L where su: "credit_setup source_module = Inr (rs, L)" by (auto simp: is_ok_iff)
  have "L = snd (projr (credit_setup source_module))" using su by simp
  moreover have "lower_signal (snd (projr (credit_setup source_module))) {} (pt_name (credit_port Output ''tx'' 3)) (CreditSignal CrSend) =
      Inr (bit_binary OpBitAnd (bit_not (ERead InputRead ''$reset:rst'' BitType))
       (bit_binary OpBitAnd (ERead InputRead ''request'' BitType)
         (EBinary OpNotEqual (ERead RegisterRead ''$zlang_protocol_credit:tx:credits'' (UIntType 2)) (EConst 0 (UIntType 2))
           (UIntType 2) BitType)))"
    "lower_signal (snd (projr (credit_setup source_module))) {} (pt_name (credit_port Output ''tx'' 3)) (CreditSignal CrReturn) =
      Inr (ERead InputRead ''$zlang_protocol:tx:return'' BitType)"
    by code_simp+
  ultimately show "credit_signal_now source_module (credit_port Output ''tx'' 3) CrSend ins r =
     den (wire_env ins r) (bit_binary OpBitAnd (bit_not (ERead InputRead ''$reset:rst'' BitType))
       (bit_binary OpBitAnd (ERead InputRead ''request'' BitType)
         (EBinary OpNotEqual (ERead RegisterRead ''$zlang_protocol_credit:tx:credits'' (UIntType 2)) (EConst 0 (UIntType 2))
           (UIntType 2) BitType)))"
    "credit_signal_now source_module (credit_port Output ''tx'' 3) CrReturn ins r =
     den (wire_env ins r) (ERead InputRead ''$zlang_protocol:tx:return'' BitType)"
    unfolding credit_signal_now_def su by (simp_all del: den.simps)
qed

theorem credit_sender_drains_witness:
  "\<exists>regs'. (clock_edge (lowered source_module) ''clk'' (high [''$zlang_protocol:tx:return'']) ^^ nat 1)
      (after_edge (lowered source_module) ''clk'' (high [''request'']) (\<lambda>_. 3)) regs' \<and>
    credit_run source_module (lowered source_module) (credit_port Output ''tx'' 3) regs' 0 \<and>
    regs' (counter_name (credit_port Output ''tx'' 3)) = 3"
proof (rule credit_sender_drains [OF source_lowers _ _ _ _ _ _ _ _ _ source_run])
  fix r
  show "credit_signal_now source_module (credit_port Output ''tx'' 3) CrSend (high [''$zlang_protocol:tx:return'']) r = 0"
    unfolding source_signals by (simp add: bit_binary_def represent_bit binary_value_def high_def)
  show "credit_signal_now source_module (credit_port Output ''tx'' 3) CrReturn (high [''$zlang_protocol:tx:return'']) r = 1"
    unfolding source_signals by (simp add: represent_bit high_def)
qed code_simp+

text \<open>An environment in which the references of the source module have their protocol values.\<close>

fun source_env :: "hw_expr \<Rightarrow> int" where
  "source_env (ECredit n s t) = (case s of CrPayload \<Rightarrow> 5 | CrReturn \<Rightarrow> 0 | CrCredits \<Rightarrow> 3 | _ \<Rightarrow> 1)"
| "source_env e = wire_env (high [''request'']) (\<lambda>_. 3) e"

definition source_regs :: "(string \<times> register) list" where
  "source_regs = fst (projr (credit_setup source_module))"

definition source_lowering :: lowering where
  "source_lowering = snd (projr (credit_setup source_module))"

definition source_type :: "signal_key \<Rightarrow> hwtype" where
  "source_type = credit_type (credit_ports source_module) source_regs"

definition source_gate :: "(hw_expr \<Rightarrow> int) \<Rightarrow> signal_key \<Rightarrow> int list \<Rightarrow> int" where
  "source_gate = credit_gate source_module (credit_ports source_module) source_regs"

lemma source_setup: "credit_setup source_module = Inr (source_regs, source_lowering)"
proof -
  have "is_ok (credit_setup source_module)" by code_simp
  then show ?thesis by (auto simp: is_ok_iff source_regs_def source_lowering_def)
qed

lemma source_drivers: "scalar_drivers source_lowering source_type"
  by code_simp

definition source_needs :: "credit_signal \<Rightarrow> signal_key list" where
  "source_needs s = (if s \<in> {CrPayload, CrSend, CrTransfer} then [(''tx'', transfer_is_send (CreditSignal s))] else [])"

lemma source_needs_resolve:
  "lw_resolve source_lowering ''tx'' (CreditSignal s) = Inr r \<Longrightarrow> fst r = source_needs s"
proof -
  have "map_sum id fst (lw_resolve source_lowering ''tx'' (CreditSignal s)) = Inr (source_needs s)"
    by (cases s; simp only:; code_simp)
  then show "lw_resolve source_lowering ''tx'' (CreditSignal s) = Inr r \<Longrightarrow> fst r = source_needs s" by simp
qed

lemma source_value:
  "den source_env (ECredit ''tx'' s (source_type (''tx'', CreditSignal s))) =
    source_gate source_env (''tx'', CreditSignal s)
      (map (\<lambda>d. den source_env (the (map_of (lw_producers source_lowering) d))) (source_needs s))"
  by (cases s; simp only:; code_simp)

lemma source_consistent: "consistent source_lowering source_type source_gate source_env"
  unfolding consistent_def
proof (intro allI impI)
  fix x k r srcs
  assume ref: "lw_ref source_lowering x = Some k" and ty: "type_of x = source_type k"
    and res: "lw_resolve source_lowering (fst k) (snd k) = Inr r"
    and srcs: "list_all2 (\<lambda>d src. map_of (lw_producers source_lowering) d = Some src) (fst r) srcs"
  have low: "lw_ref source_lowering = credit_ref" "lw_resolve source_lowering = credit_resolve source_module (credit_ports source_module) source_regs"
  proof -
    obtain drivers where "credit_lowering source_module (credit_ports source_module) source_regs drivers = source_lowering"
      using source_setup by (auto simp: credit_setup_def)
    then have eq: "source_lowering = credit_lowering source_module (credit_ports source_module) source_regs drivers" ..
    show "lw_ref source_lowering = credit_ref"
      "lw_resolve source_lowering = credit_resolve source_module (credit_ports source_module) source_regs"
      unfolding eq credit_lowering_def by (rule lowering.select_convs)+
  qed
  obtain n s t where x: "x = ECredit n s t" "k = (n, CreditSignal s)" using ref unfolding low(1) by (cases x) auto
  have "credit_ports source_module = [credit_port Output ''tx'' 3]" by code_simp
  moreover obtain p where "endpoint_port (credit_ports source_module) n = Inr p"
    using res x(2) unfolding low(2) by (auto simp: credit_resolve_def)
  ultimately have n: "n = ''tx''" using endpoint_port_name by (fastforce simp: credit_port_def)
  have "fst r = source_needs s" using source_needs_resolve res x(2) n by simp
  then have "srcs = map (\<lambda>d. the (map_of (lw_producers source_lowering) d)) (source_needs s)"
    using srcs by (intro nth_equalityI) (auto simp: list_all2_conv_all_nth)
  then show "den source_env x = source_gate source_env k (map (den source_env) srcs)"
    using source_value [of s] ty x n by (simp del: den.simps add: comp_def)
qed

definition source_read :: hw_expr where
  "source_read = EMux (ECredit ''tx'' CrTransfer BitType) (ECredit ''tx'' CrCredits (UIntType 2)) (EConst 0 (UIntType 2)) (UIntType 2)"

theorem credit_lowering_sound_witness:
  "free_of credit_ref (projr (lower source_lowering {} source_read)) \<and> typed_scalar (projr (lower source_lowering {} source_read)) \<and>
    type_of (projr (lower source_lowering {} source_read)) = type_of source_read \<and>
    den source_env (projr (lower source_lowering {} source_read)) = den source_env source_read"
proof (rule credit_lowering_sound [OF source_setup])
  show "scalar_source source_lowering (credit_type (credit_ports source_module) source_regs) source_read"
    unfolding scalar_source_def by code_simp
  show "lower source_lowering {} source_read = Inr (projr (lower source_lowering {} source_read))" by code_simp
qed (use source_drivers source_consistent in \<open>simp_all add: source_type_def source_gate_def\<close>)

end
