(* ===== verification/Vc_Credit.thy ===== *)
theory Vc_Credit
  imports Credit
begin

text \<open>
  Credit flow control over virtual channels (\<^verbatim>\<open>zlang/simulation_vc_credit.py\<close>).  An endpoint has
  one counter per channel; a transfer and a return each name the channel they are for.  The
  lowering gates a sender with the counter of the channel it names, and updates the counter of
  each channel with the transfers and returns that name it.

  As for plain credits, the resolution of a signal obeys \<open>endpoint_rules\<close>.
\<close>

section \<open>Channels\<close>

type_synonym channel_registers = "(string \<times> register list) list"

fun vc_ref :: "hw_expr \<Rightarrow> signal_key option" where
  "vc_ref (EVcCredit n s t) = Some (n, VcSignal s)"
| "vc_ref _ = None"

fun vc_transfer_is_send :: "scalar_signal \<Rightarrow> scalar_signal" where
  "vc_transfer_is_send (VcSignal VcTransfer) = VcSignal VcSend"
| "vc_transfer_is_send s = s"

definition channel_match :: "hw_expr \<Rightarrow> port \<Rightarrow> nat \<Rightarrow> proto_error + hw_expr" where
  "channel_match sel p k = bindE (vc_credit_channel_type p) (\<lambda>t.
     Inr (EBinary OpEqual sel (EConst (int k) t) t BitType))"

definition registers_of :: "channel_registers \<Rightarrow> string \<Rightarrow> proto_error + register list" where
  "registers_of regs n = (case map_of (rev regs) n of None \<Rightarrow> Inl (UnknownEndpoint n) | Some rs \<Rightarrow> Inr rs)"

text \<open>
  The counter of the selected channel: a chain of multiplexers over the channels from 1 on, with
  the counter of channel 0 as the default.  \<open>NoCounters\<close> is the index error of an empty tuple.
\<close>

definition select_channel :: "port \<Rightarrow> hw_expr \<Rightarrow> nat \<times> register \<Rightarrow> hw_expr \<Rightarrow> proto_error + hw_expr" where
  "select_channel p sel c selected = bindE (channel_match sel p (fst c)) (\<lambda>m.
     Inr (EMux m (register_read (snd c)) selected (rg_type (snd c))))"

definition selected_count :: "port \<Rightarrow> register list \<Rightarrow> hw_expr \<Rightarrow> proto_error + hw_expr" where
  "selected_count p rs sel = (case rs of [] \<Rightarrow> Inl (NoCounters (pt_name p))
     | r # rs' \<Rightarrow> foldE (select_channel p sel) (enumerate 1 rs') (register_read r))"

definition count_vector :: "port \<Rightarrow> register list \<Rightarrow> proto_error + hw_expr" where
  "count_vector p rs = (case rs of [] \<Rightarrow> Inl (NoCounters (pt_name p))
     | r # rs' \<Rightarrow> Inr (EVecConcat (map register_read rs) (VecType (length rs) (rg_type r))))"

section \<open>Resolving a signal\<close>

definition vc_field_type :: "port \<Rightarrow> scalar_signal \<Rightarrow> proto_error + hwtype" where
  "vc_field_type p s = (if s = VcSignal VcPayload then Inr (pt_type p)
     else if s \<in> {VcSignal VcChannel, VcSignal VcReturnChannel} then vc_credit_channel_type p else Inr BitType)"

definition vc_external :: "module \<Rightarrow> port \<Rightarrow> scalar_signal \<Rightarrow> proto_error + hw_expr" where
  "vc_external m p s = bindE (vc_field_type p s) (\<lambda>t.
     let v = ERead InputRead (protocol_field_name (pt_name p) (signal_value s)) t in
     if pt_direction p = Input \<and> s = VcSignal VcSend
     then bindE (reset_deasserted m p) (\<lambda>r. Inr (bit_binary OpBitAnd r v)) else Inr v)"

text \<open>\<open>sel\<close> is the lowered channel of the endpoint, which only a sender's \<open>send\<close> needs.\<close>

definition vc_driven ::
    "module \<Rightarrow> channel_registers \<Rightarrow> port \<Rightarrow> scalar_signal \<Rightarrow> hw_expr \<Rightarrow> hw_expr \<Rightarrow> proto_error + hw_expr" where
  "vc_driven m regs p s request sel =
     (if pt_direction p = Output \<and> s = VcSignal VcSend
      then bindE (registers_of regs (pt_name p)) (\<lambda>rs. bindE (selected_count p rs sel) (\<lambda>count.
        bindE (reset_deasserted m p) (\<lambda>r. Inr (bit_binary OpBitAnd r (bit_binary OpBitAnd request
          (EBinary OpNotEqual count (EConst 0 (type_of count)) (type_of count) BitType))))))
      else if pt_direction p = Input \<and> s = VcSignal VcReturn
      then bindE (reset_deasserted m p) (\<lambda>r. Inr (bit_binary OpBitAnd r request))
      else Inr request)"

definition vc_needs :: "port \<Rightarrow> string \<Rightarrow> scalar_signal \<Rightarrow> signal_key list" where
  "vc_needs p n s = (n, s) # (if pt_direction p = Output \<and> s = VcSignal VcSend then [(n, VcSignal VcChannel)] else [])"

definition vc_resolve ::
    "module \<Rightarrow> port list \<Rightarrow> channel_registers \<Rightarrow> string \<Rightarrow> scalar_signal \<Rightarrow> proto_error + resolution" where
  "vc_resolve m ps regs n s0 = bindE (endpoint_port ps n) (\<lambda>p. let s = vc_transfer_is_send s0 in
     if s = VcSignal VcCredits then
       (if pt_direction p \<noteq> Output then Inl (NoSenderCredits n)
        else bindE (registers_of regs n) (\<lambda>rs. Inr ([], \<lambda>_. count_vector p rs)))
     else bindE (protocol_scalar_field p s) (\<lambda>f.
       if snd (snd f) then Inr ([], \<lambda>_. vc_external m p s)
       else Inr (vc_needs p n s, \<lambda>xs. vc_driven m regs p s (hd xs) (last xs))))"

definition vc_lowering ::
    "module \<Rightarrow> port list \<Rightarrow> channel_registers \<Rightarrow> (signal_key \<times> hw_expr) list \<Rightarrow> lowering" where
  "vc_lowering m ps regs drivers =
     \<lparr>lw_ref = vc_ref, lw_resolve = vc_resolve m ps regs, lw_producers = drivers\<rparr>"

section \<open>Lowering a module\<close>

definition vc_registers :: "module \<Rightarrow> port \<Rightarrow> proto_error + (string \<times> register list)" where
  "vc_registers m p = (case pt_channels p of
       None \<Rightarrow> Inl (NoChannelCount (pt_name p))
     | Some n \<Rightarrow> if n < 1 then Inl (NoChannelCount (pt_name p))
         else bindE (credit_counter_spec m p) (\<lambda>(t, d, kind, init).
           Inr (pt_name p, map (\<lambda>k. \<lparr>rg_name = vc_credit_state_name (pt_name p) kind k, rg_type = t,
             rg_initial = Some (EConst init t), rg_domain = Some d\<rparr>) [0..<nat n])))"

definition count_field :: "port \<Rightarrow> string" where
  "count_field p = (if pt_direction p = Output then vc_value VcCredits else ''occupancy'')"

definition vc_scalar_ports :: "channel_registers \<Rightarrow> port \<Rightarrow> port list \<Rightarrow> proto_error + port list" where
  "vc_scalar_ports regs p acc = bindE (add_protocol_endpoint p acc) (\<lambda>ps.
     bindE (registers_of regs (pt_name p)) (\<lambda>rs. bindE (count_vector p rs) (\<lambda>v.
       Inr (ps @ [wire_port Output (protocol_field_name (pt_name p) (count_field p)) (type_of v) (pt_domain p)]))))"

definition vc_assignments :: "channel_registers \<Rightarrow> lowering \<Rightarrow> port list \<Rightarrow> port \<Rightarrow> proto_error + assignment list" where
  "vc_assignments regs L scalars p = bindE (protocol_scalar_fields p) (\<lambda>fs.
     bindE (mapE (\<lambda>s. bindE (lower_signal L {} (pt_name p) s) (\<lambda>e.
         scalar_assignment scalars (protocol_field_name (pt_name p) (signal_value s)) e))
       (map fst (filter (\<lambda>f. \<not> snd (snd f)) fs))) (\<lambda>as.
     bindE (registers_of regs (pt_name p)) (\<lambda>rs. bindE (count_vector p rs) (\<lambda>v.
     bindE (scalar_assignment scalars (protocol_field_name (pt_name p) (count_field p)) v) (\<lambda>a. Inr (as @ [a]))))))"

definition vc_messages :: "string \<Rightarrow> nat \<Rightarrow> messages" where
  "vc_messages n k = (let text = \<lambda>kind. ''vc_credit interface '' @ [CHR 0x27] @ n @ [CHR 0x27] @ kind @ decimal k in
     (text '' overflow on VC '', text '' underflow on VC '', text '' overflow on VC ''))"

text \<open>The counter of one channel: \<open>sent\<close> and \<open>returned\<close> with the channels they name.\<close>

definition vc_channel_counter ::
    "port \<Rightarrow> int \<Rightarrow> hw_expr \<Rightarrow> hw_expr \<Rightarrow> hw_expr \<Rightarrow> hw_expr \<Rightarrow> nat \<times> register \<Rightarrow>
      proto_error + (next_assignment \<times> (string \<times> hw_expr) list)" where
  "vc_channel_counter p capacity sent returned vc return_vc c =
     bindE (channel_match vc p (fst c)) (\<lambda>m1. bindE (channel_match return_vc p (fst c)) (\<lambda>m2.
       let here = bit_binary OpBitAnd sent m1; back = bit_binary OpBitAnd returned m2 in
       credit_counter_update (snd c) here back capacity (pt_direction p) (vc_messages (pt_name p) (fst c))
         (Some (if pt_direction p = Output then back else here))
         (Some (if pt_direction p = Output then here else back))))"

definition vc_endpoint_counters ::
    "(string \<Rightarrow> string) \<Rightarrow> module \<Rightarrow> lowering \<Rightarrow> channel_registers \<Rightarrow> port \<Rightarrow> proto_error + (next_assignment list \<times> scope)" where
  "vc_endpoint_counters digest m L regs p =
     bindE (lower_signal L {} (pt_name p) (VcSignal VcSend)) (\<lambda>sent.
     bindE (lower_signal L {} (pt_name p) (VcSignal VcReturn)) (\<lambda>returned.
     bindE (lower_signal L {} (pt_name p) (VcSignal VcChannel)) (\<lambda>vc.
     bindE (lower_signal L {} (pt_name p) (VcSignal VcReturnChannel)) (\<lambda>return_vc.
     bindE (registers_of regs (pt_name p)) (\<lambda>rs.
     bindE (case pt_capacity p of None \<Rightarrow> Inl (NoCapacity (pt_name p))
         | Some c \<Rightarrow> mapE (vc_channel_counter p c sent returned vc return_vc) (enumerate 0 rs)) (\<lambda>us.
     bindE (runtime_protocol_scope digest m p (concat (map snd us))) (\<lambda>s. Inr (map fst us, s))))))))"

definition vc_ports :: "module \<Rightarrow> port list" where
  "vc_ports m = filter (\<lambda>p. pt_protocol p = VcCredit) (md_ports m)"

definition vc_setup :: "module \<Rightarrow> proto_error + (channel_registers \<times> lowering)" where
  "vc_setup m = bindE (validate_leaf m VcCredit) (\<lambda>_.
     bindE (endpoint_producers VcCredit [VcSignal VcTransfer, VcSignal VcCredits] (md_assignments m)) (\<lambda>drivers.
     bindE (mapE (vc_registers m) (vc_ports m)) (\<lambda>regs.
       Inr (regs, vc_lowering m (vc_ports m) regs drivers))))"

definition lower_vc_credit_module :: "(string \<Rightarrow> string) \<Rightarrow> module \<Rightarrow> proto_error + module" where
  "lower_vc_credit_module digest m = (if vc_ports m = [] then Inr m
     else bindE (vc_setup m) (\<lambda>(regs, L).
       bindE (foldE (vc_scalar_ports regs) (vc_ports m) (retained_wires m)) (\<lambda>scalars.
       bindE (retained_wire_assignments L m) (\<lambda>wires.
       bindE (mapE (vc_assignments regs L scalars) (vc_ports m)) (\<lambda>fields.
       bindE (mapE (lower_next L) (md_next m)) (\<lambda>nas.
       bindE (mapE (vc_endpoint_counters digest m L regs) (vc_ports m)) (\<lambda>counters.
       bindE (mapE (lower_register L) (md_registers m)) (\<lambda>rs.
       bindE (mapE (lower_scope L) (md_scopes m)) (\<lambda>scs.
         finalize_module L m scalars (wires @ concat fields) (rs @ concat (map snd regs))
           (nas @ concat (map fst counters)) (scs @ map snd counters))))))))))"

section \<open>The rules of virtual channels\<close>

definition vc_type :: "port list \<Rightarrow> channel_registers \<Rightarrow> signal_key \<Rightarrow> hwtype" where
  "vc_type ps regs k = (case endpoint_port ps (fst k) of Inl _ \<Rightarrow> BitType
     | Inr p \<Rightarrow> (let s = vc_transfer_is_send (snd k) in
         if s = VcSignal VcCredits
         then (case registers_of regs (fst k) of Inl _ \<Rightarrow> BitType | Inr rs \<Rightarrow> VecType (length rs) (rg_type (hd rs)))
         else (case vc_field_type p s of Inl _ \<Rightarrow> BitType | Inr t \<Rightarrow> t)))"

definition vc_forward :: "port \<Rightarrow> scalar_signal \<Rightarrow> bool" where
  "vc_forward p s \<longleftrightarrow> (pt_direction p = Input) = (s \<notin> {VcSignal VcReturn, VcSignal VcReturnChannel})"

definition vc_gate ::
    "module \<Rightarrow> port list \<Rightarrow> channel_registers \<Rightarrow> (hw_expr \<Rightarrow> int) \<Rightarrow> signal_key \<Rightarrow> int list \<Rightarrow> int" where
  "vc_gate m ps regs \<sigma> k vs = (case endpoint_port ps (fst k) of Inl _ \<Rightarrow> 0
     | Inr p \<Rightarrow> (let s = vc_transfer_is_send (snd k) in
         if vc_forward p s
         then (if s = VcSignal VcSend then of_bool (\<not> in_reset \<sigma> m p \<and> den \<sigma> (field_read p s BitType) \<noteq> 0)
           else den \<sigma> (field_read p s (vc_type ps regs k)))
         else if s = VcSignal VcSend
         then (case registers_of regs (fst k) of Inl _ \<Rightarrow> 0
           | Inr rs \<Rightarrow> of_bool (\<not> in_reset \<sigma> m p \<and> hd vs \<noteq> 0 \<and>
               den \<sigma> (register_read (rs ! chain_index (last vs) (length rs))) \<noteq> 0))
         else if s = VcSignal VcReturn then of_bool (\<not> in_reset \<sigma> m p \<and> hd vs \<noteq> 0)
         else hd vs))"

text \<open>Every endpoint has its counters: as many as channels, of one unsigned type.\<close>

definition vc_counters :: "port \<Rightarrow> register list \<Rightarrow> bool" where
  "vc_counters p rs \<longleftrightarrow> (\<exists>n w. pt_channels p = Some n \<and> 1 \<le> n \<and> length rs = nat n \<and> 0 < w \<and>
     (\<forall>r\<in>set rs. rg_type r = UIntType w))"

definition vc_ready :: "port list \<Rightarrow> channel_registers \<Rightarrow> bool" where
  "vc_ready ps regs \<longleftrightarrow> (\<forall>p\<in>set ps. pt_protocol p = VcCredit \<and>
     (\<forall>rs. registers_of regs (pt_name p) = Inr rs \<longrightarrow> vc_counters p rs))"

lemma vc_free [simp]:
  "free_of vc_ref (EBinary q a b ot t) \<longleftrightarrow> free_of vc_ref a \<and> free_of vc_ref b"
  "free_of vc_ref (EMux a b c t) \<longleftrightarrow> free_of vc_ref a \<and> free_of vc_ref b \<and> free_of vc_ref c"
  "free_of vc_ref (EVecConcat es t) \<longleftrightarrow> (\<forall>e\<in>set es. free_of vc_ref e)"
  "free_of vc_ref (EConst v t)" "free_of vc_ref (ERead k n t)"
  by (subst free_of_simp; simp)+

lemma vc_free_bits [simp]:
  "free_of vc_ref (bit_binary q a b) \<longleftrightarrow> free_of vc_ref a \<and> free_of vc_ref b"
  "free_of vc_ref (bit_not a) \<longleftrightarrow> free_of vc_ref a" "free_of vc_ref (register_read r)"
  by (simp_all add: bit_binary_def bit_not_def register_read_def)

lemma vc_free_reset: "reset_deasserted m p = Inr r \<Longrightarrow> free_of vc_ref r"
  by (auto dest!: reset_deasserted_form)

lemma selected_count_free:
  assumes "selected_count p rs sel = Inr e" "free_of vc_ref sel"
  shows "free_of vc_ref e"
proof -
  obtain r rs' where "rs = r # rs'" and fold: "foldE (select_channel p sel) (enumerate 1 rs') (register_read r) = Inr e"
    using assms(1) by (auto simp: selected_count_def split: list.splits)
  show ?thesis
    by (rule foldE_invariant [OF fold]) (use assms(2) in \<open>auto simp: select_channel_def channel_match_def\<close>)
qed

lemma vc_resolve_cases:
  assumes "vc_resolve m ps regs n s = Inr r" "endpoint_port ps n = Inr p" "s' = vc_transfer_is_send s"
  obtains (count) rs where "s' = VcSignal VcCredits" "registers_of regs n = Inr rs" "r = ([], \<lambda>_. count_vector p rs)"
    | (external) f where "s' \<noteq> VcSignal VcCredits" "protocol_scalar_field p s' = Inr f" "snd (snd f)" "r = ([], \<lambda>_. vc_external m p s')"
    | (driven) f where "s' \<noteq> VcSignal VcCredits" "protocol_scalar_field p s' = Inr f" "\<not> snd (snd f)"
      "r = (vc_needs p n s', \<lambda>xs. vc_driven m regs p s' (hd xs) (last xs))"
  using assms by (auto simp: vc_resolve_def Let_def split: if_splits)

lemma vc_resolve_free:
  assumes "vc_resolve m ps regs n s = Inr r" "list_all (free_of vc_ref) xs"
    "length xs = length (fst r)" "snd r xs = Inr e"
  shows "free_of vc_ref e"
proof -
  obtain p where p: "endpoint_port ps n = Inr p" using assms(1) by (auto simp: vc_resolve_def)
  from assms(1) p refl [of "vc_transfer_is_send s"] show ?thesis
  proof (cases rule: vc_resolve_cases)
    case (count rs)
    then show ?thesis using assms(4) by (auto simp: count_vector_def split: list.splits)
  next
    case (external f)
    then show ?thesis using assms(4) vc_free_reset [of m p]
      by (auto simp: vc_external_def Let_def split: if_splits)
  next
    case (driven f)
    then have "xs \<noteq> []" using assms(3) by (auto simp: vc_needs_def)
    then have "free_of vc_ref (hd xs)" "free_of vc_ref (last xs)" using assms(2) by (auto simp: list_all_iff)
    then show ?thesis using driven assms(4) vc_free_reset [of m p] selected_count_free [of p]
      by (auto simp: vc_driven_def split: if_splits)
  qed
qed

section \<open>The selected counter\<close>

lemma den_channel_match:
  "channel_match sel p k = Inr m \<Longrightarrow> den \<sigma> m = of_bool (den \<sigma> sel = int k) \<and> is_bit \<sigma> m \<and> type_of m = BitType"
  by (auto simp: channel_match_def represent_bit binary_value_def is_bit_def)

lemma typed_channel_match:
  assumes "channel_match sel p k = Inr m" "vc_credit_channel_type p = Inr t" "typed_scalar sel" "type_of sel = t"
    "pt_channels p = Some n" "int k < n"
  shows "typed_scalar m"
proof -
  obtain w where w: "t = UIntType w" "0 < w" "n - 1 < 2 ^ w"
    using assms(2,5) bit_length_le_iff [of "n - 1" "max 1 (bit_length (n - 1))"]
    by (auto simp: vc_credit_channel_type_def split: if_splits)
  then have "int k < 2 ^ w" using assms(6) by linarith
  then have "int_fits (int k) t" using w by simp
  then show ?thesis using assms w
    by (auto simp: channel_match_def binary_rule_def rule_defs comparison_cases_def)
qed

lemma select_chain:
  assumes "foldE (select_channel p sel) (enumerate j rs) acc = Inr e"
  shows "den \<sigma> e = (if int j \<le> den \<sigma> sel \<and> den \<sigma> sel < int j + int (length rs)
      then den \<sigma> (register_read (rs ! nat (den \<sigma> sel - int j))) else den \<sigma> acc)"
  using assms
proof (induction rs arbitrary: j acc)
  case (Cons r rs)
  then obtain u where u: "select_channel p sel (j, r) acc = Inr u" "foldE (select_channel p sel) (enumerate (Suc j) rs) u = Inr e"
    by auto
  then obtain m where m: "channel_match sel p j = Inr m" and eq: "u = EMux m (register_read r) acc (rg_type r)"
    by (auto simp: select_channel_def)
  note fold = u(2) [unfolded eq]
  have d: "den \<sigma> (EMux m (register_read r) acc (rg_type r)) = (if den \<sigma> sel = int j then den \<sigma> (register_read r) else den \<sigma> acc)"
    using den_channel_match [OF m, of \<sigma>] by simp
  consider "den \<sigma> sel < int j" | "den \<sigma> sel = int j" | "int j < den \<sigma> sel" by linarith
  then show ?case
  proof cases
    case 3
    then have "nat (den \<sigma> sel - int j) = Suc (nat (den \<sigma> sel - int (Suc j)))" by simp
    then show ?thesis unfolding Cons.IH [OF fold] d using 3 by simp
  qed (simp_all only: Cons.IH [OF fold] d, simp_all)
qed simp

lemma selected_count_value:
  assumes "selected_count p rs sel = Inr e"
  shows "den \<sigma> e = den \<sigma> (register_read (rs ! chain_index (den \<sigma> sel) (length rs)))"
proof -
  obtain r rs' where rs: "rs = r # rs'" and fold: "foldE (select_channel p sel) (enumerate 1 rs') (register_read r) = Inr e"
    using assms by (auto simp: selected_count_def split: list.splits)
  have nz: "nat v - Suc 0 = nat (v - 1)" for v by arith
  show ?thesis unfolding select_chain [OF fold] rs chain_index_def
    by (cases "den \<sigma> sel = 0") (auto simp: nz)
qed

lemma selected_count_typed:
  assumes "selected_count p rs sel = Inr e" "vc_counters p rs" "typed_scalar sel" "vc_credit_channel_type p = Inr (type_of sel)"
  shows "\<exists>w>0. typed_scalar e \<and> type_of e = UIntType w"
proof -
  obtain n w where n: "pt_channels p = Some n" "length rs = nat n" and w: "0 < w" "\<forall>r\<in>set rs. rg_type r = UIntType w"
    using assms(2) by (auto simp: vc_counters_def)
  obtain r rs' where rs: "rs = r # rs'" and fold: "foldE (select_channel p sel) (enumerate 1 rs') (register_read r) = Inr e"
    using assms(1) by (auto simp: selected_count_def split: list.splits)
  have read: "x \<in> set rs \<Longrightarrow> typed_scalar (register_read x) \<and> type_of (register_read x) = UIntType w" for x
    using w by (simp add: register_read_def)
  have "typed_scalar e \<and> type_of e = UIntType w"
  proof (rule foldE_invariant [OF fold])
    show "typed_scalar (register_read r) \<and> type_of (register_read r) = UIntType w" using read rs by simp
    fix c u u' assume c: "c \<in> set (enumerate 1 rs')" and u: "typed_scalar u \<and> type_of u = UIntType w"
      and s: "select_channel p sel c u = Inr u'"
    obtain m where m: "channel_match sel p (fst c) = Inr m" "u' = EMux m (register_read (snd c)) u (rg_type (snd c))"
      using s by (auto simp: select_channel_def)
    have "int (fst c) < n" using c n rs by (auto simp: in_set_enumerate_eq)
    moreover have "snd c \<in> set rs'" using imageI [OF c, of snd] by (metis map_snd_enumerate set_map)
    ultimately show "typed_scalar u' \<and> type_of u' = UIntType w"
      using typed_channel_match [OF m(1) assms(4,3) refl n(1)] den_channel_match [OF m(1)] read [of "snd c"] w(2) u m(2) rs by simp
  qed
  then show ?thesis using w(1) by blast
qed

section \<open>Resolution is sound\<close>

definition vc_field_signals :: "scalar_signal set" where
  "vc_field_signals = VcSignal ` {VcPayload, VcChannel, VcSend, VcReturn, VcReturnChannel}"

lemma vc_field:
  assumes "protocol_scalar_field p s = Inr f" "pt_protocol p = VcCredit"
  shows "s \<in> vc_field_signals \<and> snd (snd f) = vc_forward p s \<and> (\<exists>t. vc_field_type p s = Inr t)"
  using assms unfolding vc_field_signals_def
  by (auto simp: protocol_scalar_field_def protocol_scalar_fields_def vc_forward_def vc_field_type_def
      split: if_splits option.splits)

lemma vc_external_sound:
  assumes "vc_external m p s = Inr e" "vc_field_type p s = Inr t" "flat_scalar t" "wf_type t" "vc_forward p s"
  shows "typed_scalar e \<and> type_of e = t \<and>
    den \<sigma> e = (if s = VcSignal VcSend then of_bool (\<not> in_reset \<sigma> m p \<and> den \<sigma> (field_read p s BitType) \<noteq> 0)
      else den \<sigma> (field_read p s t))"
proof (cases "s = VcSignal VcSend")
  case True
  then have t: "t = BitType" and dir: "pt_direction p = Input" using assms(2,5) by (auto simp: vc_field_type_def vc_forward_def)
  then obtain r where r: "reset_deasserted m p = Inr r" "e = bit_binary OpBitAnd r (field_read p s BitType)"
    using assms(1,2) True by (auto simp: vc_external_def field_read_def Let_def)
  have "is_bit \<sigma> (field_read p s BitType)" "typed_scalar (field_read p s BitType)" "type_of (field_read p s BitType) = BitType"
    by (simp_all add: field_read_def del: den.simps)
  then show ?thesis using r(2) t True reset_bit [OF r(1), of \<sigma>] by (simp del: den.simps)
next
  case False
  then show ?thesis using assms by (auto simp: vc_external_def field_read_def Let_def simp del: den.simps)
qed

lemma compare_zero_scalar:
  assumes "typed_scalar c" "type_of c = UIntType w" "0 < w"
  shows "typed_scalar (EBinary OpNotEqual c (EConst 0 (UIntType w)) (UIntType w) BitType)"
    and "den \<sigma> (EBinary OpNotEqual c (EConst 0 (UIntType w)) (UIntType w) BitType) = of_bool (den \<sigma> c \<noteq> 0)"
  using assms by (simp_all add: binary_rule_def rule_defs comparison_cases_def represent_bit binary_value_def)

lemma vc_send_sound:
  assumes "vc_driven m regs p (VcSignal VcSend) x sel = Inr e" "pt_direction p = Output"
    and "registers_of regs (pt_name p) = Inr rs" "vc_counters p rs"
    and "typed_scalar x" "type_of x = BitType" "typed_scalar sel" "vc_credit_channel_type p = Inr (type_of sel)"
  shows "typed_scalar e \<and> type_of e = BitType \<and> den \<sigma> e = of_bool (\<not> in_reset \<sigma> m p \<and> den \<sigma> x \<noteq> 0 \<and>
    den \<sigma> (register_read (rs ! chain_index (den \<sigma> sel) (length rs))) \<noteq> 0)"
proof -
  obtain count r where count: "selected_count p rs sel = Inr count" and r: "reset_deasserted m p = Inr r"
    and e: "e = bit_binary OpBitAnd r (bit_binary OpBitAnd x
        (EBinary OpNotEqual count (EConst 0 (type_of count)) (type_of count) BitType))"
    using assms(1-3) by (auto simp: vc_driven_def)
  obtain w where w: "0 < w" "typed_scalar count" "type_of count = UIntType w"
    using selected_count_typed [OF count assms(4,7,8)] by blast
  let ?c = "EBinary OpNotEqual count (EConst 0 (type_of count)) (type_of count) BitType"
  have c: "typed_scalar ?c" "den \<sigma> ?c = of_bool (den \<sigma> count \<noteq> 0)"
    using compare_zero_scalar [OF w(2,3,1)] w(3) by simp_all
  have "is_bit \<sigma> ?c" using c(2) by (simp add: is_bit_def of_bool_def del: den.simps)
  moreover have "is_bit \<sigma> x" using assms(5,6) typed_bit by blast
  ultimately show ?thesis
    unfolding e selected_count_value [OF count, of \<sigma>, symmetric] using assms(5,6) c reset_bit [OF r, of \<sigma>]
    by (simp del: den.simps typed_scalar.simps)
qed

lemma vc_return_sound:
  assumes "vc_driven m regs p (VcSignal VcReturn) x sel = Inr e" "pt_direction p = Input"
    and "typed_scalar x" "type_of x = BitType"
  shows "typed_scalar e \<and> type_of e = BitType \<and> den \<sigma> e = of_bool (\<not> in_reset \<sigma> m p \<and> den \<sigma> x \<noteq> 0)"
proof -
  obtain r where r: "reset_deasserted m p = Inr r" and e: "e = bit_binary OpBitAnd r x"
    using assms(1,2) by (auto simp: vc_driven_def)
  have "is_bit \<sigma> x" using assms(3,4) typed_bit by blast
  then show ?thesis using e assms(3,4) reset_bit [OF r, of \<sigma>] by (simp del: den.simps)
qed

lemma vc_type_simps:
  assumes "endpoint_port ps n = Inr p" "vc_transfer_is_send s = s'" "s' \<noteq> VcSignal VcCredits" "vc_field_type p s' = Inr t"
  shows "vc_type ps regs (n, s) = t"
  using assms by (simp add: vc_type_def)

lemma vc_field_idem: "s \<in> vc_field_signals \<Longrightarrow> vc_transfer_is_send s = s"
  by (auto simp: vc_field_signals_def)

lemma vc_resolve_sound:
  assumes ready: "vc_ready ps regs" and res: "vc_resolve m ps regs n s = Inr r"
    and flat: "flat_scalar (vc_type ps regs (n, s))" "wf_type (vc_type ps regs (n, s))"
    and xs: "list_all typed_scalar xs" "map type_of xs = map (vc_type ps regs) (fst r)"
    and e: "snd r xs = Inr e"
  shows "typed_scalar e \<and> type_of e = vc_type ps regs (n, s) \<and>
    den \<sigma> e = vc_gate m ps regs \<sigma> (n, s) (map (den \<sigma>) xs)"
proof -
  obtain p where p: "endpoint_port ps n = Inr p" using res by (auto simp: vc_resolve_def)
  have pn: "pt_name p = n" "pt_protocol p = VcCredit" and counters: "\<And>rs. registers_of regs n = Inr rs \<Longrightarrow> vc_counters p rs"
    using endpoint_port_name [OF p] ready by (auto simp: vc_ready_def)
  define s' where "s' = vc_transfer_is_send s"
  from res p s'_def show ?thesis
  proof (cases rule: vc_resolve_cases)
    case (count rs)
    then show ?thesis using flat(1) p by (simp add: vc_type_def s'_def [symmetric])
  next
    case (external f)
    obtain t where t: "vc_field_type p s' = Inr t" "vc_forward p s'" using vc_field [OF external(2) pn(2)] external(3) by blast
    have ty: "vc_type ps regs (n, s) = t" by (rule vc_type_simps [OF p s'_def [symmetric] external(1) t(1)])
    have "vc_external m p s' = Inr e" using e external(4) by simp
    from vc_external_sound [OF this t(1) _ _ t(2), of \<sigma>] flat show ?thesis
      unfolding ty vc_gate_def by (simp add: p s'_def [symmetric] t(2) ty Let_def del: den.simps typed_scalar.simps)
  next
    case (driven f)
    obtain t where t: "vc_field_type p s' = Inr t" "\<not> vc_forward p s'" and s': "s' \<in> vc_field_signals"
      using vc_field [OF driven(2) pn(2)] driven(3) by blast
    have ty: "vc_type ps regs (n, s) = t" by (rule vc_type_simps [OF p s'_def [symmetric] driven(1) t(1)])
    have ty': "vc_type ps regs (n, s') = t" by (rule vc_type_simps [OF p vc_field_idem [OF s'] driven(1) t(1)])
    obtain x ys where x: "xs = x # ys" "typed_scalar x" "type_of x = t"
      using xs driven(4) ty' by (auto simp: vc_needs_def map_eq_Cons_conv split: if_splits)
    have d: "vc_driven m regs p s' x (last xs) = Inr e" using e driven(4) x(1) by simp
    consider (send) "s' = VcSignal VcSend" | (ret) "s' = VcSignal VcReturn" | (other) "s' \<noteq> VcSignal VcSend" "s' \<noteq> VcSignal VcReturn"
      by blast
    then show ?thesis
    proof cases
      case send
      have dir: "pt_direction p = Output" and bit: "t = BitType"
        using t send by (auto simp: vc_forward_def vc_field_type_def) (metis port_direction.exhaust)
      obtain rs where rs: "registers_of regs n = Inr rs" using d send dir pn(1) by (auto simp: vc_driven_def)
      obtain ct where ct: "vc_credit_channel_type p = Inr ct"
        using driven(2) pn(2) by (auto simp: protocol_scalar_field_def protocol_scalar_fields_def)
      have "vc_type ps regs (n, VcSignal VcChannel) = ct"
        by (rule vc_type_simps [OF p refl]) (simp_all add: vc_field_type_def ct)
      then obtain z where z: "xs = [x, z]" "typed_scalar z" "type_of z = ct"
        using xs driven(4) x(1) send dir by (auto simp: vc_needs_def map_eq_Cons_conv)
      have "typed_scalar e \<and> type_of e = BitType \<and> den \<sigma> e = of_bool (\<not> in_reset \<sigma> m p \<and> den \<sigma> x \<noteq> 0 \<and>
          den \<sigma> (register_read (rs ! chain_index (den \<sigma> z) (length rs))) \<noteq> 0)"
        by (rule vc_send_sound [of m regs p x z e rs])
          (use d send z dir rs pn(1) counters [OF rs] x(2,3) bit ct in simp_all)
      then show ?thesis unfolding ty vc_gate_def using t(2) send z(1) rs bit
        by (simp add: p s'_def [symmetric] del: den.simps typed_scalar.simps)
    next
      case ret
      have dir: "pt_direction p = Input" and bit: "t = BitType" using t ret by (auto simp: vc_forward_def vc_field_type_def)
      have "typed_scalar e \<and> type_of e = BitType \<and> den \<sigma> e = of_bool (\<not> in_reset \<sigma> m p \<and> den \<sigma> x \<noteq> 0)"
        by (rule vc_return_sound [of m regs p x "last xs"]) (use d ret dir x(2,3) bit in simp_all)
      then show ?thesis unfolding ty vc_gate_def using t(2) ret x(1) bit
        by (simp add: p s'_def [symmetric] del: den.simps typed_scalar.simps)
    next
      case other
      then have "e = x" using d by (simp add: vc_driven_def)
      then show ?thesis unfolding ty vc_gate_def using t(2) other x
        by (simp add: p s'_def [symmetric] del: den.simps typed_scalar.simps)
    qed
  qed
qed

interpretation vc: endpoint_rules "vc_lowering m ps regs drivers" "vc_type ps regs"
  "vc_gate m ps regs" "vc_ready ps regs"
proof
  fix e k assume "lw_ref (vc_lowering m ps regs drivers) e = Some k"
  then show "children e = []" by (cases e) (auto simp: vc_lowering_def)
qed (auto simp: vc_lowering_def intro: vc_resolve_free dest: vc_resolve_sound)

end
