(* ===== verification/Vc_Runs.thy ===== *)
theory Vc_Runs
  imports Counters Vc_Credit
begin

text \<open>
  The counters of virtual channels along runs of clock edges.  For every channel of an endpoint a
  run counts the transfers that name the channel less the returns that name it: the counter of a
  sender is the capacity less that number, the counter of a receiver is that number, and it stays
  within the capacity.  The front end admits only powers of two as numbers of channels, so that
  every transfer and every return names a channel of its endpoint, and the counters of an
  endpoint together account for all its transfers.
\<close>

section \<open>Names\<close>

fun decimal_value :: "string \<Rightarrow> nat" where
  "decimal_value s = foldl (\<lambda>a c. 10 * a + (of_char c - 48)) 0 s"

lemma decimal_value: "decimal_value (decimal n) = n"
proof (induction n rule: decimal.induct)
  case (1 n)
  have digit: "k < 10 \<Longrightarrow> of_char (char_of (48 + k :: nat)) - (48 :: nat) = k" for k
    by (simp add: of_char_of take_bit_eq_mod)
  show ?case
  proof (cases "n < 10")
    case True
    then show ?thesis using digit [of n] by (subst decimal.simps) simp
  next
    case False
    then show ?thesis using 1 digit [of "n mod 10"] by (subst decimal.simps) simp
  qed
qed

lemma decimal_no_colon: "CHR '':'' \<notin> set (decimal n)"
proof (induction n rule: decimal.induct)
  case (1 n)
  have digit: "char_of (48 + k :: nat) \<noteq> CHR '':''" if "k < 10" for k
  proof
    assume "char_of (48 + k) = CHR '':''"
    then have "of_char (char_of (48 + k) :: char) = (of_char CHR '':'' :: nat)" by (rule arg_cong)
    moreover have "of_char CHR '':'' = (58 :: nat)" by simp
    moreover have "of_char (char_of (48 + k) :: char) = 48 + k" using that by (simp add: of_char_of take_bit_eq_mod)
    ultimately show False using that by linarith
  qed
  show ?case
  proof (cases "n < 10")
    case True
    then show ?thesis using digit [of n] by (subst decimal.simps) auto
  next
    case False
    then show ?thesis using 1 digit [of "n mod 10"] by (subst decimal.simps) auto
  qed
qed

definition vc_counter_name :: "port \<Rightarrow> nat \<Rightarrow> string" where
  "vc_counter_name p k = vc_credit_state_name (pt_name p) (count_field p) k"

lemma vc_counter_name_inj: "vc_counter_name p j = vc_counter_name q k \<Longrightarrow> pt_name p = pt_name q \<and> j = k"
proof -
  assume eq: "vc_counter_name p j = vc_counter_name q k"
  have n: "vc_counter_name p k = (''$zlang_protocol_vc_credit:'' @ pt_name p @ '':'' @ count_field p) @ CHR '':'' # decimal k" for p k
    by (simp add: vc_counter_name_def vc_credit_state_name_def)
  have "rpartition (CHR '':'') (vc_counter_name p j) = rpartition (CHR '':'') (vc_counter_name q k)" using eq by simp
  then have field: "pt_name p @ '':'' @ count_field p = pt_name q @ '':'' @ count_field q" and d: "decimal j = decimal k"
    unfolding n rpartition_append [OF decimal_no_colon] by simp_all
  have l: "last (pt_name p @ '':'' @ count_field p) = (if pt_direction p = Output then CHR ''s'' else CHR ''y'')" for p
    by (simp add: count_field_def)
  have "(pt_direction p = Output) = (pt_direction q = Output)"
    using arg_cong [OF field, of last] unfolding l by (simp split: if_splits)
  then have "pt_name p = pt_name q" using field unfolding count_field_def by simp
  moreover have "j = k" using arg_cong [OF d, of decimal_value] unfolding decimal_value .
  ultimately show ?thesis by blast
qed

definition channel_count :: "port \<Rightarrow> nat" where
  "channel_count p = (case pt_channels p of None \<Rightarrow> 0 | Some n \<Rightarrow> nat n)"

definition vc_counter_names :: "port \<Rightarrow> string list" where
  "vc_counter_names p = map (vc_counter_name p) [0..<channel_count p]"

text \<open>No register of the source module has the name of a counter, and endpoints have distinct names.\<close>

definition vc_names_fresh :: "module \<Rightarrow> bool" where
  "vc_names_fresh m \<longleftrightarrow> distinct (map pt_name (vc_ports m)) \<and>
     (\<forall>na\<in>set (md_next m). \<forall>p\<in>set (vc_ports m). rg_name (na_target na) \<notin> set (vc_counter_names p)) \<and>
     (\<forall>r\<in>set (md_registers m). \<forall>p\<in>set (vc_ports m). rg_name r \<notin> set (vc_counter_names p))"

section \<open>The signals of an endpoint\<close>

lemma vc_signal_field:
  assumes "lower_signal (vc_lowering m ps regs drivers) {} n (VcSignal s) = Inr e" "endpoint_port ps n = Inr p"
    "pt_protocol p = VcCredit" "s \<noteq> VcTransfer" "s \<noteq> VcCredits"
  shows "if vc_forward p (VcSignal s) then vc_external m p (VcSignal s) = Inr e
    else \<exists>xs. mapE (produce (vc_lowering m ps regs drivers) {}) (vc_needs p n (VcSignal s)) = Inr xs \<and>
      vc_driven m regs p (VcSignal s) (hd xs) (last xs) = Inr e"
proof -
  let ?L = "vc_lowering m ps regs drivers"
  obtain r xs where r: "vc_resolve m ps regs n (VcSignal s) = Inr r" and xs: "mapE (produce ?L {}) (fst r) = Inr xs" "snd r xs = Inr e"
    using assms(1) by (auto simp: lower_signal_def vc_lowering_def)
  have s: "VcSignal s = vc_transfer_is_send (VcSignal s)" using assms(4) by (cases s) auto
  from r assms(2) s show ?thesis
  proof (cases rule: vc_resolve_cases)
    case (external f)
    then show ?thesis using vc_field [OF external(2) assms(3)] xs by simp
  next
    case (driven f)
    then show ?thesis using vc_field [OF driven(2) assms(3)] xs by auto
  qed (use assms(5) in simp)
qed

lemma vc_signal_bit:
  assumes "lower_signal (vc_lowering m ps regs drivers) {} n (VcSignal s) = Inr e" "endpoint_port ps n = Inr p"
    "pt_protocol p = VcCredit" "s = VcSend \<or> s = VcReturn"
  shows "is_bit \<sigma> e"
  using vc_signal_field [OF assms(1-3)] assms(4)
  by (cases "pt_direction p") (auto simp: vc_forward_def vc_external_def vc_driven_def vc_field_type_def Let_def)

text \<open>A sender that transfers has a credit on the channel it names.\<close>

lemma vc_sender_gate:
  assumes L: "L = vc_lowering m ps regs drivers" and p: "endpoint_port ps n = Inr p" "pt_protocol p = VcCredit"
    and dir: "pt_direction p = Output" and rs: "registers_of regs n = Inr rs"
    and sent: "lower_signal L {} n (VcSignal VcSend) = Inr sent" and vc: "lower_signal L {} n (VcSignal VcChannel) = Inr vc"
    and nz: "den \<sigma> sent \<noteq> 0"
  shows "den \<sigma> (register_read (rs ! chain_index (den \<sigma> vc) (length rs))) \<noteq> 0"
proof -
  have pn: "pt_name p = n" using endpoint_port_name [OF p(1)] by simp
  obtain ys where ys: "mapE (produce L {}) [(n, VcSignal VcChannel)] = Inr ys" "hd ys = vc"
    using vc_signal_field [OF vc [unfolded L] p] dir unfolding L
    by (auto simp: vc_forward_def vc_needs_def vc_driven_def)
  obtain xs where xs: "mapE (produce L {}) [(n, VcSignal VcSend), (n, VcSignal VcChannel)] = Inr xs"
    and e: "vc_driven m regs p (VcSignal VcSend) (hd xs) (last xs) = Inr sent"
    using vc_signal_field [OF sent [unfolded L] p] dir unfolding L
    by (auto simp: vc_forward_def vc_needs_def)
  have "last xs = vc" using ys xs by auto
  then obtain count r where count: "selected_count p rs vc = Inr count"
    and e': "sent = bit_binary OpBitAnd r (bit_binary OpBitAnd (hd xs)
        (EBinary OpNotEqual count (EConst 0 (type_of count)) (type_of count) BitType))"
    using e dir rs pn by (auto simp: vc_driven_def)
  have "den \<sigma> (EBinary OpNotEqual count (EConst 0 (type_of count)) (type_of count) BitType) \<noteq> 0"
    using nz den_and_nonzero unfolding e' by blast
  then have "den \<sigma> count \<noteq> 0" by (auto simp: represent_bit binary_value_def)
  then show ?thesis unfolding selected_count_value [OF count] .
qed

section \<open>The counters of an endpoint in the lowered module\<close>

definition vc_signal_now :: "module \<Rightarrow> port \<Rightarrow> vc_signal \<Rightarrow> valuation \<Rightarrow> valuation \<Rightarrow> int" where
  "vc_signal_now m p s ins regs = (case vc_setup m of Inl _ \<Rightarrow> 0
     | Inr (rs, L) \<Rightarrow> (case lower_signal L {} (pt_name p) (VcSignal s) of Inl _ \<Rightarrow> 0
         | Inr e \<Rightarrow> den (wire_env ins regs) e))"

text \<open>A transfer and a return on channel \<open>k\<close>.\<close>

definition vc_sent :: "module \<Rightarrow> port \<Rightarrow> nat \<Rightarrow> valuation \<Rightarrow> valuation \<Rightarrow> int" where
  "vc_sent m p k ins regs = of_bool (vc_signal_now m p VcSend ins regs \<noteq> 0 \<and> vc_signal_now m p VcChannel ins regs = int k)"

definition vc_returned :: "module \<Rightarrow> port \<Rightarrow> nat \<Rightarrow> valuation \<Rightarrow> valuation \<Rightarrow> int" where
  "vc_returned m p k ins regs =
     of_bool (vc_signal_now m p VcReturn ins regs \<noteq> 0 \<and> vc_signal_now m p VcReturnChannel ins regs = int k)"

lemma vc_module_pieces:
  assumes low: "lower_vc_credit_module digest m = Inr M" and p: "p \<in> set (vc_ports m)"
  obtains regs L nas counters rs where "vc_setup m = Inr (regs, L)"
    "mapE (lower_register L) (md_registers m) = Inr rs" "md_registers M = rs @ concat (map snd regs)"
    "mapE (lower_next L) (md_next m) = Inr nas" "mapE (vc_endpoint_counters digest m L regs) (vc_ports m) = Inr counters"
    "md_next M = nas @ concat (map fst counters)" "set (map snd counters) \<subseteq> set (md_scopes M)"
proof -
  have "vc_ports m \<noteq> []" using p by auto
  then show thesis using low that
    by (force simp: lower_vc_credit_module_def finalize_module_def)
qed

definition channel_register :: "port \<Rightarrow> int \<Rightarrow> string \<Rightarrow> nat \<Rightarrow> register" where
  "channel_register p c d k = \<lparr>rg_name = vc_counter_name p k, rg_type = UIntType (endpoint_width c),
     rg_initial = Some (EConst (if pt_direction p = Output then c else 0) (UIntType (endpoint_width c))), rg_domain = Some d\<rparr>"

lemma vc_registers_counters:
  assumes "vc_registers m p = Inr x"
  shows "\<exists>c d. pt_capacity p = Some c \<and> 1 \<le> c \<and> owning_domain m p = Some d \<and>
    x = (pt_name p, map (channel_register p c d) [0..<channel_count p])"
  using assms by (auto simp: vc_registers_def credit_counter_spec_def vc_counter_name_def endpoint_width_def
      channel_count_def channel_register_def count_field_def split: option.splits if_splits)

lemma registers_of_ports:
  assumes "mapE (vc_registers m) ps = Inr regs" "distinct (map pt_name ps)" "p \<in> set ps"
  shows "\<exists>x. vc_registers m p = Inr x \<and> x \<in> set regs \<and> registers_of regs (pt_name p) = Inr (snd x)"
proof -
  have "\<exists>x. vc_registers m p = Inr x \<and> map_of (rev regs) (pt_name p) = Some (snd x)"
    by (rule endpoint_dict [OF assms(1) _ assms(2,3)]) (auto dest: vc_registers_counters)
  then show ?thesis using mapE_member [OF assms(1,3)] by (auto simp: registers_of_def)
qed

text \<open>The lowered signals of an endpoint.\<close>

definition channel_signals :: "lowering \<Rightarrow> port \<Rightarrow> hw_expr \<Rightarrow> hw_expr \<Rightarrow> hw_expr \<Rightarrow> hw_expr \<Rightarrow> bool" where
  "channel_signals L p sent ret vc rvc \<longleftrightarrow>
     lower_signal L {} (pt_name p) (VcSignal VcSend) = Inr sent \<and> lower_signal L {} (pt_name p) (VcSignal VcReturn) = Inr ret \<and>
     lower_signal L {} (pt_name p) (VcSignal VcChannel) = Inr vc \<and>
     lower_signal L {} (pt_name p) (VcSignal VcReturnChannel) = Inr rvc"

text \<open>The counters of one endpoint, and the register each of them updates.\<close>

lemma endpoint_counters_parts:
  assumes "vc_endpoint_counters digest m L regs p = Inr y" "registers_of regs (pt_name p) = Inr rs"
  obtains sent ret vc rvc c us where "channel_signals L p sent ret vc rvc" "pt_capacity p = Some c"
    "mapE (vc_channel_counter p c sent ret vc rvc) (enumerate 0 rs) = Inr us"
    "runtime_protocol_scope digest m p (concat (map snd us)) = Inr (snd y)" "fst y = map fst us"
  using assms by (auto simp: vc_endpoint_counters_def channel_signals_def split: option.splits)

lemma channel_counter_target:
  assumes "vc_channel_counter p c sent ret vc rvc (k, r) = Inr u"
  shows "na_target (fst u) = r"
  using assms by (auto simp: vc_channel_counter_def credit_counter_update_def Let_def)

lemma channel_counter_nth:
  assumes "mapE (vc_channel_counter p c sent ret vc rvc) (enumerate 0 rs) = Inr us" "k < length rs"
  shows "k < length us" "vc_channel_counter p c sent ret vc rvc (k, rs ! k) = Inr (us ! k)"
  using assms by (auto simp: mapE_Inr_all list_all2_conv_all_nth nth_enumerate_eq)

lemma counters_of_name:
  assumes "vc_endpoint_counters digest m L regs p = Inr y" "registers_of regs (pt_name p) = Inr rs"
    "rs = map (channel_register p c d) [0..<n]" "na \<in> set (fst y)"
  shows "\<exists>k<n. rg_name (na_target na) = vc_counter_name p k"
proof -
  from assms(1,2) obtain sent ret vc rvc c' us
    where us: "mapE (vc_channel_counter p c' sent ret vc rvc) (enumerate 0 rs) = Inr us" "fst y = map fst us"
    by (rule endpoint_counters_parts)
  obtain k where k: "k < length us" "na = fst (us ! k)" using assms(4) us(2) by (auto simp: in_set_conv_nth)
  have "length us = length rs" using us(1) by (auto simp: mapE_Inr_all dest: list_all2_lengthD)
  then have "k < n" using k(1) assms(3) by simp
  moreover have "na_target na = rs ! k"
    using channel_counter_target [OF channel_counter_nth(2) [OF us(1)]] k \<open>length us = length rs\<close> by simp
  ultimately show ?thesis using assms(3) by (auto simp: channel_register_def)
qed

lemma target_names_inj:
  "na \<in> set xs \<Longrightarrow> na' \<in> set xs \<Longrightarrow> distinct (map f xs) \<Longrightarrow> f na = f na' \<Longrightarrow> na = na'"
  by (auto simp: distinct_map dest: inj_onD)

lemma counters_distinct:
  assumes "vc_endpoint_counters digest m L regs p = Inr y" "registers_of regs (pt_name p) = Inr rs"
    "rs = map (channel_register p c d) [0..<n]"
  shows "distinct (map (\<lambda>na. rg_name (na_target na)) (fst y))"
proof -
  from assms(1,2) obtain sent ret vc rvc c' us
    where us: "mapE (vc_channel_counter p c' sent ret vc rvc) (enumerate 0 rs) = Inr us" "fst y = map fst us"
    by (rule endpoint_counters_parts)
  have len: "length us = length rs" using us(1) by (auto simp: mapE_Inr_all dest: list_all2_lengthD)
  have "map (\<lambda>na. rg_name (na_target na)) (fst y) = map (vc_counter_name p) [0..<n]"
  proof (rule nth_equalityI)
    fix k assume "k < length (map (\<lambda>na. rg_name (na_target na)) (fst y))"
    then have k: "k < length rs" "k < length us" "k < n" using us(2) len assms(3) by simp_all
    have "na_target (fst (us ! k)) = rs ! k" by (rule channel_counter_target [OF channel_counter_nth(2) [OF us(1) k(1)]])
    then show "map (\<lambda>na. rg_name (na_target na)) (fst y) ! k = map (vc_counter_name p) [0..<n] ! k"
      using us(2) k assms(3) by (simp add: channel_register_def)
  qed (use us(2) len assms(3) in simp)
  moreover have "inj_on (vc_counter_name p) (set [0..<n])" using vc_counter_name_inj by (blast intro: inj_onI)
  ultimately show ?thesis by (simp add: distinct_map)
qed

text \<open>What the lowering puts into the module for one channel.\<close>

definition vc_parts ::
    "module \<Rightarrow> module \<Rightarrow> port \<Rightarrow> nat \<Rightarrow> int \<Rightarrow> string \<Rightarrow> register \<Rightarrow> hw_expr \<Rightarrow> hw_expr \<Rightarrow> next_assignment \<Rightarrow>
      (string \<times> hw_expr) list \<Rightarrow> bool" where
  "vc_parts m M p k c d r here gone na conds \<longleftrightarrow>
     counter_in M d (pt_direction p) (pt_direction p = Input) c r here gone na conds \<and> rg_name r = vc_counter_name p k \<and>
     pt_capacity p = Some c \<and> owning_domain m p = Some d \<and>
     (\<forall>ins regs. vc_sent m p k ins regs = den (wire_env ins regs) here) \<and>
     (\<forall>ins regs. vc_returned m p k ins regs = den (wire_env ins regs) gone)"

lemma initial_channel_register:
  "initial_of (channel_register p c d k) = Some (if pt_direction p = Output then c else 0)"
  by (simp add: channel_register_def initial_of_def)

text \<open>The counters of all endpoints, by endpoint, and the uniqueness of their names.\<close>

definition vc_dict :: "module \<Rightarrow> channel_registers \<Rightarrow> port \<Rightarrow> int \<Rightarrow> string \<Rightarrow> bool" where
  "vc_dict m regs q c d \<longleftrightarrow> pt_capacity q = Some c \<and> 1 \<le> c \<and> owning_domain m q = Some d \<and>
     (pt_name q, map (channel_register q c d) [0..<channel_count q]) \<in> set regs \<and>
     registers_of regs (pt_name q) = Inr (map (channel_register q c d) [0..<channel_count q])"

lemma vc_dict_of:
  assumes "mapE (vc_registers m) (vc_ports m) = Inr regs" "vc_names_fresh m" "q \<in> set (vc_ports m)"
  shows "\<exists>c d. vc_dict m regs q c d"
proof -
  have "distinct (map pt_name (vc_ports m))" using assms(2) by (simp add: vc_names_fresh_def)
  then show ?thesis
    using registers_of_ports [OF assms(1) _ assms(3)] vc_registers_counters unfolding vc_dict_def by fastforce
qed

lemma vc_fresh_name:
  assumes "vc_names_fresh m" "p \<in> set (vc_ports m)" "k < channel_count p"
  shows "\<forall>na\<in>set (md_next m). rg_name (na_target na) \<noteq> vc_counter_name p k"
    "\<forall>r\<in>set (md_registers m). rg_name r \<noteq> vc_counter_name p k"
proof -
  have "vc_counter_name p k \<in> set (vc_counter_names p)" using assms(3) by (auto simp: vc_counter_names_def)
  then show "\<forall>na\<in>set (md_next m). rg_name (na_target na) \<noteq> vc_counter_name p k"
    "\<forall>r\<in>set (md_registers m). rg_name r \<noteq> vc_counter_name p k"
    using assms(1,2) unfolding vc_names_fresh_def by metis+
qed

lemma vc_same_port:
  assumes "vc_names_fresh m" "p \<in> set (vc_ports m)" "q \<in> set (vc_ports m)" "vc_counter_name q j = vc_counter_name p k"
  shows "q = p" "j = k"
proof -
  have "inj_on pt_name (set (vc_ports m))" using assms(1) by (simp add: vc_names_fresh_def distinct_map)
  then show "q = p" "j = k" using vc_counter_name_inj [OF assms(4)] assms(2,3) by (meson inj_onD)+
qed

lemma vc_next_unique:
  assumes fresh: "vc_names_fresh m" and p: "p \<in> set (vc_ports m)" and regs: "mapE (vc_registers m) (vc_ports m) = Inr regs"
    and ctrs: "mapE (vc_endpoint_counters digest m L regs) (vc_ports m) = Inr ctrs"
    and y: "vc_endpoint_counters digest m L regs p = Inr y" and na: "na \<in> set (fst y)" "rg_name (na_target na) = vc_counter_name p k"
    and z: "z \<in> set (concat (map fst ctrs))" "rg_name (na_target z) = vc_counter_name p k"
  shows "z = na"
proof -
  obtain y' where y': "y' \<in> set ctrs" "z \<in> set (fst y')" using z(1) by auto
  then obtain q where q: "q \<in> set (vc_ports m)" "vc_endpoint_counters digest m L regs q = Inr y'"
    using list_all2_ball [OF ctrs [unfolded mapE_Inr_all]] by blast
  obtain c d where d: "registers_of regs (pt_name q) = Inr (map (channel_register q c d) [0..<channel_count q])"
    using vc_dict_of [OF regs fresh q(1)] unfolding vc_dict_def by blast
  from counters_of_name [OF q(2) d refl y'(2)] have "q = p" using vc_same_port(1) [OF fresh p q(1)] z(2) by metis
  then have "z \<in> set (fst y)" using q(2) y y'(2) by simp
  then show ?thesis
    using target_names_inj [OF _ na(1) counters_distinct [OF y d [unfolded \<open>q = p\<close>] refl]] z(2) na(2) by simp
qed

lemma vc_register_unique:
  assumes fresh: "vc_names_fresh m" and p: "p \<in> set (vc_ports m)" and regs: "mapE (vc_registers m) (vc_ports m) = Inr regs"
    and dict: "vc_dict m regs p c d" and z: "z \<in> set (concat (map snd regs))" "rg_name z = vc_counter_name p k"
  shows "z = channel_register p c d k"
proof -
  obtain x where x: "x \<in> set regs" "z \<in> set (snd x)" using z(1) by auto
  then obtain q where q: "q \<in> set (vc_ports m)" "vc_registers m q = Inr x"
    using list_all2_ball [OF regs [unfolded mapE_Inr_all]] by blast
  obtain cq dq where cq: "pt_capacity q = Some cq" "owning_domain m q = Some dq"
    "snd x = map (channel_register q cq dq) [0..<channel_count q]"
    using vc_registers_counters [OF q(2)] by auto
  then obtain j where j: "z = channel_register q cq dq j" using x(2) by auto
  then have nm: "vc_counter_name q j = vc_counter_name p k" using z(2) by (simp add: channel_register_def)
  have "q = p" "j = k" using vc_same_port [OF fresh p q(1) nm] by blast+
  then show ?thesis using j cq dict unfolding vc_dict_def by simp
qed

lemma channel_update:
  assumes "vc_channel_counter p c sent ret vc rvc (k, r) = Inr u"
  obtains m1 m2 where "channel_match vc p k = Inr m1" "channel_match rvc p k = Inr m2"
    "\<exists>msgs inc dec. credit_counter_update r (bit_binary OpBitAnd sent m1) (bit_binary OpBitAnd ret m2) c (pt_direction p)
        msgs inc dec = Inr (fst u, snd u) \<and>
      (case inc of None \<Rightarrow> bit_binary OpBitAnd ret m2 | Some e \<Rightarrow> e) =
        (if pt_direction p = Input then bit_binary OpBitAnd sent m1 else bit_binary OpBitAnd ret m2) \<and>
      (case dec of None \<Rightarrow> bit_binary OpBitAnd sent m1 | Some e \<Rightarrow> e) =
        (if pt_direction p = Input then bit_binary OpBitAnd ret m2 else bit_binary OpBitAnd sent m1)"
proof -
  obtain m1 m2 where m: "channel_match vc p k = Inr m1" "channel_match rvc p k = Inr m2"
    and cu: "credit_counter_update r (bit_binary OpBitAnd sent m1) (bit_binary OpBitAnd ret m2) c (pt_direction p)
      (vc_messages (pt_name p) k)
      (Some (if pt_direction p = Output then bit_binary OpBitAnd ret m2 else bit_binary OpBitAnd sent m1))
      (Some (if pt_direction p = Output then bit_binary OpBitAnd sent m1 else bit_binary OpBitAnd ret m2)) = Inr u"
    using assms by (auto simp: vc_channel_counter_def Let_def)
  show thesis
    by (rule that [OF m], intro exI conjI, subst prod.collapse, rule cu) (cases "pt_direction p"; simp)+
qed

lemma channel_flow:
  assumes su: "vc_setup m = Inr (regs, vc_lowering m ps regs drivers)" and sig: "channel_signals (vc_lowering m ps regs drivers) p sent ret vc rvc"
    and p: "endpoint_port ps (pt_name p) = Inr p" "pt_protocol p = VcCredit"
    and m: "channel_match vc p k = Inr m1" "channel_match rvc p k = Inr m2"
  shows "vc_sent m p k ins rs = den (wire_env ins rs) (bit_binary OpBitAnd sent m1)"
    "vc_returned m p k ins rs = den (wire_env ins rs) (bit_binary OpBitAnd ret m2)"
proof -
  have bits: "is_bit \<sigma> sent" "is_bit \<sigma> ret" for \<sigma>
    using sig vc_signal_bit [OF _ p] unfolding channel_signals_def by blast+
  have match: "den \<sigma> m1 = of_bool (den \<sigma> vc = int k) \<and> is_bit \<sigma> m1" "den \<sigma> m2 = of_bool (den \<sigma> rvc = int k) \<and> is_bit \<sigma> m2" for \<sigma>
    using den_channel_match [OF m(1)] den_channel_match [OF m(2)] by blast+
  show "vc_sent m p k ins rs = den (wire_env ins rs) (bit_binary OpBitAnd sent m1)"
    "vc_returned m p k ins rs = den (wire_env ins rs) (bit_binary OpBitAnd ret m2)"
    unfolding vc_sent_def vc_returned_def vc_signal_now_def
    using su sig [unfolded channel_signals_def] bits match by (simp_all del: den.simps)
qed

lemma channel_gate:
  assumes p: "endpoint_port ps (pt_name p) = Inr p" "pt_protocol p = VcCredit" "pt_direction p = Output"
    and rof: "registers_of regs (pt_name p) = Inr rs" "k < length rs"
    and sig: "channel_signals (vc_lowering m ps regs drivers) p sent ret vc rvc" and m: "channel_match vc p k = Inr m1"
    and nz: "den \<sigma> (bit_binary OpBitAnd sent m1) \<noteq> 0"
  shows "den \<sigma> (register_read (rs ! k)) \<noteq> 0"
proof -
  have "den \<sigma> sent \<noteq> 0" "den \<sigma> vc = int k"
    using den_and_nonzero [OF nz] den_channel_match [OF m, of \<sigma>] by (simp_all split: if_splits)
  then show ?thesis
    using vc_sender_gate [OF refl p rof(1), of m drivers sent vc \<sigma>] sig rof(2) unfolding channel_signals_def
    by (simp add: chain_index_def)
qed

lemma vc_counter_parts:
  assumes low: "lower_vc_credit_module digest m = Inr M" and fresh: "vc_names_fresh m" and p: "p \<in> set (vc_ports m)"
    and k: "k < channel_count p"
  shows "\<exists>c d r here gone na conds. vc_parts m M p k c d r here gone na conds"
proof -
  obtain regs L nas ctrs ors where su: "vc_setup m = Inr (regs, L)"
    and ors: "mapE (lower_register L) (md_registers m) = Inr ors" "md_registers M = ors @ concat (map snd regs)"
    and nas: "mapE (lower_next L) (md_next m) = Inr nas"
    and ctrs: "mapE (vc_endpoint_counters digest m L regs) (vc_ports m) = Inr ctrs"
    and M: "md_next M = nas @ concat (map fst ctrs)" "set (map snd ctrs) \<subseteq> set (md_scopes M)"
    using vc_module_pieces [OF low p] by metis
  obtain drivers where L: "L = vc_lowering m (vc_ports m) regs drivers" and regs: "mapE (vc_registers m) (vc_ports m) = Inr regs"
    using su by (auto simp: vc_setup_def)
  have "distinct (map pt_name (vc_ports m))" using fresh by (simp add: vc_names_fresh_def)
  note ep = endpoint_port_distinct [OF this p]
  have proto: "pt_protocol p = VcCredit" using p by (simp add: vc_ports_def)
  obtain c d where dict: "vc_dict m regs p c d" using vc_dict_of [OF regs fresh p] by blast
  let ?rs = "map (channel_register p c d) [0..<channel_count p]" and ?r = "channel_register p c d k"
  have cap: "pt_capacity p = Some c" "1 \<le> c" "owning_domain m p = Some d" and inr: "(pt_name p, ?rs) \<in> set regs"
    and rof: "registers_of regs (pt_name p) = Inr ?rs" using dict unfolding vc_dict_def by blast+
  have rk: "?rs ! k = ?r" "k < length ?rs" using k by simp_all
  obtain y where y: "y \<in> set ctrs" "vc_endpoint_counters digest m L regs p = Inr y" using mapE_member [OF ctrs p] by blast
  from y(2) rof obtain sent ret vc rvc c' us where sig: "channel_signals L p sent ret vc rvc" and c': "pt_capacity p = Some c'"
    and us': "mapE (vc_channel_counter p c' sent ret vc rvc) (enumerate 0 ?rs) = Inr us"
    and sc: "runtime_protocol_scope digest m p (concat (map snd us)) = Inr (snd y)" and fy: "fst y = map fst us"
    by (rule endpoint_counters_parts)
  have us: "mapE (vc_channel_counter p c sent ret vc rvc) (enumerate 0 ?rs) = Inr us" using us' c' cap(1) by simp
  let ?na = "fst (us ! k)" and ?conds = "snd (us ! k)"
  have ku: "k < length us" and u: "vc_channel_counter p c sent ret vc rvc (k, ?r) = Inr (us ! k)"
    using channel_counter_nth [OF us rk(2)] rk(1) by simp_all
  obtain m1 m2 where m12: "channel_match vc p k = Inr m1" "channel_match rvc p k = Inr m2"
    and counts: "\<exists>msgs inc dec. credit_counter_update ?r (bit_binary OpBitAnd sent m1) (bit_binary OpBitAnd ret m2) c (pt_direction p)
        msgs inc dec = Inr (?na, ?conds) \<and>
      (case inc of None \<Rightarrow> bit_binary OpBitAnd ret m2 | Some e \<Rightarrow> e) =
        (if pt_direction p = Input then bit_binary OpBitAnd sent m1 else bit_binary OpBitAnd ret m2) \<and>
      (case dec of None \<Rightarrow> bit_binary OpBitAnd sent m1 | Some e \<Rightarrow> e) =
        (if pt_direction p = Input then bit_binary OpBitAnd ret m2 else bit_binary OpBitAnd sent m1)"
    using u by (rule channel_update)
  have name: "rg_name ?r = vc_counter_name p k" and target: "na_target ?na = ?r"
    using channel_counter_target [OF u] by (simp_all add: channel_register_def)
  have nay: "?na \<in> set (fst y)" using fy ku by simp
  note old = vc_fresh_name [OF fresh p k]
  have nan: "rg_name (na_target ?na) = vc_counter_name p k" unfolding target name by (rule refl)
  have next_unique: "\<forall>z\<in>set (md_next M). rg_name (na_target z) = rg_name ?r \<longrightarrow> z = ?na"
    unfolding M(1) name by (intro ballI impI, rule lowered_next_unique [OF nas old(1)])
      (rule vc_next_unique [OF fresh p regs ctrs y(2) nay nan], assumption+)
  have reg_unique: "\<forall>z\<in>set (md_registers M). rg_name z = rg_name ?r \<longrightarrow> z = ?r"
    unfolding ors(2) name by (intro ballI impI, rule lowered_register_unique [OF ors(1) old(2)])
      (rule vc_register_unique [OF fresh p regs dict], assumption+)
  have "?r \<in> set ?rs" using rk nth_mem by metis
  then have reg_in: "?r \<in> set (md_registers M)" using inr unfolding ors(2) by force
  have next_in: "?na \<in> set (md_next M)" using y(1) nay unfolding M(1) by auto
  have dom: "sc_clock (snd y) = d" using runtime_scope_Inr(1) [OF sc] domain_reset_clock cap(3) by fastforce
  have "?conds \<in> set (map snd us)" using ku by simp
  then have "set ?conds \<subseteq> set (concat (map snd us))" unfolding set_concat by (rule UN_upper)
  then have sub: "set (map snd ?conds) \<subseteq> set (map snd (concat (map snd us)))" unfolding set_map by (rule image_mono)
  have "snd y \<in> set (md_scopes M)" using y(1) M(2) by auto
  then have scope: "\<exists>s\<in>set (md_scopes M). \<exists>cs. check_scope s d cs \<and> set (map snd ?conds) \<subseteq> set cs"
    using runtime_scope_Inr(2) [OF sc, unfolded dom] sub by blast
  have "rg_type ?r = UIntType (endpoint_width c)" "rg_domain ?r = Some d" by (simp_all add: channel_register_def)
  moreover have "\<forall>\<sigma>. is_bit \<sigma> (bit_binary OpBitAnd sent m1) \<and> is_bit \<sigma> (bit_binary OpBitAnd ret m2)" by simp
  moreover have "pt_direction p = Output \<longrightarrow> (\<forall>\<sigma>. den \<sigma> (bit_binary OpBitAnd sent m1) \<noteq> 0 \<longrightarrow> den \<sigma> (register_read ?r) \<noteq> 0)"
    using channel_gate [OF ep proto _ rof rk(2) sig [unfolded L] m12(1)] rk(1) by simp
  ultimately have "counter_in M d (pt_direction p) (pt_direction p = Input) c ?r
      (bit_binary OpBitAnd sent m1) (bit_binary OpBitAnd ret m2) ?na ?conds"
    unfolding counter_in_def
    using cap(2) initial_channel_register counts next_in next_unique reg_in reg_unique scope by blast
  moreover note channel_flow [OF su [unfolded L] sig [unfolded L] ep proto m12]
  ultimately show ?thesis unfolding vc_parts_def using name cap by blast
qed

section \<open>Properties\<close>

text \<open>The runs of a lowered module with the flow of channel \<open>k\<close> of endpoint \<open>p\<close>.\<close>

abbreviation vc_run :: "module \<Rightarrow> module \<Rightarrow> port \<Rightarrow> nat \<Rightarrow> valuation \<Rightarrow> int \<Rightarrow> bool" where
  "vc_run m M p k \<equiv> flow_run M (owning_domain m p) (vc_sent m p k) (vc_returned m p k)"

lemma vc_run_counter:
  assumes "vc_parts m M p k c d r here gone na conds" "vc_run m M p k regs j"
  shows "regs (vc_counter_name p k) = (if pt_direction p = Output then c - j else j) \<and> 0 \<le> j \<and> j \<le> c"
proof -
  have "flow_run M (Some d) (vc_sent m p k) (vc_returned m p k) regs j"
    using assms unfolding vc_parts_def by simp
  moreover have "counter_in M d (pt_direction p) (pt_direction p = Input) c r here gone na conds"
    and flow: "\<And>ins regs. vc_sent m p k ins regs = den (wire_env ins regs) here"
      "\<And>ins regs. vc_returned m p k ins regs = den (wire_env ins regs) gone"
    and name: "rg_name r = vc_counter_name p k"
    using assms(1) unfolding vc_parts_def by blast+
  ultimately have "flow_invariant (pt_direction p) (pt_direction p = Input) c (endpoint_width c) (regs (rg_name r)) j"
    using flow_run_invariant [of M d "pt_direction p" "pt_direction p = Input" c r here gone na conds "vc_sent m p k" "vc_returned m p k"]
    by simp
  then show ?thesis unfolding name by (cases "pt_direction p") (simp_all add: flow_invariant_def)
qed

text \<open>
  C16: in every run of a lowered module the counter of a channel is exact: a sender holds the
  capacity less the transfers on the channel that have not been returned, a receiver holds their
  number, and they never exceed the capacity.
\<close>

theorem vc_counters_exact:
  assumes "lower_vc_credit_module digest m = Inr M" "vc_names_fresh m" "p \<in> set (vc_ports m)"
    and "k < channel_count p" "pt_capacity p = Some c" "vc_run m M p k regs j"
  shows "regs (vc_counter_name p k) = (if pt_direction p = Output then c - j else j) \<and> 0 \<le> j \<and> j \<le> c"
proof -
  obtain c' d r here gone na conds where parts: "vc_parts m M p k c' d r here gone na conds"
    using vc_counter_parts [OF assms(1-4)] by blast
  then have "c' = c" using assms(5) unfolding vc_parts_def by simp
  then show ?thesis using vc_run_counter [OF parts assms(6)] by simp
qed

section \<open>All channels of an endpoint\<close>

text \<open>The drivers of the endpoints are scalar expressions of the types of their signals.\<close>

definition vc_typed_drivers :: "module \<Rightarrow> bool" where
  "vc_typed_drivers m \<longleftrightarrow> (case vc_setup m of Inl _ \<Rightarrow> False
     | Inr (regs, L) \<Rightarrow> scalar_drivers L (vc_type (vc_ports m) regs))"

lemma vc_registers_channels:
  "vc_registers m p = Inr x \<Longrightarrow> \<exists>n. pt_channels p = Some n \<and> 1 \<le> n \<and> channel_count p = nat n"
  by (auto simp: vc_registers_def channel_count_def split: option.splits if_splits)

lemma vc_setup_ready:
  assumes "mapE (vc_registers m) (vc_ports m) = Inr regs" "vc_names_fresh m"
  shows "vc_ready (vc_ports m) regs"
proof -
  have "vc_counters p rs" if p: "p \<in> set (vc_ports m)" and rs: "registers_of regs (pt_name p) = Inr rs" for p rs
  proof -
    obtain n where n: "pt_channels p = Some n" "1 \<le> n" "channel_count p = nat n"
      using mapE_member [OF assms(1) p] vc_registers_channels by blast
    obtain c d where "vc_dict m regs p c d" using vc_dict_of [OF assms p] by blast
    then have "rs = map (channel_register p c d) [0..<channel_count p]" using rs by (simp add: vc_dict_def)
    then show ?thesis unfolding vc_counters_def using n endpoint_width_pos [of c] by (auto simp: channel_register_def)
  qed
  then show ?thesis by (simp add: vc_ready_def vc_ports_def)
qed

lemma channel_type_range:
  assumes "pt_channels p = Some (2 ^ j)" "vc_credit_channel_type p = Inr t" "1 \<le> j" "int_fits v t"
  shows "0 \<le> v \<and> v < 2 ^ j"
proof -
  have "bit_length (2 ^ j - 1) \<le> j" by (simp add: bit_length_le_iff)
  then have le: "max 1 (bit_length (2 ^ j - 1)) \<le> j" using assms(3) by simp
  have "t = UIntType (max 1 (bit_length (2 ^ j - 1)))"
    using assms(1,2) by (simp add: vc_credit_channel_type_def split: if_splits)
  then have "0 \<le> v" "v < 2 ^ max 1 (bit_length (2 ^ j - 1))" using assms(4) by simp_all
  moreover have "(2::int) ^ max 1 (bit_length (2 ^ j - 1)) \<le> 2 ^ j" using le by (simp add: power_increasing)
  ultimately show ?thesis by linarith
qed

text \<open>A transfer and a return name a channel of the endpoint.\<close>

lemma channel_signal_range:
  assumes L: "L = vc_lowering m ps regs drivers" and ready: "vc_ready ps regs"
    and typed: "scalar_drivers L (vc_type ps regs)" and ep: "endpoint_port ps n = Inr p" "pt_protocol p = VcCredit"
    and ch: "pt_channels p = Some (2 ^ j)" "1 \<le> j"
    and s: "s = VcChannel \<or> s = VcReturnChannel" and e: "lower_signal L {} n (VcSignal s) = Inr e"
  shows "0 \<le> den \<sigma> e \<and> den \<sigma> e < 2 ^ j"
proof -
  have "\<not> (2::int) ^ j < 1" by (simp add: not_less)
  then obtain t where t: "vc_credit_channel_type p = Inr t" using ch(1) by (simp add: vc_credit_channel_type_def)
  have ft: "vc_field_type p (VcSignal s) = Inr t" using s t by (auto simp: vc_field_type_def)
  have w: "\<exists>w>0. t = UIntType w" using t ch(1) by (auto simp: vc_credit_channel_type_def split: if_splits)
  have tidy: "vc_type ps regs (n, VcSignal s) = t"
    by (rule vc_type_simps [OF ep(1) _ _ ft]) (use s in auto)
  have "typed_scalar e \<and> type_of e = t"
  proof (cases "vc_forward p (VcSignal s)")
    case True
    then have "e = ERead InputRead (protocol_field_name (pt_name p) (signal_value (VcSignal s))) t"
      using vc_signal_field [OF e [unfolded L] ep] s ft by (auto simp: vc_external_def Let_def)
    then show ?thesis using w by auto
  next
    case False
    then obtain xs where xs: "mapE (produce L {}) (vc_needs p n (VcSignal s)) = Inr xs"
      and d: "vc_driven m regs p (VcSignal s) (hd xs) (last xs) = Inr e"
      using vc_signal_field [OF e [unfolded L] ep] s unfolding L by auto
    have "vc_needs p n (VcSignal s) = [(n, VcSignal s)]" using s by (auto simp: vc_needs_def)
    then obtain x where x: "produce L {} (n, VcSignal s) = Inr x" "xs = [x]" using xs by auto
    have ex: "x = e" using d x(2) s by (auto simp: vc_driven_def)
    obtain src where src: "map_of (lw_producers L) (n, VcSignal s) = Some src" "lower L {(n, VcSignal s)} src = Inr e"
      using x(1) unfolding ex by (auto simp: produce_def split: option.splits)
    then have "scalar_source L (vc_type ps regs) src" "type_of src = t"
      using typed map_of_SomeD [OF src(1)] tidy by (auto simp: scalar_drivers_def list_all_iff)
    then show ?thesis using vc.lower_typed [OF ready, of m drivers "{(n, VcSignal s)}" src e] typed src(2) unfolding L by simp
  qed
  then show ?thesis using channel_type_range [OF ch(1) t ch(2)] den_fits by metis
qed

lemma channel_indicator_sum:
  assumes "0 \<le> v" "v < int n"
  shows "(\<Sum>k<n. of_bool (b \<and> v = int k)) = (of_bool b :: int)"
proof -
  have "(\<Sum>k<n. of_bool (b \<and> v = int k)) = (\<Sum>k<n. if k = nat v then of_bool b else (0::int))"
    using assms by (intro sum.cong) auto
  also have "\<dots> = of_bool b" using assms by (simp add: sum.delta nat_less_iff)
  finally show ?thesis .
qed

text \<open>A transfer of the endpoint is a transfer on exactly one of its channels, and so for returns.\<close>

lemma vc_channels_sum:
  assumes low: "lower_vc_credit_module digest m = Inr M" and fresh: "vc_names_fresh m" and p: "p \<in> set (vc_ports m)"
    and typed: "vc_typed_drivers m" and ch: "pt_channels p = Some (2 ^ j)" "1 \<le> j"
  shows "(\<Sum>k<channel_count p. vc_sent m p k ins rs) = of_bool (vc_signal_now m p VcSend ins rs \<noteq> 0)"
    and "(\<Sum>k<channel_count p. vc_returned m p k ins rs) = of_bool (vc_signal_now m p VcReturn ins rs \<noteq> 0)"
proof -
  obtain regs L nas ctrs ors where su: "vc_setup m = Inr (regs, L)"
    and ctrs: "mapE (vc_endpoint_counters digest m L regs) (vc_ports m) = Inr ctrs"
    using vc_module_pieces [OF low p] by metis
  obtain drivers where L: "L = vc_lowering m (vc_ports m) regs drivers" and regs: "mapE (vc_registers m) (vc_ports m) = Inr regs"
    using su by (auto simp: vc_setup_def)
  have "distinct (map pt_name (vc_ports m))" using fresh by (simp add: vc_names_fresh_def)
  note ep = endpoint_port_distinct [OF this p]
  have proto: "pt_protocol p = VcCredit" using p by (simp add: vc_ports_def)
  obtain y where y: "vc_endpoint_counters digest m L regs p = Inr y" using mapE_member [OF ctrs p] by blast
  obtain rs' where "registers_of regs (pt_name p) = Inr rs'" using y by (auto simp: vc_endpoint_counters_def)
  from y this obtain sent ret vc rvc c us where sig: "channel_signals L p sent ret vc rvc"
    by (rule endpoint_counters_parts)
  have drv: "scalar_drivers L (vc_type (vc_ports m) regs)" using typed su by (simp add: vc_typed_drivers_def)
  have n: "int (channel_count p) = 2 ^ j" using ch(1) by (simp add: channel_count_def)
  have range: "0 \<le> vc_signal_now m p s ins rs \<and> vc_signal_now m p s ins rs < int (channel_count p)"
    if "s = VcChannel \<or> s = VcReturnChannel" for s
  proof -
    have "\<exists>e. lower_signal L {} (pt_name p) (VcSignal s) = Inr e" using that sig by (elim disjE) (simp_all add: channel_signals_def)
    then obtain e where e: "lower_signal L {} (pt_name p) (VcSignal s) = Inr e" by blast
    then show ?thesis
      using channel_signal_range [OF L vc_setup_ready [OF regs fresh] drv ep proto ch that e] su n
      by (simp add: vc_signal_now_def)
  qed
  show "(\<Sum>k<channel_count p. vc_sent m p k ins rs) = of_bool (vc_signal_now m p VcSend ins rs \<noteq> 0)"
    "(\<Sum>k<channel_count p. vc_returned m p k ins rs) = of_bool (vc_signal_now m p VcReturn ins rs \<noteq> 0)"
    unfolding vc_sent_def vc_returned_def
    by (rule channel_indicator_sum; use range in blast)+
qed

text \<open>A run of the endpoint is a run of each of its channels.\<close>

definition endpoint_sent :: "module \<Rightarrow> port \<Rightarrow> valuation \<Rightarrow> valuation \<Rightarrow> int" where
  "endpoint_sent m p ins regs = of_bool (vc_signal_now m p VcSend ins regs \<noteq> 0)"

definition endpoint_returned :: "module \<Rightarrow> port \<Rightarrow> valuation \<Rightarrow> valuation \<Rightarrow> int" where
  "endpoint_returned m p ins regs = of_bool (vc_signal_now m p VcReturn ins regs \<noteq> 0)"

lemma flow_run_split:
  assumes run: "flow_run M flow_clock send give regs K"
    and sends: "\<And>ins regs. (\<Sum>k<n. sends k ins regs) = send ins regs"
    and gives: "\<And>ins regs. (\<Sum>k<n. gives k ins regs) = give ins regs"
  shows "\<exists>f. (\<forall>k<n. flow_run M flow_clock (sends k) (gives k) regs (f k)) \<and> (\<Sum>k<n. f k) = K"
  using run
proof (induction rule: flow_run.induct)
  case (begins regs)
  then show ?case by (intro exI [of _ "\<lambda>_. 0"]) (simp add: flow_run.begins)
next
  case (ticks regs K d ins regs' K')
  then obtain f where f: "\<forall>k<n. flow_run M flow_clock (sends k) (gives k) regs (f k)" "(\<Sum>k<n. f k) = K" by blast
  let ?g = "\<lambda>k. if flow_clock \<noteq> Some d then f k else if reset_active M ins d then 0
      else f k + sends k ins regs - gives k ins regs"
  have "\<forall>k<n. flow_run M flow_clock (sends k) (gives k) regs' (?g k)"
  proof (intro allI impI)
    fix k assume "k < n"
    then have "flow_run M flow_clock (sends k) (gives k) regs (f k)" using f(1) by blast
    then show "flow_run M flow_clock (sends k) (gives k) regs' (?g k)" by (rule flow_run.ticks [OF _ ticks.hyps(2) refl])
  qed
  moreover have "(\<Sum>k<n. ?g k) = K'"
    unfolding ticks.hyps(3) using f(2) sends [of ins regs] gives [of ins regs] by (simp add: sum.distrib sum_subtractf)
  ultimately show ?case by (intro exI [of _ ?g] conjI)
qed

text \<open>
  C18: no transfer of an endpoint of virtual channels is lost to the accounting: with a number of
  channels the front end admits (a power of two, at least two) and well typed scalar
  drivers, and where no register of the source module has the private name of a counter, the counters of a sender together hold the capacity of all channels less the transfers that have not
  been returned, those of a receiver together hold the number of these transfers, and there are
  never more of them than the channels can hold.
\<close>

theorem vc_credits_total:
  assumes "lower_vc_credit_module digest m = Inr M" "vc_names_fresh m" "p \<in> set (vc_ports m)" "vc_typed_drivers m"
    and "pt_channels p = Some (2 ^ j)" "1 \<le> j" "pt_capacity p = Some c"
    and "flow_run M (owning_domain m p) (endpoint_sent m p) (endpoint_returned m p) regs K"
  shows "(\<Sum>k<channel_count p. regs (vc_counter_name p k)) = (if pt_direction p = Output then 2 ^ j * c - K else K) \<and>
    0 \<le> K \<and> K \<le> 2 ^ j * c"
proof -
  note sums = vc_channels_sum [OF assms(1-6)]
  obtain f where f: "\<forall>k<channel_count p. vc_run m M p k regs (f k)" "(\<Sum>k<channel_count p. f k) = K"
    using flow_run_split [OF assms(8), of "vc_sent m p" "channel_count p" "vc_returned m p"] sums
    unfolding endpoint_sent_def endpoint_returned_def by blast
  have each: "regs (vc_counter_name p k) = (if pt_direction p = Output then c - f k else f k) \<and> 0 \<le> f k \<and> f k \<le> c"
    if k: "k < channel_count p" for k
  proof -
    obtain c' d r here gone na conds where parts: "vc_parts m M p k c' d r here gone na conds"
      using vc_counter_parts [OF assms(1-3) k] by blast
    then have "c' = c" using assms(7) unfolding vc_parts_def by simp
    then show ?thesis using vc_run_counter [OF parts, of regs "f k"] f(1) k by simp
  qed
  have n: "int (channel_count p) = 2 ^ j" using assms(5) by (simp add: channel_count_def)
  have "(\<Sum>k<channel_count p. regs (vc_counter_name p k)) = (\<Sum>k<channel_count p. if pt_direction p = Output then c - f k else f k)"
    using each by (intro sum.cong) auto
  also have "\<dots> = (if pt_direction p = Output then 2 ^ j * c - K else K)"
    using f(2) n by (simp add: sum_subtractf)
  finally have total: "(\<Sum>k<channel_count p. regs (vc_counter_name p k)) = (if pt_direction p = Output then 2 ^ j * c - K else K)" .
  have "0 \<le> (\<Sum>k<channel_count p. f k)" using each by (intro sum_nonneg) simp
  moreover have "(\<Sum>k<channel_count p. f k) \<le> of_nat (card {..<channel_count p}) * c"
    using each by (intro sum_bounded_above) simp
  ultimately show ?thesis using total f(2) n by simp
qed

section \<open>Endpoints of four channels\<close>

definition vc_port :: "port_direction \<Rightarrow> string \<Rightarrow> int \<Rightarrow> int \<Rightarrow> port" where
  "vc_port dir n v c = \<lparr>pt_direction = dir, pt_name = n, pt_type = UIntType 8, pt_protocol = VcCredit,
     pt_capacity = Some c, pt_domain = None, pt_channels = Some v\<rparr>"

definition vc_drive :: "port \<Rightarrow> vc_signal \<Rightarrow> hw_expr \<Rightarrow> assignment" where
  "vc_drive p s e = \<lparr>as_target = ToPort p, as_expression = e, as_signal = Some (VcSignal s)\<rparr>"

definition vc_source :: module where
  "vc_source = (let p = vc_port Output ''tx'' 4 2 in
     leaf_module ''VcSource'' [wire_input ''request'', wire_port Input ''channel'' (UIntType 2) None, p]
       [vc_drive p VcPayload (EConst 5 (UIntType 8)), vc_drive p VcChannel (ERead InputRead ''channel'' (UIntType 2)),
        vc_drive p VcSend (ERead InputRead ''request'' BitType)])"

definition vc_sink :: module where
  "vc_sink = (let p = vc_port Input ''rx'' 4 2 in
     leaf_module ''VcSink'' [wire_input ''release'', wire_port Input ''channel'' (UIntType 2) None, p]
       [vc_drive p VcReturn (ERead InputRead ''release'' BitType),
        vc_drive p VcReturnChannel (ERead InputRead ''channel'' (UIntType 2))])"

definition vc_lowered :: "module \<Rightarrow> module" where
  "vc_lowered m = projr (lower_vc_credit_module (\<lambda>t. t) m)"

definition wires :: "(string \<times> int) list \<Rightarrow> valuation" where
  "wires xs n = (case map_of xs n of None \<Rightarrow> 0 | Some v \<Rightarrow> v)"

lemma vc_source_lowers: "lower_vc_credit_module (\<lambda>t. t) vc_source = Inr (vc_lowered vc_source)"
  by code_simp

lemma vc_sink_lowers: "lower_vc_credit_module (\<lambda>t. t) vc_sink = Inr (vc_lowered vc_sink)"
  by code_simp

lemma vc_sink_run: "vc_run vc_sink (vc_lowered vc_sink) (vc_port Input ''rx'' 4 2) 1
    (after_edge (vc_lowered vc_sink) ''clk'' (wires [(''$zlang_protocol:rx:send'', 1), (''$zlang_protocol:rx:vc'', 1)]) (\<lambda>_. 0)) 1"
proof (rule flow_run.ticks)
  show "vc_run vc_sink (vc_lowered vc_sink) (vc_port Input ''rx'' 4 2) 1 (\<lambda>_. 0) 0"
    by (rule flow_run.begins) code_simp
  show "clock_edge (vc_lowered vc_sink) ''clk'' (wires [(''$zlang_protocol:rx:send'', 1), (''$zlang_protocol:rx:vc'', 1)]) (\<lambda>_. 0)
      (after_edge (vc_lowered vc_sink) ''clk'' (wires [(''$zlang_protocol:rx:send'', 1), (''$zlang_protocol:rx:vc'', 1)]) (\<lambda>_. 0))"
    by (rule clock_edge.edge) code_simp
qed code_simp

theorem vc_counters_exact_witness:
  "after_edge (vc_lowered vc_sink) ''clk'' (wires [(''$zlang_protocol:rx:send'', 1), (''$zlang_protocol:rx:vc'', 1)]) (\<lambda>_. 0)
      (vc_counter_name (vc_port Input ''rx'' 4 2) 1) = (if pt_direction (vc_port Input ''rx'' 4 2) = Output then 2 - 1 else 1) \<and>
    (0::int) \<le> 1 \<and> (1::int) \<le> 2"
  by (rule vc_counters_exact [OF vc_sink_lowers _ _ _ _ vc_sink_run]) code_simp+

lemma vc_source_typed: "vc_typed_drivers vc_source"
  by code_simp

definition busy_wires :: valuation where
  "busy_wires = wires [(''request'', 1), (''channel'', 3)]"

lemma vc_source_run:
  "flow_run (vc_lowered vc_source) (owning_domain vc_source (vc_port Output ''tx'' 4 2))
    (endpoint_sent vc_source (vc_port Output ''tx'' 4 2)) (endpoint_returned vc_source (vc_port Output ''tx'' 4 2))
    (after_edge (vc_lowered vc_source) ''clk'' busy_wires (\<lambda>_. 2)) 1"
proof (rule flow_run.ticks)
  show "flow_run (vc_lowered vc_source) (owning_domain vc_source (vc_port Output ''tx'' 4 2))
    (endpoint_sent vc_source (vc_port Output ''tx'' 4 2)) (endpoint_returned vc_source (vc_port Output ''tx'' 4 2)) (\<lambda>_. 2) 0"
    by (rule flow_run.begins) code_simp
  show "clock_edge (vc_lowered vc_source) ''clk'' busy_wires (\<lambda>_. 2)
      (after_edge (vc_lowered vc_source) ''clk'' busy_wires (\<lambda>_. 2))"
    by (rule clock_edge.edge) code_simp
qed code_simp

theorem vc_credits_total_witness:
  "(\<Sum>k<channel_count (vc_port Output ''tx'' 4 2).
      after_edge (vc_lowered vc_source) ''clk'' busy_wires (\<lambda>_. 2) (vc_counter_name (vc_port Output ''tx'' 4 2) k)) =
      (if pt_direction (vc_port Output ''tx'' 4 2) = Output then 2 ^ 2 * 2 - 1 else 1) \<and>
    (0::int) \<le> 1 \<and> (1::int) \<le> 2 ^ 2 * 2"
  by (rule vc_credits_total [OF vc_source_lowers _ _ vc_source_typed _ _ _ vc_source_run]) (code_simp | simp add: vc_port_def)+

end
