(* ===== verification/Packet.thy ===== *)
theory Packet
  imports Lowering
begin

text \<open>
  Packet arbiters (\<^verbatim>\<open>zlang/simulation_packet.py\<close>).  A module that consists of one arbiter is erased
  into scalar fields, the registers of the grant and of the stall tracker, and run-time checks.
  The arbiter keeps a granted source until its beat or its packet has been transferred; a source
  that is held must not change what it offers.

  The definitions follow \<^verbatim>\<open>lower_packet_arbiter_module\<close>: the expressions it builds are functions of
  the arbiter, of its clock domain \<open>d\<close> and of the name \<open>rst\<close> of its reset.
\<close>

section \<open>Rewriting references\<close>

fun packet_ref :: "hw_expr \<Rightarrow> signal_key option" where
  "packet_ref (EPacket n s t) = Some (n, PacketSignal s)"
| "packet_ref _ = None"

type_synonym packet_values = "(signal_key \<times> hw_expr) list"

text \<open>The two lookups of \<open>rewrite_special\<close>; the fields of a packet endpoint are looked up, not driven.\<close>

definition packet_resolve :: "packet_values \<Rightarrow> string \<Rightarrow> scalar_signal \<Rightarrow> proto_error + resolution" where
  "packet_resolve values n s = (if s = PacketSignal PkTransfer
     then (case (map_of values (n, PacketSignal PkValid), map_of values (n, PacketSignal PkReady)) of
         (Some v, Some r) \<Rightarrow> Inr ([], \<lambda>_. Inr (bit_binary OpBitAnd v r))
       | _ \<Rightarrow> Inl (IncompleteEndpoint n))
     else (case map_of values (n, s) of
         None \<Rightarrow> Inl (UnknownField (n, s)) | Some e \<Rightarrow> Inr ([], \<lambda>_. Inr e)))"

definition packet_lowering :: "packet_values \<Rightarrow> lowering" where
  "packet_lowering values = \<lparr>lw_ref = packet_ref, lw_resolve = packet_resolve values, lw_producers = []\<rparr>"

section \<open>Selection\<close>

text \<open>\<^verbatim>\<open>_packet_select\<close>, for a non-empty tuple of choices.\<close>

definition select_choice :: "hw_expr \<Rightarrow> hw_expr \<Rightarrow> nat \<times> hw_expr \<Rightarrow> hw_expr" where
  "select_choice sel selected c = EMux (EBinary OpEqual sel (EConst (int (fst c)) (type_of sel)) (type_of sel) BitType)
     (snd c) selected (type_of (snd c))"

definition packet_select :: "hw_expr \<Rightarrow> hw_expr list \<Rightarrow> hw_expr" where
  "packet_select sel choices = foldl (select_choice sel) (hd choices) (enumerate 1 (tl choices))"

text \<open>\<^verbatim>\<open>_packet_priority_candidate\<close>: the first valid source of an order, and whether there is one.\<close>

definition priority_step :: "hw_expr list \<Rightarrow> hwtype \<Rightarrow> nat \<Rightarrow> hw_expr \<times> hw_expr \<Rightarrow> hw_expr \<times> hw_expr" where
  "priority_step valid t i c =
     (EMux (valid ! i) (EConst (int i) t) (fst c) t, bit_binary OpBitOr (valid ! i) (snd c))"

definition packet_priority_candidate :: "hw_expr list \<Rightarrow> nat list \<Rightarrow> hwtype \<Rightarrow> hw_expr \<times> hw_expr" where
  "packet_priority_candidate valid order t = foldr (priority_step valid t) order (EConst 0 t, EConst 0 BitType)"

section \<open>State\<close>

definition packet_register :: "string \<Rightarrow> string option \<Rightarrow> hwtype \<Rightarrow> string \<Rightarrow> register" where
  "packet_register kind source t d = \<lparr>rg_name = packet_state_name kind source, rg_type = t,
     rg_initial = Some (EConst 0 t), rg_domain = Some d\<rparr>"

definition state_read :: "register \<Rightarrow> hw_expr" where
  "state_read r = ERead RegisterRead (rg_name r) (rg_type r)"

definition owner_type :: "packet_arbiter \<Rightarrow> hwtype" where
  "owner_type a = UIntType (max 1 (bit_length (int (length (ar_sources a)) - 1)))"

definition active_register :: "string \<Rightarrow> register" where
  "active_register d = packet_register ''grant_active'' None BitType d"

definition owner_register :: "packet_arbiter \<Rightarrow> string \<Rightarrow> register" where
  "owner_register a d = packet_register ''grant_owner'' None (owner_type a) d"

definition priority_register :: "packet_arbiter \<Rightarrow> string \<Rightarrow> register" where
  "priority_register a d = packet_register ''next_priority'' None (owner_type a) d"

definition stalled_register :: "string \<Rightarrow> port \<Rightarrow> register" where
  "stalled_register d p = packet_register ''stalled'' (Some (pt_name p)) BitType d"

definition payload_register :: "string \<Rightarrow> port \<Rightarrow> register" where
  "payload_register d p = packet_register ''payload'' (Some (pt_name p)) (pt_type p) d"

definition last_register :: "string \<Rightarrow> port \<Rightarrow> register" where
  "last_register d p = packet_register ''last'' (Some (pt_name p)) BitType d"

section \<open>The grant\<close>

definition packet_read :: "packet_signal \<Rightarrow> port \<Rightarrow> hw_expr" where
  "packet_read s p = ERead InputRead (protocol_field_name (pt_name p) (packet_value s))
     (if s = PkPayload then pt_type p else BitType)"

definition source_reads :: "packet_arbiter \<Rightarrow> packet_signal \<Rightarrow> hw_expr list" where
  "source_reads a s = map (packet_read s) (ar_sources a)"

definition rotated_order :: "nat \<Rightarrow> nat \<Rightarrow> nat list" where
  "rotated_order n start = map (\<lambda>offset. (start + offset) mod n) [0..<n]"

definition arb_candidate :: "packet_arbiter \<Rightarrow> string \<Rightarrow> hw_expr \<times> hw_expr" where
  "arb_candidate a d = (let n = length (ar_sources a); valid = source_reads a PkValid; t = owner_type a in
     case ar_policy a of
       FixedPriority \<Rightarrow> packet_priority_candidate valid [0..<n] t
     | RoundRobin \<Rightarrow> (let priority = state_read (priority_register a d);
           candidates = map (\<lambda>start. packet_priority_candidate valid (rotated_order n start) t) [0..<n] in
         (packet_select priority (map fst candidates), packet_select priority (map snd candidates))))"

definition arb_selected :: "packet_arbiter \<Rightarrow> string \<Rightarrow> hw_expr" where
  "arb_selected a d = EMux (state_read (active_register d)) (state_read (owner_register a d)) (fst (arb_candidate a d)) (owner_type a)"

definition reset_free :: "string \<Rightarrow> hw_expr" where
  "reset_free rst = bit_not (ERead InputRead (''$reset:'' @ rst) BitType)"

definition arb_grant_valid :: "packet_arbiter \<Rightarrow> string \<Rightarrow> string \<Rightarrow> hw_expr" where
  "arb_grant_valid a d rst = bit_binary OpBitAnd (reset_free rst)
     (bit_binary OpBitOr (state_read (active_register d)) (snd (arb_candidate a d)))"

definition arb_chosen :: "packet_arbiter \<Rightarrow> string \<Rightarrow> packet_signal \<Rightarrow> hw_expr" where
  "arb_chosen a d s = packet_select (arb_selected a d) (source_reads a s)"

definition arb_valid :: "packet_arbiter \<Rightarrow> string \<Rightarrow> string \<Rightarrow> hw_expr" where
  "arb_valid a d rst = bit_binary OpBitAnd (reset_free rst)
     (bit_binary OpBitAnd (arb_grant_valid a d rst) (arb_chosen a d PkValid))"

definition arb_payload :: "packet_arbiter \<Rightarrow> string \<Rightarrow> string \<Rightarrow> hw_expr" where
  "arb_payload a d rst = (let t = pt_type (ar_destination a) in
     EMux (arb_grant_valid a d rst) (arb_chosen a d PkPayload) (EConst 0 t) t)"

definition arb_last :: "packet_arbiter \<Rightarrow> string \<Rightarrow> string \<Rightarrow> hw_expr" where
  "arb_last a d rst = bit_binary OpBitAnd (arb_grant_valid a d rst) (arb_chosen a d PkLast)"

definition arb_transfer :: "packet_arbiter \<Rightarrow> string \<Rightarrow> string \<Rightarrow> hw_expr" where
  "arb_transfer a d rst = bit_binary OpBitAnd (arb_valid a d rst) (packet_read PkReady (ar_destination a))"

definition arb_complete :: "packet_arbiter \<Rightarrow> string \<Rightarrow> string \<Rightarrow> hw_expr" where
  "arb_complete a d rst = (case ar_scope a of
       BeatGrant \<Rightarrow> arb_transfer a d rst
     | PacketGrant \<Rightarrow> bit_binary OpBitAnd (arb_transfer a d rst) (arb_chosen a d PkLast))"

definition arb_ready :: "packet_arbiter \<Rightarrow> string \<Rightarrow> string \<Rightarrow> nat \<Rightarrow> hw_expr" where
  "arb_ready a d rst i = bit_binary OpBitAnd (arb_transfer a d rst)
     (EBinary OpEqual (arb_selected a d) (EConst (int i) (owner_type a)) (owner_type a) BitType)"

text \<open>The fields of all endpoints, in the order the dictionary is filled.\<close>

definition arb_values :: "packet_arbiter \<Rightarrow> string \<Rightarrow> string \<Rightarrow> packet_values" where
  "arb_values a d rst = (let dest = pt_name (ar_destination a) in dict_of
     (concat (map (\<lambda>p. map (\<lambda>s. ((pt_name p, PacketSignal s), packet_read s p)) [PkPayload, PkValid, PkLast]) (ar_sources a))
      @ [((dest, PacketSignal PkReady), packet_read PkReady (ar_destination a)),
         ((dest, PacketSignal PkPayload), arb_payload a d rst), ((dest, PacketSignal PkValid), arb_valid a d rst),
         ((dest, PacketSignal PkLast), arb_last a d rst)]
      @ map (\<lambda>(i, p). ((pt_name p, PacketSignal PkReady), arb_ready a d rst i)) (enumerate 0 (ar_sources a))))"

section \<open>Next state\<close>

definition arb_next :: "register \<Rightarrow> hw_expr \<Rightarrow> next_assignment" where
  "arb_next r e = \<lparr>na_target = r, na_expression = e, na_activation = None\<rparr>"

definition arb_acquire :: "packet_arbiter \<Rightarrow> string \<Rightarrow> hw_expr" where
  "arb_acquire a d = bit_binary OpBitAnd (bit_not (state_read (active_register d))) (snd (arb_candidate a d))"

definition arb_next_active :: "packet_arbiter \<Rightarrow> string \<Rightarrow> string \<Rightarrow> hw_expr" where
  "arb_next_active a d rst = EMux (arb_complete a d rst) (EConst 0 BitType)
     (EMux (arb_acquire a d) (EConst 1 BitType) (state_read (active_register d)) BitType) BitType"

definition arb_next_owner :: "packet_arbiter \<Rightarrow> string \<Rightarrow> hw_expr" where
  "arb_next_owner a d = EMux (arb_acquire a d) (arb_selected a d) (state_read (owner_register a d)) (owner_type a)"

definition arb_next_priority :: "packet_arbiter \<Rightarrow> string \<Rightarrow> string \<Rightarrow> hw_expr" where
  "arb_next_priority a d rst = (let t = owner_type a; sel = arb_selected a d in
     EMux (arb_complete a d rst)
       (EMux (EBinary OpEqual sel (EConst (int (length (ar_sources a)) - 1) t) t BitType) (EConst 0 t)
          (EAdd sel (EConst 1 t) t) t)
       (state_read (priority_register a d)) t)"

definition grant_nexts :: "packet_arbiter \<Rightarrow> string \<Rightarrow> string \<Rightarrow> next_assignment list" where
  "grant_nexts a d rst = [arb_next (active_register d) (arb_next_active a d rst), arb_next (owner_register a d) (arb_next_owner a d)]
     @ (if ar_policy a = RoundRobin then [arb_next (priority_register a d) (arb_next_priority a d rst)] else [])"

text \<open>\<^verbatim>\<open>_PacketStallTracker.lower\<close>.\<close>

definition stall_nexts :: "packet_arbiter \<Rightarrow> string \<Rightarrow> string \<Rightarrow> nat \<times> port \<Rightarrow> next_assignment list" where
  "stall_nexts a d rst ip = (let p = snd ip in
     [arb_next (stalled_register d p) (bit_binary OpBitAnd (packet_read PkValid p) (bit_not (arb_ready a d rst (fst ip)))),
      arb_next (payload_register d p) (packet_read PkPayload p),
      arb_next (last_register d p) (packet_read PkLast p)])"

definition stall_condition :: "string \<Rightarrow> port \<Rightarrow> string \<times> hw_expr" where
  "stall_condition d p =
     (''packet source '' @ [CHR 0x27] @ pt_name p @ [CHR 0x27] @ '' changed while stalled'',
      bit_binary OpBitOr (bit_not (state_read (stalled_register d p)))
        (bit_binary OpBitAnd (packet_read PkValid p) (bit_binary OpBitAnd
          (EBinary OpEqual (packet_read PkPayload p) (state_read (payload_register d p)) (pt_type p) BitType)
          (EBinary OpEqual (packet_read PkLast p) (state_read (last_register d p)) BitType BitType))))"

definition arb_registers :: "packet_arbiter \<Rightarrow> string \<Rightarrow> register list" where
  "arb_registers a d = [active_register d, owner_register a d]
     @ (if ar_policy a = RoundRobin then [priority_register a d] else [])
     @ map (stalled_register d) (ar_sources a) @ map (payload_register d) (ar_sources a) @ map (last_register d) (ar_sources a)"

definition arb_nexts :: "packet_arbiter \<Rightarrow> string \<Rightarrow> string \<Rightarrow> next_assignment list" where
  "arb_nexts a d rst = grant_nexts a d rst @ concat (map (stall_nexts a d rst) (enumerate 0 (ar_sources a)))"

section \<open>Lowering the module\<close>

definition packet_admissible :: "module \<Rightarrow> proto_error + packet_arbiter" where
  "packet_admissible m = (if md_domains m = [] \<or> length (md_arbiters m) \<noteq> 1 then Inl PacketOneArbiter
     else (let a = hd (md_arbiters m) in
       if set (map pt_name (md_ports m)) \<noteq> insert (pt_name (ar_destination a)) (set (map pt_name (ar_sources a)))
         \<or> list_ex (\<lambda>p. pt_protocol p \<noteq> Packet) (md_ports m)
         \<or> md_assignments m \<noteq> [] \<or> md_registers m \<noteq> [] \<or> md_stored m \<or> md_linked m
       then Inl PacketOnlyEndpoints
       else if ar_sources a = [] then Inl PacketNoSources else Inr a))"

definition packet_clock :: "module \<Rightarrow> packet_arbiter \<Rightarrow> proto_error + (string \<times> string)" where
  "packet_clock m a = (case owning_domain m (ar_destination a) of
       None \<Rightarrow> Inl PacketNoClock
     | Some d \<Rightarrow> (case clock_reset m d of None \<Rightarrow> Inl PacketNoReset | Some rst \<Rightarrow> Inr (d, rst)))"

definition packet_scalars :: "module \<Rightarrow> packet_arbiter \<Rightarrow> proto_error + port list" where
  "packet_scalars m a = bindE (foldE add_protocol_endpoint (md_ports m) []) (\<lambda>ps.
     let dest = ar_destination a in
     Inr (ps @ [wire_port Output (protocol_field_name (pt_name dest) ''grant'') (owner_type a) (pt_domain dest),
       wire_port Output (protocol_field_name (pt_name dest) ''grant_valid'') BitType (pt_domain dest)]))"

text \<open>The fields the module drives: those whose wire is an output.\<close>

definition packet_assignment :: "port list \<Rightarrow> signal_key \<times> hw_expr \<Rightarrow> proto_error + assignment list" where
  "packet_assignment scalars v = bindE (endpoint_port scalars (protocol_field_name (fst (fst v)) (signal_value (snd (fst v))))) (\<lambda>p.
     Inr (if pt_direction p = Output then [\<lparr>as_target = ToPort p, as_expression = snd v, as_signal = None\<rparr>] else []))"

definition packet_assignments :: "port list \<Rightarrow> packet_arbiter \<Rightarrow> string \<Rightarrow> string \<Rightarrow> proto_error + assignment list" where
  "packet_assignments scalars a d rst = bindE (mapE (packet_assignment scalars) (arb_values a d rst)) (\<lambda>as.
     let dest = pt_name (ar_destination a) in
     bindE (scalar_assignment scalars (protocol_field_name dest ''grant'') (arb_selected a d)) (\<lambda>g.
     bindE (scalar_assignment scalars (protocol_field_name dest ''grant_valid'') (arb_grant_valid a d rst)) (\<lambda>gv.
       Inr (concat as @ [g, gv]))))"

text \<open>The retained fields the packet lowering keeps; the others become empty.\<close>

definition packet_keeps :: "string \<times> hw_expr list \<Rightarrow> string \<times> hw_expr list" where
  "packet_keeps f = (if fst f \<in> {''functions'', ''locals'', ''callable_definitions''} then f else (fst f, []))"

definition packet_ports :: "module \<Rightarrow> port list" where
  "packet_ports m = filter (\<lambda>p. pt_protocol p = Packet) (md_ports m)"

definition lower_packet_arbiter_module :: "(string \<Rightarrow> string) \<Rightarrow> module \<Rightarrow> proto_error + module" where
  "lower_packet_arbiter_module digest m = (if packet_ports m = [] then Inr m
     else bindE (packet_admissible m) (\<lambda>a.
       bindE (packet_clock m a) (\<lambda>(d, rst).
       bindE (packet_scalars m a) (\<lambda>scalars.
       bindE (packet_assignments scalars a d rst) (\<lambda>as.
       bindE (runtime_protocol_scope digest m (ar_destination a) (map (stall_condition d) (ar_sources a))) (\<lambda>s.
       let L = packet_lowering (arb_values a d rst) in
       bindE (mapE (lower_scope L) (md_scopes m)) (\<lambda>scs.
         finalize_module L (m\<lparr>md_retained := map packet_keeps (md_retained m), md_arbiters := []\<rparr>) scalars as
           (arb_registers a d) (arb_nexts a d rst) (scs @ [s]))))))))"

end
