(* ===== verification/Arbiter.thy ===== *)
theory Arbiter
  imports Packet
begin

text \<open>
  The specification of a packet arbiter: a state of three values and one step per clock edge.  It
  promises two things.  A packet grant is kept until the last beat of the packet, and under round
  robin a source that keeps offering is overtaken by at most as many grants as there are sources.
\<close>

section \<open>The machine\<close>

record arb_state =
  as_active :: bool
  as_owner :: nat
  as_priority :: nat

record arb_inputs =
  ai_valid :: "bool list"
  ai_last :: "bool list"
  ai_ready :: bool

definition arb_reset :: arb_state where
  "arb_reset = \<lparr>as_active = False, as_owner = 0, as_priority = 0\<rparr>"

definition pick :: "arbitration_policy \<Rightarrow> nat \<Rightarrow> arb_inputs \<Rightarrow> nat \<Rightarrow> nat option" where
  "pick pol n i start = List.find (\<lambda>k. ai_valid i ! k)
     (case pol of FixedPriority \<Rightarrow> [0..<n] | RoundRobin \<Rightarrow> rotated_order n start)"

definition choice :: "arbitration_policy \<Rightarrow> nat \<Rightarrow> arb_inputs \<Rightarrow> arb_state \<Rightarrow> nat" where
  "choice pol n i s = (if as_active s then as_owner s
     else (case pick pol n i (as_priority s) of None \<Rightarrow> 0 | Some k \<Rightarrow> k))"

definition granted :: "arbitration_policy \<Rightarrow> nat \<Rightarrow> arb_inputs \<Rightarrow> arb_state \<Rightarrow> bool" where
  "granted pol n i s \<longleftrightarrow> as_active s \<or> pick pol n i (as_priority s) \<noteq> None"

definition moves :: "arbitration_policy \<Rightarrow> nat \<Rightarrow> arb_inputs \<Rightarrow> arb_state \<Rightarrow> bool" where
  "moves pol n i s \<longleftrightarrow> granted pol n i s \<and> ai_valid i ! choice pol n i s \<and> ai_ready i"

definition completes :: "arbitration_policy \<Rightarrow> grant_scope \<Rightarrow> nat \<Rightarrow> arb_inputs \<Rightarrow> arb_state \<Rightarrow> bool" where
  "completes pol sc n i s \<longleftrightarrow> moves pol n i s \<and> (sc = BeatGrant \<or> ai_last i ! choice pol n i s)"

definition arb_step :: "arbitration_policy \<Rightarrow> grant_scope \<Rightarrow> nat \<Rightarrow> arb_inputs \<Rightarrow> arb_state \<Rightarrow> arb_state" where
  "arb_step pol sc n i s =
     \<lparr>as_active = (granted pol n i s \<and> \<not> completes pol sc n i s),
      as_owner = (if granted pol n i s then choice pol n i s else as_owner s),
      as_priority = (if pol = RoundRobin \<and> completes pol sc n i s then Suc (choice pol n i s) mod n else as_priority s)\<rparr>"

definition arb_wf :: "nat \<Rightarrow> arb_state \<Rightarrow> bool" where
  "arb_wf n s \<longleftrightarrow> as_owner s < n \<and> as_priority s < n"

text \<open>The beat of a step: the source and whether it is the last of its packet.\<close>

definition beat_of :: "arbitration_policy \<Rightarrow> nat \<Rightarrow> arb_inputs \<Rightarrow> arb_state \<Rightarrow> (nat \<times> bool) list" where
  "beat_of pol n i s = (if moves pol n i s then [(choice pol n i s, ai_last i ! choice pol n i s)] else [])"

lemma find_memD: "List.find P xs = Some x \<Longrightarrow> x \<in> set xs \<and> P x"
  by (simp add: find_Some_iff) (metis nth_mem)

lemma pick_bound: "0 < n \<Longrightarrow> pick pol n i p = Some k \<Longrightarrow> k < n \<and> ai_valid i ! k"
  by (cases pol) (auto simp: pick_def rotated_order_def dest!: find_memD)

lemma choice_bound: "0 < n \<Longrightarrow> arb_wf n s \<Longrightarrow> choice pol n i s < n"
  using pick_bound [of n pol i "as_priority s"] by (auto simp: choice_def arb_wf_def split: option.splits)

lemma arb_step_wf: "0 < n \<Longrightarrow> arb_wf n s \<Longrightarrow> arb_wf n (arb_step pol sc n i s)"
  using choice_bound [of n s pol i] unfolding arb_wf_def arb_step_def by auto

section \<open>Packets are not interleaved\<close>

text \<open>After a beat that is not the last of its packet, the grant is held for its source.\<close>

definition held :: "arb_state \<Rightarrow> (nat \<times> bool) list \<Rightarrow> bool" where
  "held s tr \<longleftrightarrow> tr = [] \<or> snd (last tr) \<or> as_active s \<and> as_owner s = fst (last tr)"

definition contiguous :: "(nat \<times> bool) list \<Rightarrow> bool" where
  "contiguous tr \<longleftrightarrow> (\<forall>k. Suc k < length tr \<longrightarrow> \<not> snd (tr ! k) \<longrightarrow> fst (tr ! Suc k) = fst (tr ! k))"

lemma contiguous_snoc:
  "contiguous tr \<Longrightarrow> tr = [] \<or> snd (last tr) \<or> fst b = fst (last tr) \<Longrightarrow> contiguous (tr @ [b])"
  unfolding contiguous_def
proof (intro allI impI)
  fix k
  assume tr: "\<forall>k. Suc k < length tr \<longrightarrow> \<not> snd (tr ! k) \<longrightarrow> fst (tr ! Suc k) = fst (tr ! k)"
    and b: "tr = [] \<or> snd (last tr) \<or> fst b = fst (last tr)"
    and k: "Suc k < length (tr @ [b])" "\<not> snd ((tr @ [b]) ! k)"
  show "fst ((tr @ [b]) ! Suc k) = fst ((tr @ [b]) ! k)"
  proof (cases "Suc k < length tr")
    case True
    then show ?thesis using tr k(2) by (simp add: nth_append)
  next
    case False
    then have len: "length tr = Suc k" using k(1) by simp
    then have "tr \<noteq> []" by auto
    moreover from this have "last tr = tr ! k" using len by (simp add: last_conv_nth)
    ultimately show ?thesis using b k(2) len by (simp add: nth_append)
  qed
qed

lemma packets_kept:
  assumes "held s tr" "contiguous tr"
  shows "held (arb_step pol PacketGrant n i s) (tr @ beat_of pol n i s)" "contiguous (tr @ beat_of pol n i s)"
proof -
  have keep: "as_active s \<Longrightarrow> choice pol n i s = as_owner s" by (simp add: choice_def)
  show "contiguous (tr @ beat_of pol n i s)"
    using assms contiguous_snoc [OF assms(2)] keep by (auto simp: beat_of_def held_def)
  show "held (arb_step pol PacketGrant n i s) (tr @ beat_of pol n i s)"
    using assms(1) keep by (auto simp: beat_of_def held_def arb_step_def completes_def moves_def granted_def)
qed

section \<open>Round robin is fair\<close>

text \<open>The number of sources before \<open>i\<close> in the order that starts at \<open>p\<close>.\<close>

definition distance :: "nat \<Rightarrow> nat \<Rightarrow> nat \<Rightarrow> nat" where
  "distance n p i = (i + n - p) mod n"

lemma distance_bound: "0 < n \<Longrightarrow> distance n p i < n"
  by (simp add: distance_def)

lemma distance_reaches: "p < n \<Longrightarrow> i < n \<Longrightarrow> (p + distance n p i) mod n = i"
  by (simp add: distance_def mod_add_right_eq)

lemma distance_unique: "p < n \<Longrightarrow> x < n \<Longrightarrow> (p + x) mod n = i \<Longrightarrow> x = distance n p i"
proof -
  assume a: "p < n" "x < n" "(p + x) mod n = i"
  show ?thesis
  proof (cases "p + x < n")
    case False
    then have "i = p + x - n" using a by (metis add_less_mono le_mod_geq linorder_not_less mod_less nat_add_left_cancel_less less_diff_conv2)
    then show ?thesis using a False by (simp add: distance_def)
  qed (use a in \<open>auto simp: distance_def\<close>)
qed

text \<open>A later source is nearer once an earlier one had its turn.\<close>

lemma distance_after:
  assumes "p < n" "c < n" "i < n" "distance n p c < distance n p i"
  shows "distance n (Suc c mod n) i = distance n p i - distance n p c - 1"
proof -
  let ?x = "distance n p i - distance n p c - 1"
  have "(Suc c mod n + ?x) mod n = (p + distance n p c + 1 + ?x) mod n"
    using distance_reaches [OF assms(1,2)] by (metis Suc_eq_plus1 mod_add_left_eq mod_Suc_eq)
  also have "p + distance n p c + 1 + ?x = p + distance n p i" using assms(4) by simp
  finally have "(Suc c mod n + ?x) mod n = i" using distance_reaches [OF assms(1,3)] by simp
  moreover have "?x < n" using distance_bound [of n p i] assms(1) by linarith
  moreover have "Suc c mod n < n" using assms(1) by simp
  ultimately show ?thesis by (metis distance_unique)
qed

lemma find_first:
  "List.find P xs = Some x \<Longrightarrow> j < length xs \<Longrightarrow> P (xs ! j) \<Longrightarrow> \<exists>k\<le>j. xs ! k = x"
proof (induction xs arbitrary: j)
  case (Cons a xs)
  show ?case
  proof (cases "P a")
    case True
    then show ?thesis using Cons.prems(1) by auto
  next
    case False
    then obtain j' where j: "j = Suc j'" using Cons.prems(3) by (cases j) auto
    then obtain k where "k \<le> j'" "xs ! k = x" using Cons.IH [of j'] Cons.prems False by auto
    then show ?thesis using j by (intro exI [of _ "Suc k"]) simp
  qed
qed simp

lemma pick_before:
  assumes "i < n" "p < n" "ai_valid inp ! i"
  shows "\<exists>c. pick RoundRobin n inp p = Some c \<and> c < n \<and> distance n p c \<le> distance n p i"
proof -
  let ?xs = "rotated_order n p"
  have n: "0 < n" using assms(1) by simp
  have at: "k < n \<Longrightarrow> ?xs ! k = (p + k) mod n" for k by (simp add: rotated_order_def)
  have len: "length ?xs = n" by (simp add: rotated_order_def)
  have d: "distance n p i < n" "?xs ! distance n p i = i"
    using distance_bound [OF n] at distance_reaches [OF assms(2,1)] by simp_all
  then have "List.find (\<lambda>k. ai_valid inp ! k) ?xs \<noteq> None"
    using assms(3) len nth_mem [of "distance n p i" ?xs] by (auto simp: find_None_iff)
  then obtain c where c: "List.find (\<lambda>k. ai_valid inp ! k) ?xs = Some c" by blast
  obtain k where k: "k \<le> distance n p i" "?xs ! k = c" using find_first [OF c, of "distance n p i"] d len assms(3) by auto
  have "(p + k) mod n = c" "k < n" using k d(1) at [of k] by simp_all
  then have "k = distance n p c" using distance_unique [OF assms(2)] by metis
  then show ?thesis using c k pick_bound [OF n, of RoundRobin inp p c] by (auto simp: pick_def)
qed

text \<open>How many grants can still complete before source \<open>i\<close> is served.\<close>

definition wait :: "nat \<Rightarrow> nat \<Rightarrow> arb_state \<Rightarrow> nat" where
  "wait n i s = (if \<not> as_active s then distance n (as_priority s) i
     else if as_owner s = i then 0 else Suc (distance n (Suc (as_owner s) mod n) i))"

lemma wait_bound: "0 < n \<Longrightarrow> wait n i s \<le> n"
  using distance_bound [of n] by (auto simp: wait_def Suc_le_eq less_imp_le)

lemma wait_decreases:
  assumes "arb_wf n s" "i < n" "ai_valid inp ! i" "\<not> (moves RoundRobin n inp s \<and> choice RoundRobin n inp s = i)"
  shows "wait n i (arb_step RoundRobin sc n inp s) + of_bool (completes RoundRobin sc n inp s) \<le> wait n i s"
proof (cases "as_active s")
  case True
  then have c: "choice RoundRobin n inp s = as_owner s" "granted RoundRobin n inp s" by (simp_all add: choice_def granted_def)
  show ?thesis
  proof (cases "completes RoundRobin sc n inp s")
    case over: True
    then have "as_owner s \<noteq> i" using assms(4) c(1) by (simp add: completes_def)
    then show ?thesis using True over c by (simp add: wait_def arb_step_def)
  next
    case False
    then show ?thesis using True c by (simp add: wait_def arb_step_def)
  qed
next
  case False
  have p: "as_priority s < n" using assms(1) by (simp add: arb_wf_def)
  obtain c where c: "pick RoundRobin n inp (as_priority s) = Some c" "c < n"
    "distance n (as_priority s) c \<le> distance n (as_priority s) i"
    using pick_before [OF assms(2) p assms(3)] by blast
  have ch: "choice RoundRobin n inp s = c" "granted RoundRobin n inp s" using False c(1) by (simp_all add: choice_def granted_def)
  have w: "wait n i s = distance n (as_priority s) i" using False by (simp add: wait_def)
  show ?thesis
  proof (cases "c = i")
    case True
    then have "\<not> completes RoundRobin sc n inp s" using assms(4) ch by (simp add: completes_def)
    then show ?thesis using ch True by (simp add: wait_def arb_step_def)
  next
    case other: False
    have "distance n (as_priority s) c \<noteq> distance n (as_priority s) i"
      using distance_reaches [OF p] c(2) assms(2) other by metis
    then have less: "distance n (as_priority s) c < distance n (as_priority s) i" using c(3) by simp
    note after = distance_after [OF p c(2) assms(2) less]
    show ?thesis
    proof (cases "completes RoundRobin sc n inp s")
      case True
      then show ?thesis unfolding w using ch after less by (simp add: wait_def arb_step_def)
    next
      case False
      then show ?thesis unfolding w using ch after less other by (simp add: wait_def arb_step_def)
    qed
  qed
qed

end
