(* ===== verification/Packet_Edges.thy ===== *)
theory Packet_Edges
  imports Arbiter Counters
begin

text \<open>
  The lowered packet arbiter at one clock edge.  The expressions of \<open>Packet\<close> have the values the
  specification of \<open>Arbiter\<close> gives them in the view of the registers and inputs, so the registers of
  the grant follow its step.
\<close>

section \<open>The values of the arbiter's expressions\<close>

lemma select_chain_value:
  "den \<sigma> (foldl (select_choice sel) acc (enumerate j cs)) =
    (if int j \<le> den \<sigma> sel \<and> den \<sigma> sel < int j + int (length cs)
     then den \<sigma> (cs ! nat (den \<sigma> sel - int j)) else den \<sigma> acc)"
proof (induction cs arbitrary: j acc)
  case (Cons c cs)
  have d: "den \<sigma> (select_choice sel acc (j, c)) = (if den \<sigma> sel = int j then den \<sigma> c else den \<sigma> acc)"
    by (simp add: select_choice_def den_equal del: den.simps(3)) 
  consider "den \<sigma> sel < int j" | "den \<sigma> sel = int j" | "int j < den \<sigma> sel" by linarith
  then show ?case
  proof cases
    case 3
    then have "nat (den \<sigma> sel - int j) = Suc (nat (den \<sigma> sel - int (Suc j)))" by simp
    then show ?thesis using 3 Cons.IH [where j = "Suc j" and acc = "select_choice sel acc (j, c)"] d by simp
  qed (use Cons.IH [where j = "Suc j" and acc = "select_choice sel acc (j, c)"] d in simp_all)
qed simp

lemma packet_select_value:
  assumes "choices \<noteq> []"
  shows "den \<sigma> (packet_select sel choices) = den \<sigma> (choices ! chain_index (den \<sigma> sel) (length choices))"
proof -
  obtain c cs where cs: "choices = c # cs" using assms by (cases choices) auto
  have nz: "nat v - Suc 0 = nat (v - 1)" for v by arith
  show ?thesis unfolding packet_select_def cs list.sel select_chain_value chain_index_def
    by (cases "den \<sigma> sel = 0") (auto simp: nz)
qed

lemma priority_candidate_value:
  assumes "\<forall>k\<in>set order. is_bit \<sigma> (valid ! k)"
  shows "den \<sigma> (fst (packet_priority_candidate valid order t)) =
      (case List.find (\<lambda>k. den \<sigma> (valid ! k) \<noteq> 0) order of None \<Rightarrow> 0 | Some k \<Rightarrow> int k)"
    and "den \<sigma> (snd (packet_priority_candidate valid order t)) =
      of_bool (List.find (\<lambda>k. den \<sigma> (valid ! k) \<noteq> 0) order \<noteq> None)"
    and "is_bit \<sigma> (snd (packet_priority_candidate valid order t))"
  using assms
proof (induction order)
  case (Cons k order)
  {
    case 1
    then show ?case using Cons.IH(1) by (simp add: packet_priority_candidate_def priority_step_def)
  next
    case 2
    then have "is_bit \<sigma> (valid ! k)" "is_bit \<sigma> (snd (packet_priority_candidate valid order t))"
      "den \<sigma> (snd (packet_priority_candidate valid order t)) = of_bool (List.find (\<lambda>k. den \<sigma> (valid ! k) \<noteq> 0) order \<noteq> None)"
      using Cons.IH(2,3) by simp_all
    then show ?case by (simp add: packet_priority_candidate_def priority_step_def)
  next
    case 3
    then show ?case by (simp add: packet_priority_candidate_def priority_step_def)
  }
qed (simp_all add: packet_priority_candidate_def is_bit_def)

section \<open>The view of the registers and of the inputs\<close>

definition owner_width :: "packet_arbiter \<Rightarrow> nat" where
  "owner_width a = max 1 (bit_length (int (length (ar_sources a)) - 1))"

definition active_name :: string where "active_name = packet_state_name ''grant_active'' None"
definition owner_name :: string where "owner_name = packet_state_name ''grant_owner'' None"
definition priority_name :: string where "priority_name = packet_state_name ''next_priority'' None"

definition arb_view :: "packet_arbiter \<Rightarrow> valuation \<Rightarrow> arb_state" where
  "arb_view a regs = \<lparr>as_active = (regs active_name \<noteq> 0), as_owner = nat (regs owner_name),
     as_priority = (if ar_policy a = RoundRobin then nat (regs priority_name) else 0)\<rparr>"

definition view_ok :: "packet_arbiter \<Rightarrow> valuation \<Rightarrow> bool" where
  "view_ok a regs \<longleftrightarrow> 0 \<le> regs owner_name \<and> regs owner_name < int (length (ar_sources a)) \<and>
     (ar_policy a = RoundRobin \<longrightarrow> 0 \<le> regs priority_name \<and> regs priority_name < int (length (ar_sources a)))"

definition field_high :: "valuation \<Rightarrow> packet_signal \<Rightarrow> port \<Rightarrow> bool" where
  "field_high ins s p \<longleftrightarrow> ins (protocol_field_name (pt_name p) (packet_value s)) \<noteq> 0"

definition arb_input :: "packet_arbiter \<Rightarrow> valuation \<Rightarrow> arb_inputs" where
  "arb_input a ins = \<lparr>ai_valid = map (field_high ins PkValid) (ar_sources a),
     ai_last = map (field_high ins PkLast) (ar_sources a), ai_ready = field_high ins PkReady (ar_destination a)\<rparr>"

abbreviation source_count :: "packet_arbiter \<Rightarrow> nat" where
  "source_count a \<equiv> length (ar_sources a)"

abbreviation arb_choice :: "packet_arbiter \<Rightarrow> valuation \<Rightarrow> valuation \<Rightarrow> nat" where
  "arb_choice a ins regs \<equiv> choice (ar_policy a) (source_count a) (arb_input a ins) (arb_view a regs)"

abbreviation arb_granted :: "packet_arbiter \<Rightarrow> valuation \<Rightarrow> valuation \<Rightarrow> bool" where
  "arb_granted a ins regs \<equiv> granted (ar_policy a) (source_count a) (arb_input a ins) (arb_view a regs)"

abbreviation arb_moves :: "packet_arbiter \<Rightarrow> valuation \<Rightarrow> valuation \<Rightarrow> bool" where
  "arb_moves a ins regs \<equiv> moves (ar_policy a) (source_count a) (arb_input a ins) (arb_view a regs)"

abbreviation arb_completes :: "packet_arbiter \<Rightarrow> valuation \<Rightarrow> valuation \<Rightarrow> bool" where
  "arb_completes a ins regs \<equiv> completes (ar_policy a) (ar_scope a) (source_count a) (arb_input a ins) (arb_view a regs)"

lemma view_wf: "0 < source_count a \<Longrightarrow> view_ok a regs \<Longrightarrow> arb_wf (source_count a) (arb_view a regs)"
  by (auto simp: view_ok_def arb_wf_def arb_view_def)

lemma index_fits: "0 \<le> v \<Longrightarrow> v < int (source_count a) \<Longrightarrow> v < 2 ^ owner_width a"
proof -
  assume v: "0 \<le> v" "v < int (source_count a)"
  have "bit_length (int (source_count a) - 1) \<le> owner_width a" by (simp add: owner_width_def)
  then have "int (source_count a) - 1 < 2 ^ owner_width a"
    using bit_length_le_iff [of "int (source_count a) - 1" "owner_width a"] v by linarith
  then show "v < 2 ^ owner_width a" using v(2) by linarith
qed

lemma owner_type_width: "owner_type a = UIntType (owner_width a)" "0 < owner_width a"
  by (simp_all add: owner_type_def owner_width_def)

lemma bit_read: "s \<noteq> PkPayload \<Longrightarrow> den (wire_env ins regs) (packet_read s p) = of_bool (field_high ins s p)"
  "s \<noteq> PkPayload \<Longrightarrow> is_bit \<sigma> (packet_read s p)"
  by (simp_all add: packet_read_def field_high_def represent_bit)

lemma view_active: "as_active (arb_view a regs) \<longleftrightarrow> regs active_name \<noteq> 0"
  by (simp add: arb_view_def)

lemma active_read: "den (wire_env ins regs) (state_read (active_register d)) = of_bool (regs active_name \<noteq> 0)"
  "is_bit \<sigma> (state_read (active_register d))"
  by (simp_all add: state_read_def active_register_def packet_register_def active_name_def represent_bit)

lemma owner_read:
  assumes "view_ok a regs"
  shows "den (wire_env ins regs) (state_read (owner_register a d)) = int (as_owner (arb_view a regs))"
    and "ar_policy a = RoundRobin \<Longrightarrow>
      den (wire_env ins regs) (state_read (priority_register a d)) = int (as_priority (arb_view a regs))"
  using assms index_fits [of "regs owner_name" a] index_fits [of "regs priority_name" a]
  by (simp_all add: state_read_def owner_register_def priority_register_def packet_register_def owner_type_width
      represent_flat view_ok_def arb_view_def owner_name_def priority_name_def)

lemma source_valid:
  "k < source_count a \<Longrightarrow> den (wire_env ins regs) (source_reads a s ! k) =
      den (wire_env ins regs) (packet_read s (ar_sources a ! k))"
  "s \<noteq> PkPayload \<Longrightarrow> k < source_count a \<Longrightarrow> is_bit \<sigma> (source_reads a s ! k)"
  "length (source_reads a s) = source_count a"
  using bit_read by (simp_all add: source_reads_def)

lemma find_cong_on: "\<forall>x\<in>set xs. P x = Q x \<Longrightarrow> List.find P xs = List.find Q xs"
  by (induction xs) auto

lemma candidate_order_value:
  assumes "set order \<subseteq> {..<source_count a}"
  shows "den (wire_env ins regs) (fst (packet_priority_candidate (source_reads a PkValid) order t)) =
      (case List.find (\<lambda>k. ai_valid (arb_input a ins) ! k) order of None \<Rightarrow> 0 | Some k \<Rightarrow> int k)"
    and "den (wire_env ins regs) (snd (packet_priority_candidate (source_reads a PkValid) order t)) =
      of_bool (List.find (\<lambda>k. ai_valid (arb_input a ins) ! k) order \<noteq> None)"
proof -
  have b: "\<forall>k\<in>set order. is_bit (wire_env ins regs) (source_reads a PkValid ! k)" using assms source_valid(2) by auto
  have "List.find (\<lambda>k. den (wire_env ins regs) (source_reads a PkValid ! k) \<noteq> 0) order =
      List.find (\<lambda>k. ai_valid (arb_input a ins) ! k) order"
    by (rule find_cong_on) (use assms in \<open>auto simp: source_valid(1) bit_read arb_input_def subset_iff\<close>)
  then show "den (wire_env ins regs) (fst (packet_priority_candidate (source_reads a PkValid) order t)) =
      (case List.find (\<lambda>k. ai_valid (arb_input a ins) ! k) order of None \<Rightarrow> 0 | Some k \<Rightarrow> int k)"
    "den (wire_env ins regs) (snd (packet_priority_candidate (source_reads a PkValid) order t)) =
      of_bool (List.find (\<lambda>k. ai_valid (arb_input a ins) ! k) order \<noteq> None)"
    using priority_candidate_value [OF b] by simp_all
qed

lemma rotated_order_bound: "0 < n \<Longrightarrow> set (rotated_order n s) \<subseteq> {..<n}"
  by (auto simp: rotated_order_def)

lemma candidate_value:
  assumes n: "0 < source_count a" and ok: "view_ok a regs"
  shows "den (wire_env ins regs) (fst (arb_candidate a d)) =
      (case pick (ar_policy a) (source_count a) (arb_input a ins) (as_priority (arb_view a regs)) of None \<Rightarrow> 0 | Some k \<Rightarrow> int k)"
    and "den (wire_env ins regs) (snd (arb_candidate a d)) =
      of_bool (pick (ar_policy a) (source_count a) (arb_input a ins) (as_priority (arb_view a regs)) \<noteq> None)"
proof -
  let ?n = "source_count a" and ?p = "as_priority (arb_view a regs)"
  have "den (wire_env ins regs) (fst (arb_candidate a d)) =
      (case pick (ar_policy a) ?n (arb_input a ins) ?p of None \<Rightarrow> 0 | Some k \<Rightarrow> int k) \<and>
    den (wire_env ins regs) (snd (arb_candidate a d)) = of_bool (pick (ar_policy a) ?n (arb_input a ins) ?p \<noteq> None)"
  proof (cases "ar_policy a")
    case FixedPriority
    have "set [0..<?n] \<subseteq> {..<?n}" by auto
    from candidate_order_value [OF this] show ?thesis by (simp add: arb_candidate_def FixedPriority pick_def)
  next
    case RoundRobin
    have p: "?p < ?n" using view_wf [OF n ok] by (simp add: arb_wf_def)
    let ?c = "\<lambda>s. packet_priority_candidate (source_reads a PkValid) (rotated_order ?n s) (owner_type a)"
    have ci: "chain_index (den (wire_env ins regs) (state_read (priority_register a d))) ?n = ?p"
      using owner_read(2) [OF ok RoundRobin] p by (simp add: chain_index_def)
    have "den (wire_env ins regs) (fst (arb_candidate a d)) = den (wire_env ins regs) (fst (?c ?p))"
      "den (wire_env ins regs) (snd (arb_candidate a d)) = den (wire_env ins regs) (snd (?c ?p))"
      using n p ci by (simp_all add: arb_candidate_def RoundRobin Let_def packet_select_value)
    then show ?thesis
      using candidate_order_value [OF rotated_order_bound [OF n]] by (simp add: pick_def RoundRobin)
  qed
  then show "den (wire_env ins regs) (fst (arb_candidate a d)) =
      (case pick (ar_policy a) ?n (arb_input a ins) ?p of None \<Rightarrow> 0 | Some k \<Rightarrow> int k)"
    "den (wire_env ins regs) (snd (arb_candidate a d)) = of_bool (pick (ar_policy a) ?n (arb_input a ins) ?p \<noteq> None)"
    by blast+
qed

lemma selected_value:
  assumes "0 < source_count a" "view_ok a regs"
  shows "den (wire_env ins regs) (arb_selected a d) = int (arb_choice a ins regs)"
  using candidate_value(1) [OF assms, of ins d] owner_read(1) [OF assms(2), of ins d] active_read(1) [of ins regs d]
  by (simp add: arb_selected_def choice_def view_active split: option.splits del: den.simps(12))

lemma choice_in_range: "0 < source_count a \<Longrightarrow> view_ok a regs \<Longrightarrow> arb_choice a ins regs < source_count a"
  using choice_bound view_wf by blast

lemma chosen_value:
  assumes "0 < source_count a" "view_ok a regs"
  shows "den (wire_env ins regs) (arb_chosen a d s) = den (wire_env ins regs) (packet_read s (ar_sources a ! arb_choice a ins regs))"
proof -
  have "source_reads a s \<noteq> []" using assms(1) by (simp add: source_reads_def)
  moreover have "chain_index (den (wire_env ins regs) (arb_selected a d)) (length (source_reads a s)) = arb_choice a ins regs"
    unfolding selected_value [OF assms] source_valid(3) chain_index_def using choice_in_range [OF assms, of ins] by simp
  ultimately show ?thesis
    unfolding arb_chosen_def using packet_select_value source_valid(1) [OF choice_in_range [OF assms]] by metis
qed

definition reset_low :: "valuation \<Rightarrow> string \<Rightarrow> bool" where
  "reset_low ins rst \<longleftrightarrow> ins (''$reset:'' @ rst) = 0"

lemma reset_free_value: "den (wire_env ins regs) (reset_free rst) = of_bool (reset_low ins rst)" "is_bit \<sigma> (reset_free rst)"
  by (simp_all add: reset_free_def reset_low_def represent_bit is_bit_def)

lemma reset_low_active: "clock_reset m d = Some rst \<Longrightarrow> reset_low ins rst \<longleftrightarrow> \<not> reset_active m ins d"
  by (simp add: reset_low_def reset_active_def represent_bit)

lemma candidate_bit: "0 < source_count a \<Longrightarrow> view_ok a regs \<Longrightarrow> is_bit (wire_env ins regs) (snd (arb_candidate a d))"
  by (auto simp: is_bit_def candidate_value(2))

lemma chosen_bit: "0 < source_count a \<Longrightarrow> view_ok a regs \<Longrightarrow> s \<noteq> PkPayload \<Longrightarrow>
    is_bit (wire_env ins regs) (arb_chosen a d s) \<and>
    den (wire_env ins regs) (arb_chosen a d s) = of_bool (field_high ins s (ar_sources a ! arb_choice a ins regs))"
  using chosen_value [of a regs ins d s] bit_read(1) [of s ins regs] by (simp add: is_bit_def)

lemma grant_valid_value:
  assumes "0 < source_count a" "view_ok a regs"
  shows "den (wire_env ins regs) (arb_grant_valid a d rst) = of_bool (reset_low ins rst \<and> arb_granted a ins regs)"
  using active_read reset_free_value candidate_bit [OF assms] candidate_value(2) [OF assms]
  by (auto simp: arb_grant_valid_def granted_def view_active)

lemma grant_valid_bit: "is_bit \<sigma> (arb_grant_valid a d rst)"
  by (simp add: arb_grant_valid_def)

lemma transfer_value:
  assumes "0 < source_count a" "view_ok a regs"
  shows "den (wire_env ins regs) (arb_valid a d rst) =
      of_bool (reset_low ins rst \<and> arb_granted a ins regs \<and> field_high ins PkValid (ar_sources a ! arb_choice a ins regs))"
    and "den (wire_env ins regs) (arb_transfer a d rst) = of_bool (reset_low ins rst \<and> arb_moves a ins regs)"
    and "den (wire_env ins regs) (arb_complete a d rst) = of_bool (reset_low ins rst \<and> arb_completes a ins regs)"
    and "den (wire_env ins regs) (arb_ready a d rst i) = of_bool (reset_low ins rst \<and> arb_moves a ins regs \<and> arb_choice a ins regs = i)"
    and "den (wire_env ins regs) (arb_last a d rst) =
      of_bool (reset_low ins rst \<and> arb_granted a ins regs \<and> field_high ins PkLast (ar_sources a ! arb_choice a ins regs))"
    and "den (wire_env ins regs) (arb_payload a d rst) = (if reset_low ins rst \<and> arb_granted a ins regs
      then den (wire_env ins regs) (packet_read PkPayload (ar_sources a ! arb_choice a ins regs)) else 0)"
proof -
  let ?\<sigma> = "wire_env ins regs"
  note g = grant_valid_value [OF assms, of ins d rst] chosen_bit [OF assms, where ins = ins and d = d]
    reset_free_value(1) [of ins regs rst] reset_free_value(2) grant_valid_bit chosen_value [OF assms, of ins d]
  have inp: "ai_valid (arb_input a ins) ! arb_choice a ins regs = field_high ins PkValid (ar_sources a ! arb_choice a ins regs)"
    "ai_last (arb_input a ins) ! arb_choice a ins regs = field_high ins PkLast (ar_sources a ! arb_choice a ins regs)"
    "ai_ready (arb_input a ins) = field_high ins PkReady (ar_destination a)"
    using choice_in_range [OF assms, of ins] by (simp_all add: arb_input_def)
  show v: "den ?\<sigma> (arb_valid a d rst) =
      of_bool (reset_low ins rst \<and> arb_granted a ins regs \<and> field_high ins PkValid (ar_sources a ! arb_choice a ins regs))"
    using g by (auto simp: arb_valid_def)
  have vb: "is_bit \<sigma> (arb_valid a d rst)" for \<sigma> by (simp add: arb_valid_def)
  show t: "den ?\<sigma> (arb_transfer a d rst) = of_bool (reset_low ins rst \<and> arb_moves a ins regs)"
    using v vb bit_read inp by (auto simp: arb_transfer_def moves_def)
  have tb: "is_bit \<sigma> (arb_transfer a d rst)" for \<sigma> by (simp add: arb_transfer_def)
  show "den ?\<sigma> (arb_complete a d rst) = of_bool (reset_low ins rst \<and> arb_completes a ins regs)"
    using t tb g inp by (cases "ar_scope a") (auto simp: arb_complete_def completes_def)
  show "den ?\<sigma> (arb_ready a d rst i) = of_bool (reset_low ins rst \<and> arb_moves a ins regs \<and> arb_choice a ins regs = i)"
    using t tb selected_value [OF assms, of ins d] by (auto simp: arb_ready_def den_equal is_bit_equal simp del: den.simps(3))
  show "den ?\<sigma> (arb_last a d rst) =
      of_bool (reset_low ins rst \<and> arb_granted a ins regs \<and> field_high ins PkLast (ar_sources a ! arb_choice a ins regs))"
    using g by (auto simp: arb_last_def)
  show "den ?\<sigma> (arb_payload a d rst) = (if reset_low ins rst \<and> arb_granted a ins regs
      then den ?\<sigma> (packet_read PkPayload (ar_sources a ! arb_choice a ins regs)) else 0)"
    using g by (simp add: arb_payload_def Let_def)
qed

lemma next_values:
  assumes n: "0 < source_count a" and ok: "view_ok a regs" and up: "reset_low ins rst"
  defines "s' \<equiv> arb_step (ar_policy a) (ar_scope a) (source_count a) (arb_input a ins) (arb_view a regs)"
  shows "den (wire_env ins regs) (arb_next_active a d rst) = of_bool (as_active s')"
    and "den (wire_env ins regs) (arb_next_owner a d) = int (as_owner s')"
    and "ar_policy a = RoundRobin \<Longrightarrow> den (wire_env ins regs) (arb_next_priority a d rst) = int (as_priority s')"
proof -
  note fin = transfer_value(3) [OF n ok, of ins d rst]
  have acq: "den (wire_env ins regs) (arb_acquire a d) = of_bool (\<not> as_active (arb_view a regs) \<and> arb_granted a ins regs)"
    using active_read candidate_value(2) [OF n ok] candidate_bit [OF n ok]
    by (auto simp: arb_acquire_def granted_def view_active)
  show "den (wire_env ins regs) (arb_next_active a d rst) = of_bool (as_active s')"
    using fin acq up active_read(1) [of ins regs d]
    by (auto simp: arb_next_active_def s'_def arb_step_def granted_def completes_def moves_def view_active)
  show "den (wire_env ins regs) (arb_next_owner a d) = int (as_owner s')"
    using acq selected_value [OF n ok] owner_read(1) [OF ok]
    by (auto simp: arb_next_owner_def s'_def arb_step_def granted_def choice_def view_active)
  assume rr: "ar_policy a = RoundRobin"
  let ?c = "arb_choice a ins regs"
  have c: "?c < source_count a" by (rule choice_in_range [OF n ok])
  have inc: "Suc ?c mod source_count a = (if ?c = source_count a - 1 then 0 else Suc ?c)" using c n by (auto simp: mod_Suc)
  have fits: "int ?c + 1 < 2 ^ owner_width a" if "?c \<noteq> source_count a - 1"
    using index_fits [of "int ?c + 1" a] c that by linarith
  have sel: "den (wire_env ins regs) (arb_selected a d) = int ?c" by (rule selected_value [OF n ok])
  have step: "den (wire_env ins regs) (EMux (EBinary OpEqual (arb_selected a d) (EConst (int (source_count a) - 1) (owner_type a)) (owner_type a) BitType)
      (EConst 0 (owner_type a)) (EAdd (arb_selected a d) (EConst 1 (owner_type a)) (owner_type a)) (owner_type a)) = int (Suc ?c mod source_count a)"
    unfolding inc using sel fits c n
    by (auto simp: den_equal owner_type_width represent_flat simp del: den.simps(3))
  show "den (wire_env ins regs) (arb_next_priority a d rst) = int (as_priority s')"
    unfolding arb_next_priority_def Let_def den.simps(7) [of _ "arb_complete a d rst"] step fin
    using up rr owner_read(2) [OF ok rr, of ins d] by (simp add: s'_def arb_step_def)
qed

section \<open>One edge of the lowered module\<close>

definition arbiter_in :: "module \<Rightarrow> packet_arbiter \<Rightarrow> string \<Rightarrow> string \<Rightarrow> bool" where
  "arbiter_in M a d rst \<longleftrightarrow> md_registers M = arb_registers a d \<and> md_next M = arb_nexts a d rst \<and>
     clock_reset M d = Some rst \<and> ar_sources a \<noteq> []"

lemmas packet_register_defs = active_register_def owner_register_def priority_register_def stalled_register_def
  payload_register_def last_register_def packet_register_def

lemma grant_register_names [simp]:
  "rg_name (active_register d) = active_name" "rg_name (owner_register a d) = owner_name"
  "rg_name (priority_register a d) = priority_name"
  by (simp_all add: packet_register_defs active_name_def owner_name_def priority_name_def)

lemma grant_names_distinct [simp]:
  "active_name \<noteq> owner_name" "active_name \<noteq> priority_name" "owner_name \<noteq> priority_name"
  "owner_name \<noteq> active_name" "priority_name \<noteq> active_name" "priority_name \<noteq> owner_name"
  by (simp_all add: active_name_def owner_name_def priority_name_def packet_state_name_def)

lemma stall_names_distinct [simp]:
  "n \<in> {active_name, owner_name, priority_name} \<Longrightarrow> rg_name (stalled_register d p) \<noteq> n"
  "n \<in> {active_name, owner_name, priority_name} \<Longrightarrow> rg_name (payload_register d p) \<noteq> n"
  "n \<in> {active_name, owner_name, priority_name} \<Longrightarrow> rg_name (last_register d p) \<noteq> n"
  by (auto simp: active_name_def owner_name_def priority_name_def packet_state_name_def packet_register_defs)

lemma grant_register_unique:
  assumes "r \<in> {active_register d, owner_register a d, priority_register a d}" "x \<in> set (arb_registers a d)" "rg_name x = rg_name r"
  shows "x = r"
proof -
  have n: "rg_name r \<in> {active_name, owner_name, priority_name}" using assms(1) by auto
  have "x \<in> {active_register d, owner_register a d, priority_register a d}"
    using assms(2,3) stall_names_distinct [OF n] by (auto simp: arb_registers_def split: if_splits)
  then show ?thesis using assms(1,3) by auto
qed

lemma grant_next_unique:
  assumes "na \<in> set (grant_nexts a d rst)" "x \<in> set (arb_nexts a d rst)" "rg_name (na_target x) = rg_name (na_target na)"
  shows "x = na"
proof -
  have n: "rg_name (na_target na) \<in> {active_name, owner_name, priority_name}"
    using assms(1) by (auto simp: grant_nexts_def arb_next_def split: if_splits)
  have "x \<in> set (grant_nexts a d rst)"
    using assms(2,3) stall_names_distinct [OF n] by (auto simp: arb_nexts_def stall_nexts_def Let_def arb_next_def)
  then show ?thesis using assms(1,3) by (auto simp: grant_nexts_def arb_next_def split: if_splits)
qed

lemma grant_edge:
  assumes M: "arbiter_in M a d rst" and edge: "clock_edge M d' ins regs regs'"
    and na: "arb_next r e \<in> set (grant_nexts a d rst)" and r: "r \<in> set (arb_registers a d)"
      "r \<in> {active_register d, owner_register a d, priority_register a d}"
  shows "regs' (rg_name r) = (if d' \<noteq> d then regs (rg_name r) else if reset_active M ins d then 0 else den (wire_env ins regs) e)"
proof -
  have eq: "md_registers M = arb_registers a d" "md_next M = arb_nexts a d rst" using M by (simp_all add: arbiter_in_def)
  have i: "register_domain M r = Some d" "initial_of r = Some 0"
    using r(2) by (auto simp: register_domain_def initial_of_def packet_register_defs)
  have u: "\<forall>x\<in>set (md_registers M). rg_name x = rg_name r \<longrightarrow> x = r"
    unfolding eq using grant_register_unique [OF r(2)] by blast
  have n: "\<forall>x\<in>set (md_next M). rg_name (na_target x) = rg_name r \<longrightarrow> x = arb_next r e"
    unfolding eq using grant_next_unique [OF na] by (simp add: arb_next_def)
  have m: "arb_next r e \<in> set (md_next M)" unfolding eq arb_nexts_def using na by simp
  show ?thesis
    using register_edge [OF edge _ i(1) u m _ _ n i(2)] r(1) unfolding eq by (simp add: arb_next_def)
qed

lemma arbiter_edge:
  assumes M: "arbiter_in M a d rst" and ok: "view_ok a regs" and edge: "clock_edge M d' ins regs regs'"
  shows "view_ok a regs' \<and> arb_view a regs' = (if d' \<noteq> d then arb_view a regs else if reset_active M ins d then arb_reset
    else arb_step (ar_policy a) (ar_scope a) (source_count a) (arb_input a ins) (arb_view a regs))"
proof -
  let ?s = "arb_step (ar_policy a) (ar_scope a) (source_count a) (arb_input a ins) (arb_view a regs)"
  have n: "0 < source_count a" and rst: "clock_reset M d = Some rst" using M by (simp_all add: arbiter_in_def)
  have act: "regs' active_name = (if d' \<noteq> d then regs active_name else if reset_active M ins d then 0
      else den (wire_env ins regs) (arb_next_active a d rst))"
    using grant_edge [OF M edge, of "active_register d" "arb_next_active a d rst"] by (simp add: grant_nexts_def arb_registers_def)
  have own: "regs' owner_name = (if d' \<noteq> d then regs owner_name else if reset_active M ins d then 0
      else den (wire_env ins regs) (arb_next_owner a d))"
    using grant_edge [OF M edge, of "owner_register a d" "arb_next_owner a d"] by (simp add: grant_nexts_def arb_registers_def)
  have pri: "ar_policy a = RoundRobin \<Longrightarrow> regs' priority_name = (if d' \<noteq> d then regs priority_name else if reset_active M ins d then 0
      else den (wire_env ins regs) (arb_next_priority a d rst))"
    using grant_edge [OF M edge, of "priority_register a d" "arb_next_priority a d rst"] by (simp add: grant_nexts_def arb_registers_def)
  consider "d' \<noteq> d" | "d' = d" "reset_active M ins d" | "d' = d" "reset_low ins rst" "\<not> reset_active M ins d"
    using reset_low_active [OF rst] by blast
  then show ?thesis
  proof cases
    case 1
    then show ?thesis using ok act own pri by (auto simp: view_ok_def arb_view_def)
  next
    case 2
    then show ?thesis using n act own pri by (auto simp: view_ok_def arb_view_def arb_reset_def)
  next
    case 3
    note nv = next_values [OF n ok 3(2), where d = d]
    have wf: "arb_wf (source_count a) ?s" by (rule arb_step_wf [OF n view_wf [OF n ok]])
    have v: "regs' active_name = of_bool (as_active ?s)" "regs' owner_name = int (as_owner ?s)"
      "ar_policy a = RoundRobin \<Longrightarrow> regs' priority_name = int (as_priority ?s)"
      using act own pri 3 nv by simp_all
    have "ar_policy a \<noteq> RoundRobin \<Longrightarrow> as_priority ?s = 0" by (simp add: arb_step_def arb_view_def)
    then have "arb_view a regs' = ?s" using v by (auto simp: arb_view_def intro!: arb_state.equality)
    moreover have "view_ok a regs'" using v wf by (auto simp: view_ok_def arb_wf_def)
    ultimately show ?thesis using 3 by simp
  qed
qed

end
