(* ===== verification/Packet_Runs.thy ===== *)
theory Packet_Runs
  imports Packet_Edges
begin

text \<open>
  Runs of the lowered packet arbiter.  The wires the module drives are the outputs of the
  specification of \<open>Arbiter\<close>, and its promises hold of every run: the packets of different sources
  are not interleaved, and round robin starves no source.
\<close>

section \<open>The wires of the lowered module\<close>

text \<open>The value of an output wire.\<close>

definition target_name :: "assignment \<Rightarrow> string" where
  "target_name x = (case as_target x of ToPort p \<Rightarrow> pt_name p | ToInterface n \<Rightarrow> n)"

definition output_value :: "module \<Rightarrow> string \<Rightarrow> valuation \<Rightarrow> valuation \<Rightarrow> int" where
  "output_value m n ins regs = (case List.find (\<lambda>x. target_name x = n) (md_assignments m) of
     None \<Rightarrow> 0 | Some x \<Rightarrow> den (wire_env ins regs) (as_expression x))"

lemma distinct_dict_of: "distinct (map fst (dict_of kvs))"
  by (induction kvs rule: rev_induct) (simp_all add: dict_of_def keys_dict_set)

lemma map_of_dict_of: "map_of (dict_of kvs) = map_of (rev kvs)"
  by (induction kvs rule: rev_induct) (simp_all add: dict_of_def map_of_dict_set)

lemma keys_dict_of: "fst ` set (dict_of kvs) = fst ` set kvs"
  using arg_cong [OF map_of_dict_of [of kvs], of dom] by (simp add: dom_map_of_conv_image_fst)

lemma packet_value_no_colon: "CHR '':'' \<notin> set (packet_value s)"
  by (cases s) auto

lemma packet_value_inj: "packet_value s = packet_value s' \<Longrightarrow> s = s'"
  by (cases s; cases s') auto

lemma protocol_field_name_inj:
  assumes "protocol_field_name n f = protocol_field_name n' f'" "CHR '':'' \<notin> set f" "CHR '':'' \<notin> set f'"
  shows "n = n' \<and> f = f'"
proof -
  have r: "protocol_field_name n f = (''$zlang_protocol:'' @ n) @ CHR '':'' # f" for n f by (simp add: protocol_field_name_def)
  have "rpartition (CHR '':'') (protocol_field_name n f) = rpartition (CHR '':'') (protocol_field_name n' f')" using assms(1) by simp
  then show ?thesis unfolding r rpartition_append [OF assms(2)] rpartition_append [OF assms(3)] by simp
qed

lemma packet_name_inj:
  "protocol_field_name n (packet_value s) = protocol_field_name n' (packet_value s') \<longleftrightarrow> n = n' \<and> s = s'"
  using protocol_field_name_inj packet_value_no_colon packet_value_inj by metis

lemma packet_fields:
  "pt_protocol p = Packet \<Longrightarrow> protocol_scalar_fields p = Inr
     [(PacketSignal PkPayload, pt_type p, pt_direction p = Input), (PacketSignal PkValid, BitType, pt_direction p = Input),
      (PacketSignal PkReady, BitType, pt_direction p \<noteq> Input), (PacketSignal PkLast, BitType, pt_direction p = Input)]"
  by (simp add: protocol_scalar_fields_def)

definition endpoint_wires :: "port \<Rightarrow> port list" where
  "endpoint_wires p = map (\<lambda>(s, t, external). wire_port (if external then Input else Output)
       (protocol_field_name (pt_name p) (signal_value s)) t (pt_domain p)) (projr (protocol_scalar_fields p))"

lemma packet_wires:
  "\<forall>p\<in>set ps. pt_protocol p = Packet \<Longrightarrow> foldE add_protocol_endpoint ps acc = Inr (acc @ concat (map endpoint_wires ps))"
  by (induction ps arbitrary: acc) (simp_all add: add_protocol_endpoint_def endpoint_wires_def packet_fields)

lemma endpoint_wire:
  assumes "pt_protocol q = Packet" "x \<in> set (endpoint_wires q)"
  shows "\<exists>s. pt_name x = protocol_field_name (pt_name q) (packet_value s) \<and>
    (pt_direction x = Output \<longleftrightarrow> (pt_direction q = Input) = (s = PkReady))"
proof -
  let ?fields = "[(PkPayload, pt_direction q = Input), (PkValid, pt_direction q = Input),
      (PkReady, pt_direction q \<noteq> Input), (PkLast, pt_direction q = Input)]"
  let ?wire = "\<lambda>f. wire_port (if snd f then Input else Output)
      (protocol_field_name (pt_name q) (packet_value (fst f))) (if fst f = PkPayload then pt_type q else BitType) (pt_domain q)"
  have "endpoint_wires q = map ?wire ?fields" by (simp add: endpoint_wires_def packet_fields [OF assms(1)])
  then obtain f where f: "f \<in> set ?fields" "x = ?wire f" using assms(2) by (metis (no_types, lifting) imageE set_map)
  have "snd f = ((pt_direction q = Input) = (fst f \<noteq> PkReady))" using f(1) by auto
  then show ?thesis unfolding f(2) by (intro exI [of _ "fst f"]) (simp add: wire_port_def)
qed

lemma grant_field:
  assumes "f \<in> {''grant'', ''grant_valid''}"
  shows "protocol_field_name k f \<noteq> protocol_field_name n (packet_value s)"
proof
  assume "protocol_field_name k f = protocol_field_name n (packet_value s)"
  then have "f = packet_value s" using protocol_field_name_inj [OF _ _ packet_value_no_colon] assms by auto
  then show False using assms by (cases s) auto
qed

lemma packet_wire_direction:
  assumes "packet_scalars m a = Inr ps" "\<forall>p\<in>set (md_ports m). pt_protocol p = Packet"
    and "x \<in> set ps" "pt_name x = protocol_field_name n (packet_value s)"
  shows "\<exists>q\<in>set (md_ports m). pt_name q = n \<and> (pt_direction x = Output \<longleftrightarrow> (pt_direction q = Input) = (s = PkReady))"
proof -
  have "x \<in> set (concat (map endpoint_wires (md_ports m)))"
    using grant_field assms packet_wires [OF assms(2), of "[]"] by (auto simp: packet_scalars_def Let_def wire_port_def)
  then obtain q where q: "q \<in> set (md_ports m)" "x \<in> set (endpoint_wires q)" by auto
  then have "pt_name q = n \<and> (pt_direction x = Output \<longleftrightarrow> (pt_direction q = Input) = (s = PkReady))"
    using endpoint_wire [of q x] assms(2,4) packet_name_inj by metis
  then show ?thesis using q(1) by blast
qed

lemma packet_assignment_cases:
  assumes "packet_assignment ps ((n, PacketSignal s), e) = Inr l"
  obtains p where "p \<in> set ps" "pt_name p = protocol_field_name n (packet_value s)"
    "l = (if pt_direction p = Output then [\<lparr>as_target = ToPort p, as_expression = e, as_signal = None\<rparr>] else [])"
proof -
  obtain p where "endpoint_port ps (protocol_field_name n (packet_value s)) = Inr p"
    "l = (if pt_direction p = Output then [\<lparr>as_target = ToPort p, as_expression = e, as_signal = None\<rparr>] else [])"
    using assms by (auto simp: packet_assignment_def)
  then show thesis using that [of p] endpoint_port_name by simp
qed

lemma find_all:
  assumes "\<exists>x\<in>set xs. P x" "\<And>x. x \<in> set xs \<Longrightarrow> P x \<Longrightarrow> Q x"
  shows "\<exists>x. List.find P xs = Some x \<and> Q x"
proof -
  have "List.find P xs \<noteq> None" using assms(1) by (auto simp: find_None_iff)
  then obtain x where x: "List.find P xs = Some x" by blast
  then show ?thesis using assms(2) find_memD [OF x] by blast
qed

lemma arb_value_keys: "v \<in> set (arb_values a d rst) \<Longrightarrow> \<exists>n s. fst v = (n, PacketSignal s)"
proof -
  assume "v \<in> set (arb_values a d rst)"
  then have "fst v \<in> fst ` set (arb_values a d rst)" by simp
  then show "\<exists>n s. fst v = (n, PacketSignal s)" unfolding arb_values_def Let_def keys_dict_of by auto
qed

lemma packet_output:
  assumes as: "packet_assignments ps a d rst = Inr (md_assignments M)"
    and v: "((n, PacketSignal s), e) \<in> set (arb_values a d rst)"
    and out: "\<forall>p\<in>set ps. pt_name p = protocol_field_name n (packet_value s) \<longrightarrow> pt_direction p = Output"
  shows "output_value M (protocol_field_name n (packet_value s)) ins regs = den (wire_env ins regs) e"
proof -
  let ?N = "protocol_field_name n (packet_value s)"
  let ?dest = "pt_name (ar_destination a)"
  obtain ls g gv where ls: "mapE (packet_assignment ps) (arb_values a d rst) = Inr ls"
    and g: "scalar_assignment ps (protocol_field_name ?dest ''grant'') (arb_selected a d) = Inr g"
      "scalar_assignment ps (protocol_field_name ?dest ''grant_valid'') (arb_grant_valid a d rst) = Inr gv"
    and eq: "md_assignments M = concat ls @ [g, gv]"
    using as by (auto simp: packet_assignments_def Let_def)
  obtain l where l: "l \<in> set ls" "packet_assignment ps ((n, PacketSignal s), e) = Inr l" using mapE_member [OF ls v] by blast
  obtain p where p: "p \<in> set ps" "pt_name p = ?N"
    "l = (if pt_direction p = Output then [\<lparr>as_target = ToPort p, as_expression = e, as_signal = None\<rparr>] else [])"
    by (rule packet_assignment_cases [OF l(2)])
  then have "\<lparr>as_target = ToPort p, as_expression = e, as_signal = None\<rparr> \<in> set l" using out by simp
  then have "\<lparr>as_target = ToPort p, as_expression = e, as_signal = None\<rparr> \<in> set (concat ls)"
    unfolding set_concat using l(1) by (rule UN_I [rotated])
  then have ex: "\<exists>x\<in>set (md_assignments M). target_name x = ?N" 
  proof -
    have "target_name \<lparr>as_target = ToPort p, as_expression = e, as_signal = None\<rparr> = ?N" by (simp add: target_name_def p(2))
    with \<open>_ \<in> set (concat ls)\<close> show ?thesis unfolding eq set_append by blast
  qed
  have gname: "target_name g \<noteq> ?N" "target_name gv \<noteq> ?N"
  proof -
    have "target_name g = protocol_field_name ?dest ''grant''" "target_name gv = protocol_field_name ?dest ''grant_valid''"
      using g endpoint_port_name by (auto simp: scalar_assignment_def target_name_def)
    then show "target_name g \<noteq> ?N" "target_name gv \<noteq> ?N" using grant_field by simp_all
  qed
  have "as_expression x = e" if x: "x \<in> set (md_assignments M)" "target_name x = ?N" for x
  proof -
    obtain l' where l': "l' \<in> set ls" "x \<in> set l'" using x gname unfolding eq by auto
    obtain v' where v': "v' \<in> set (arb_values a d rst)" "packet_assignment ps v' = Inr l'"
      using list_all2_ball [OF ls [unfolded mapE_Inr_all]] l'(1) by blast
    obtain n' s' where "fst v' = (n', PacketSignal s')" using arb_value_keys [OF v'(1)] by blast
    then have k: "v' = ((n', PacketSignal s'), snd v')" by (simp add: prod_eq_iff)
    have "packet_assignment ps ((n', PacketSignal s'), snd v') = Inr l'" using v'(2) k by simp
    then obtain p' where p': "pt_name p' = protocol_field_name n' (packet_value s')"
      "l' = (if pt_direction p' = Output then [\<lparr>as_target = ToPort p', as_expression = snd v', as_signal = None\<rparr>] else [])"
      by (rule packet_assignment_cases)
    have xe: "x = \<lparr>as_target = ToPort p', as_expression = snd v', as_signal = None\<rparr>" using l'(2) p'(2) by (simp split: if_splits)
    then have "protocol_field_name n' (packet_value s') = ?N" using x(2) p'(1) by (simp add: target_name_def)
    then have "n' = n" "s' = s" unfolding packet_name_inj by simp_all
    then have vin: "((n, PacketSignal s), snd v') \<in> set (arb_values a d rst)" using v'(1) k by simp
    have dist: "distinct (map fst (arb_values a d rst))" unfolding arb_values_def Let_def by (rule distinct_dict_of)
    have "snd v' = e" by (rule eq_key_imp_eq_value [OF dist vin v])
    then show ?thesis using xe by simp
  qed
  from find_all [where P = "\<lambda>x. target_name x = ?N" and Q = "\<lambda>x. as_expression x = e", OF ex this] show ?thesis
    by (auto simp: output_value_def)
qed

text \<open>The shape of a module with one arbiter: its ports are the endpoints, the sources come in.\<close>

definition packet_wf :: "module \<Rightarrow> packet_arbiter \<Rightarrow> bool" where
  "packet_wf m a \<longleftrightarrow> md_arbiters m = [a] \<and> distinct (map pt_name (md_ports m)) \<and>
     set (md_ports m) = insert (ar_destination a) (set (ar_sources a)) \<and> distinct (map pt_name (ar_sources a)) \<and>
     pt_name (ar_destination a) \<notin> set (map pt_name (ar_sources a)) \<and>
     list_all (\<lambda>p. pt_direction p = Input) (ar_sources a) \<and> pt_direction (ar_destination a) = Output"

lemma packet_module:
  assumes low: "lower_packet_arbiter_module digest m = Inr M" and ports: "packet_ports m \<noteq> []" and wf: "packet_wf m a"
    and dom: "owning_domain m (ar_destination a) = Some d"
  obtains rst ps where "arbiter_in M a d rst" "packet_scalars m a = Inr ps"
    "packet_assignments ps a d rst = Inr (md_assignments M)" "\<forall>p\<in>set (md_ports m). pt_protocol p = Packet"
proof -
  have arb: "md_arbiters m = [a]" using wf by (simp add: packet_wf_def)
  obtain b where b: "packet_admissible m = Inr b" using low ports by (auto simp: lower_packet_arbiter_module_def)
  then have adm: "b = a" "ar_sources a \<noteq> []" "\<forall>p\<in>set (md_ports m). pt_protocol p = Packet"
    using arb by (auto simp: packet_admissible_def Let_def list_ex_iff split: if_splits)
  obtain rst where rst: "clock_reset m d = Some rst" "packet_clock m a = Inr (d, rst)"
    using low ports b adm(1) dom by (auto simp: lower_packet_arbiter_module_def packet_clock_def split: option.splits)
  obtain ps as s scs where ps: "packet_scalars m a = Inr ps" "packet_assignments ps a d rst = Inr as"
    and fin: "finalize_module (packet_lowering (arb_values a d rst)) (m\<lparr>md_retained := map packet_keeps (md_retained m), md_arbiters := []\<rparr>)
      ps as (arb_registers a d) (arb_nexts a d rst) (scs @ [s]) = Inr M"
    using low ports b adm(1) rst(2) by (auto simp: lower_packet_arbiter_module_def Let_def)
  obtain fs where M: "M = m\<lparr>md_arbiters := [], md_ports := ps, md_assignments := as, md_registers := arb_registers a d,
      md_next := arb_nexts a d rst, md_scopes := scs @ [s], md_linked := False, md_retained := fs\<rparr>"
    using fin by (auto simp: finalize_module_def)
  have "md_clock M = md_clock m" "md_reset M = md_reset m" "md_domains M = md_domains m" unfolding M by simp_all
  then have "clock_reset M d = Some rst" using rst(1) by (metis clock_reset_def)
  then have "arbiter_in M a d rst" using adm(2) unfolding arbiter_in_def M by simp
  then show thesis using that ps adm(3) unfolding M by simp
qed

lemma ready_value_in:
  assumes "distinct (map pt_name (ar_sources a))" "i < source_count a"
  shows "((pt_name (ar_sources a ! i), PacketSignal PkReady), arb_ready a d rst i) \<in> set (arb_values a d rst)"
proof -
  let ?C = "map (\<lambda>(i, p). ((pt_name p, PacketSignal PkReady), arb_ready a d rst i)) (enumerate 0 (ar_sources a))"
  have "map fst ?C = map (\<lambda>n. (n, PacketSignal PkReady)) (map pt_name (ar_sources a))"
    by (rule nth_equalityI) (simp_all add: nth_enumerate_eq)
  then have "distinct (map fst ?C)" using assms(1) by (simp add: distinct_map inj_on_def del: map_map)
  then have "map_of (rev ?C) = map_of ?C" "distinct (map fst ?C)" by (simp_all add: map_of_rev_distinct del: map_map)
  moreover have "((pt_name (ar_sources a ! i), PacketSignal PkReady), arb_ready a d rst i) \<in> set ?C"
    using assms(2) by (auto simp: in_set_enumerate_eq intro!: rev_image_eqI [of "(i, ar_sources a ! i)"])
  ultimately have "map_of (rev ?C) (pt_name (ar_sources a ! i), PacketSignal PkReady) = Some (arb_ready a d rst i)"
    by (simp only: map_of_is_SomeI)
  then have "map_of (arb_values a d rst) (pt_name (ar_sources a ! i), PacketSignal PkReady) = Some (arb_ready a d rst i)"
    unfolding arb_values_def Let_def map_of_dict_of rev_append map_of_append map_add_assoc [symmetric] by (simp add: map_add_find_right)
  then show ?thesis by (rule map_of_SomeD)
qed

lemma destination_value_in:
  "((pt_name (ar_destination a), PacketSignal PkValid), arb_valid a d rst) \<in> set (arb_values a d rst)"
  "((pt_name (ar_destination a), PacketSignal PkLast), arb_last a d rst) \<in> set (arb_values a d rst)"
  "((pt_name (ar_destination a), PacketSignal PkPayload), arb_payload a d rst) \<in> set (arb_values a d rst)"
proof -
  let ?dest = "pt_name (ar_destination a)"
  let ?C = "map (\<lambda>(i, p). ((pt_name p, PacketSignal PkReady), arb_ready a d rst i)) (enumerate 0 (ar_sources a))"
  have none: "map_of (rev ?C) (?dest, PacketSignal s) = None" if "s \<noteq> PkReady" for s
    unfolding map_of_eq_None_iff using that by auto
  have look: "map_of (arb_values a d rst) (?dest, PacketSignal s) = Some e"
    if "s \<noteq> PkReady" "map_of (rev [((?dest, PacketSignal PkReady), packet_read PkReady (ar_destination a)),
         ((?dest, PacketSignal PkPayload), arb_payload a d rst), ((?dest, PacketSignal PkValid), arb_valid a d rst),
         ((?dest, PacketSignal PkLast), arb_last a d rst)]) (?dest, PacketSignal s) = Some e" for s e
    using that none [OF that(1)] unfolding arb_values_def Let_def map_of_dict_of rev_append map_of_append
    by (simp add: map_add_def)
  show "((?dest, PacketSignal PkValid), arb_valid a d rst) \<in> set (arb_values a d rst)"
    "((?dest, PacketSignal PkLast), arb_last a d rst) \<in> set (arb_values a d rst)"
    "((?dest, PacketSignal PkPayload), arb_payload a d rst) \<in> set (arb_values a d rst)"
    by (rule map_of_SomeD, rule look; simp)+
qed

definition field_of :: "packet_signal \<Rightarrow> port \<Rightarrow> string" where
  "field_of s p = protocol_field_name (pt_name p) (packet_value s)"

lemma wire_outputs:
  assumes wf: "packet_wf m a" and ps: "packet_scalars m a = Inr ps" "\<forall>p\<in>set (md_ports m). pt_protocol p = Packet"
    and as: "packet_assignments ps a d rst = Inr (md_assignments M)"
  shows "i < source_count a \<Longrightarrow> output_value M (field_of PkReady (ar_sources a ! i)) ins regs = den (wire_env ins regs) (arb_ready a d rst i)"
    and "output_value M (field_of PkValid (ar_destination a)) ins regs = den (wire_env ins regs) (arb_valid a d rst)"
    and "output_value M (field_of PkLast (ar_destination a)) ins regs = den (wire_env ins regs) (arb_last a d rst)"
    and "output_value M (field_of PkPayload (ar_destination a)) ins regs = den (wire_env ins regs) (arb_payload a d rst)"
proof -
  have only: "q = p" if "p \<in> set (md_ports m)" "q \<in> set (md_ports m)" "pt_name q = pt_name p" for p q
    using wf that by (auto simp: packet_wf_def distinct_map dest: inj_onD)
  have out: "\<forall>x\<in>set ps. pt_name x = protocol_field_name (pt_name p) (packet_value s) \<longrightarrow> pt_direction x = Output"
    if "p \<in> set (md_ports m)" "(pt_direction p = Input) = (s = PkReady)" for p s
    using packet_wire_direction [OF ps] only that by metis
  have src: "ar_sources a ! i \<in> set (md_ports m) \<and> pt_direction (ar_sources a ! i) = Input" if "i < source_count a"
    using wf that by (auto simp: packet_wf_def list_all_iff)
  have dest: "ar_destination a \<in> set (md_ports m) \<and> pt_direction (ar_destination a) = Output" using wf by (simp add: packet_wf_def)
  have dist: "distinct (map pt_name (ar_sources a))" using wf by (simp add: packet_wf_def)
  show "i < source_count a \<Longrightarrow> output_value M (field_of PkReady (ar_sources a ! i)) ins regs = den (wire_env ins regs) (arb_ready a d rst i)"
    unfolding field_of_def by (rule packet_output [OF as ready_value_in [OF dist]])
      (use out [of "ar_sources a ! i" PkReady] src in simp_all)
  show "output_value M (field_of PkValid (ar_destination a)) ins regs = den (wire_env ins regs) (arb_valid a d rst)"
    "output_value M (field_of PkLast (ar_destination a)) ins regs = den (wire_env ins regs) (arb_last a d rst)"
    "output_value M (field_of PkPayload (ar_destination a)) ins regs = den (wire_env ins regs) (arb_payload a d rst)"
    unfolding field_of_def
    using packet_output [OF as destination_value_in(1)] packet_output [OF as destination_value_in(2)]
      packet_output [OF as destination_value_in(3)] out [of "ar_destination a" PkValid]
      out [of "ar_destination a" PkLast] out [of "ar_destination a" PkPayload] dest by simp_all
qed

section \<open>Runs\<close>

text \<open>The beats of a cycle: the sources whose \<open>ready\<close> wire is high, each with its \<open>last\<close> field.\<close>

definition beats :: "module \<Rightarrow> packet_arbiter \<Rightarrow> valuation \<Rightarrow> valuation \<Rightarrow> (nat \<times> bool) list" where
  "beats M a ins regs = concat (map (\<lambda>i. if output_value M (field_of PkReady (ar_sources a ! i)) ins regs \<noteq> 0
     then [(i, field_high ins PkLast (ar_sources a ! i))] else []) [0..<source_count a])"

text \<open>Runs with the beats transferred since the last reset of the arbiter's clock \<open>d\<close>.\<close>

inductive packet_run :: "module \<Rightarrow> packet_arbiter \<Rightarrow> string \<Rightarrow> valuation \<Rightarrow> (nat \<times> bool) list \<Rightarrow> bool" for M a d where
  begins: "starts M regs \<Longrightarrow> packet_run M a d regs []"
| ticks: "packet_run M a d regs tr \<Longrightarrow> clock_edge M d' ins regs regs' \<Longrightarrow>
    tr' = (if d' \<noteq> d then tr else if reset_active M ins d then [] else tr @ beats M a ins regs) \<Longrightarrow>
    packet_run M a d regs' tr'"

text \<open>
  Runs along which source \<open>i\<close> keeps offering a beat and none of its beats is taken, with the number
  of grants that were completed meanwhile.
\<close>

inductive starving :: "module \<Rightarrow> packet_arbiter \<Rightarrow> string \<Rightarrow> nat \<Rightarrow> valuation \<Rightarrow> nat \<Rightarrow> bool" for M a d i where
  begins: "packet_run M a d regs tr \<Longrightarrow> starving M a d i regs 0"
| ticks: "starving M a d i regs k \<Longrightarrow> clock_edge M d ins regs regs' \<Longrightarrow> \<not> reset_active M ins d \<Longrightarrow>
    field_high ins PkValid (ar_sources a ! i) \<Longrightarrow> i \<notin> fst ` set (beats M a ins regs) \<Longrightarrow>
    k' = k + length (filter (\<lambda>b. ar_scope a = BeatGrant \<or> snd b) (beats M a ins regs)) \<Longrightarrow>
    starving M a d i regs' k'"
| passes: "starving M a d i regs k \<Longrightarrow> clock_edge M d' ins regs regs' \<Longrightarrow> d' \<noteq> d \<Longrightarrow> starving M a d i regs' k"

lemma concat_singles:
  "concat (map (\<lambda>i. if P \<and> c = i then [f i] else []) [0..<n]) = (if P \<and> c < n then [f c] else [])"
  by (induction n) auto

text \<open>The wires of the endpoints carry the expressions of the arbiter.\<close>

definition drives :: "module \<Rightarrow> packet_arbiter \<Rightarrow> string \<Rightarrow> string \<Rightarrow> bool" where
  "drives M a d rst \<longleftrightarrow> (\<forall>ins regs.
     (\<forall>i < source_count a. output_value M (field_of PkReady (ar_sources a ! i)) ins regs = den (wire_env ins regs) (arb_ready a d rst i)) \<and>
     output_value M (field_of PkValid (ar_destination a)) ins regs = den (wire_env ins regs) (arb_valid a d rst) \<and>
     output_value M (field_of PkLast (ar_destination a)) ins regs = den (wire_env ins regs) (arb_last a d rst) \<and>
     output_value M (field_of PkPayload (ar_destination a)) ins regs = den (wire_env ins regs) (arb_payload a d rst))"

lemma beats_value:
  assumes M: "arbiter_in M a d rst" and out: "drives M a d rst"
    and ok: "view_ok a regs" and up: "\<not> reset_active M ins d"
  shows "beats M a ins regs = beat_of (ar_policy a) (source_count a) (arb_input a ins) (arb_view a regs)"
proof -
  have n: "0 < source_count a" and low: "reset_low ins rst"
    using M up reset_low_active [of M d rst ins] by (auto simp: arbiter_in_def)
  have c: "arb_choice a ins regs < source_count a" by (rule choice_in_range [OF n ok])
  have "beats M a ins regs = concat (map (\<lambda>i. if arb_moves a ins regs \<and> arb_choice a ins regs = i
      then [(i, field_high ins PkLast (ar_sources a ! i))] else []) [0..<source_count a])"
    unfolding beats_def using out [unfolded drives_def] transfer_value(4) [OF n ok, of ins d rst] low
    by (intro arg_cong [where f = concat] map_cong) auto
  then show ?thesis unfolding concat_singles beat_of_def using c by (simp add: arb_input_def)
qed

lemma starts_view:
  assumes "arbiter_in M a d rst" "starts M regs"
  shows "view_ok a regs" "arb_view a regs = arb_reset"
proof -
  have z: "r \<in> set (arb_registers a d) \<Longrightarrow> initial_of r = Some 0 \<Longrightarrow> regs (rg_name r) = 0" for r
    using assms unfolding starts_def arbiter_in_def list_all_iff by fastforce
  have i: "initial_of (active_register d) = Some 0" "initial_of (owner_register a d) = Some 0"
    "initial_of (priority_register a d) = Some 0"
    by (simp_all add: initial_of_def packet_register_defs)
  have "regs active_name = 0" "regs owner_name = 0" "ar_policy a = RoundRobin \<Longrightarrow> regs priority_name = 0"
    using z [OF _ i(1)] z [OF _ i(2)] z [OF _ i(3)] by (simp_all add: arb_registers_def)
  then show "view_ok a regs" "arb_view a regs = arb_reset"
    using assms(1) by (auto simp: view_ok_def arb_view_def arb_reset_def arbiter_in_def)
qed

text \<open>What the theorems assume of a module, its arbiter and the clock of its destination.\<close>

definition arbiter_module :: "(string \<Rightarrow> string) \<Rightarrow> module \<Rightarrow> packet_arbiter \<Rightarrow> module \<Rightarrow> string \<Rightarrow> bool" where
  "arbiter_module digest m a M d \<longleftrightarrow> lower_packet_arbiter_module digest m = Inr M \<and> packet_ports m \<noteq> [] \<and> packet_wf m a \<and>
     owning_domain m (ar_destination a) = Some d"

lemma arbiter_module_facts:
  assumes "arbiter_module digest m a M d"
  shows "\<exists>rst. arbiter_in M a d rst \<and> drives M a d rst"
proof -
  have low: "lower_packet_arbiter_module digest m = Inr M" "packet_ports m \<noteq> []" "packet_wf m a"
    "owning_domain m (ar_destination a) = Some d" using assms by (simp_all add: arbiter_module_def)
  obtain rst ps where a: "arbiter_in M a d rst" and ps: "packet_scalars m a = Inr ps" "\<forall>p\<in>set (md_ports m). pt_protocol p = Packet"
    "packet_assignments ps a d rst = Inr (md_assignments M)"
    by (rule packet_module [OF low])
  have "drives M a d rst" unfolding drives_def using wire_outputs [OF low(3) ps] by simp
  then show ?thesis using a by blast
qed

lemma packet_run_view:
  assumes am: "arbiter_module digest m a M d" and run: "packet_run M a d regs tr"
  shows "view_ok a regs \<and> (ar_scope a = PacketGrant \<longrightarrow> held (arb_view a regs) tr \<and> contiguous tr)"
proof -
  obtain rst where M: "arbiter_in M a d rst" and out: "drives M a d rst"
    using arbiter_module_facts [OF am] by blast
  from run show ?thesis
  proof (induction rule: packet_run.induct)
    case (begins regs)
    then show ?case using starts_view [OF M] by (simp add: held_def contiguous_def)
  next
    case (ticks regs tr d' ins regs' tr')
    then have ok: "view_ok a regs" by simp
    note step = arbiter_edge [OF M ok ticks.hyps(2)]
    show ?case
    proof (cases "d' = d \<and> \<not> reset_active M ins d")
      case True
      then have tr': "tr' = tr @ beat_of (ar_policy a) (source_count a) (arb_input a ins) (arb_view a regs)"
        using ticks.hyps(3) beats_value [OF M out ok] by simp
      have "ar_scope a = PacketGrant \<longrightarrow> held (arb_view a regs') tr' \<and> contiguous tr'"
        using ticks.IH packets_kept step True unfolding tr' by auto
      then show ?thesis using step by simp
    next
      case False
      then show ?thesis using step ticks.hyps(3) ticks.IH by (auto simp: held_def contiguous_def)
    qed
  qed
qed

section \<open>Properties\<close>

text \<open>
  C12: the lowered arbiter refines the specification: at every edge outside reset the registers of
  the grant make its step, exactly the chosen source sees \<open>ready\<close> when a beat is transferred, and
  the destination sees the chosen source's \<open>valid\<close>, \<open>last\<close> and payload.
\<close>

theorem packet_arbiter_refines:
  assumes "arbiter_module digest m a M d" "packet_run M a d regs tr" "clock_edge M d ins regs regs'" "\<not> reset_active M ins d"
  defines "n \<equiv> source_count a" and "i \<equiv> arb_input a ins" and "s \<equiv> arb_view a regs"
  shows "arb_view a regs' = arb_step (ar_policy a) (ar_scope a) n i s \<and>
    (\<forall>k<n. output_value M (field_of PkReady (ar_sources a ! k)) ins regs =
      of_bool (moves (ar_policy a) n i s \<and> choice (ar_policy a) n i s = k)) \<and>
    output_value M (field_of PkValid (ar_destination a)) ins regs =
      of_bool (granted (ar_policy a) n i s \<and> ai_valid i ! choice (ar_policy a) n i s) \<and>
    (granted (ar_policy a) n i s \<longrightarrow>
      output_value M (field_of PkLast (ar_destination a)) ins regs = of_bool (ai_last i ! choice (ar_policy a) n i s) \<and>
      output_value M (field_of PkPayload (ar_destination a)) ins regs =
        den (wire_env ins regs) (packet_read PkPayload (ar_sources a ! choice (ar_policy a) n i s)))"
proof -
  obtain rst where M: "arbiter_in M a d rst" and "drives M a d rst"
    using arbiter_module_facts [OF assms(1)] by blast
  note out = this(2) [unfolded drives_def, rule_format, of ins regs]
  have ok: "view_ok a regs" using packet_run_view [OF assms(1,2)] by blast
  have n: "0 < source_count a" and low: "reset_low ins rst"
    using M assms(4) reset_low_active [of M d rst ins] by (auto simp: arbiter_in_def)
  have c: "arb_choice a ins regs < source_count a" by (rule choice_in_range [OF n ok])
  note v = transfer_value [OF n ok, of ins d rst]
  have "arb_view a regs' = arb_step (ar_policy a) (ar_scope a) n i s"
    using arbiter_edge [OF M ok assms(3)] assms(4) unfolding n_def i_def s_def by simp
  moreover have "\<forall>k<n. output_value M (field_of PkReady (ar_sources a ! k)) ins regs =
      of_bool (moves (ar_policy a) n i s \<and> choice (ar_policy a) n i s = k)"
    using out v(4) low unfolding n_def i_def s_def by simp
  moreover have "output_value M (field_of PkValid (ar_destination a)) ins regs =
      of_bool (granted (ar_policy a) n i s \<and> ai_valid i ! choice (ar_policy a) n i s)"
    unfolding n_def i_def s_def using out v(1) low c by (simp add: arb_input_def)
  moreover have "granted (ar_policy a) n i s \<longrightarrow>
      output_value M (field_of PkLast (ar_destination a)) ins regs = of_bool (ai_last i ! choice (ar_policy a) n i s) \<and>
      output_value M (field_of PkPayload (ar_destination a)) ins regs =
        den (wire_env ins regs) (packet_read PkPayload (ar_sources a ! choice (ar_policy a) n i s))"
    unfolding n_def i_def s_def using out v(5,6) low c by (simp add: arb_input_def)
  ultimately show ?thesis by blast
qed

text \<open>
  C13: under packet grants the packets of different sources are not interleaved: in every run, after
  a beat that is not the last of its packet the next beat comes from the same source.
\<close>

theorem packets_not_interleaved:
  assumes "arbiter_module digest m a M d" "ar_scope a = PacketGrant" "packet_run M a d regs tr"
    and "Suc k < length tr" "\<not> snd (tr ! k)"
  shows "fst (tr ! Suc k) = fst (tr ! k)"
  using packet_run_view [OF assms(1,3)] assms(2,4,5) by (simp add: contiguous_def)

text \<open>
  C14: round robin starves no source: while a source keeps offering a beat and none is taken, at
  most as many grants complete as there are sources.
\<close>

theorem round_robin_fair:
  assumes "arbiter_module digest m a M d" "ar_policy a = RoundRobin" "i < source_count a" "starving M a d i regs k"
  shows "k \<le> source_count a"
proof -
  obtain rst where M: "arbiter_in M a d rst" and out: "drives M a d rst"
    using arbiter_module_facts [OF assms(1)] by blast
  have n: "0 < source_count a" using M by (simp add: arbiter_in_def)
  have "view_ok a regs \<and> k + wait (source_count a) i (arb_view a regs) \<le> source_count a"
    using assms(4)
  proof (induction rule: starving.induct)
    case (begins regs tr)
    then show ?case using packet_run_view [OF assms(1)] wait_bound [OF n] by simp
  next
    case (passes regs k d' ins regs')
    then show ?case using arbiter_edge [OF M _ passes.hyps(2)] by simp
  next
    case (ticks regs k ins regs' k')
    let ?n = "source_count a" and ?i = "arb_input a ins" and ?s = "arb_view a regs"
    have ok: "view_ok a regs" using ticks.IH by simp
    note step = arbiter_edge [OF M ok ticks.hyps(2)]
    have b: "beats M a ins regs = beat_of RoundRobin ?n ?i ?s"
      using beats_value [OF M out ok ticks.hyps(3)] assms(2) by simp
    have "ai_valid ?i ! i" using ticks.hyps(4) assms(3) by (simp add: arb_input_def)
    moreover have "\<not> (moves RoundRobin ?n ?i ?s \<and> choice RoundRobin ?n ?i ?s = i)"
      using ticks.hyps(5) unfolding b by (auto simp: beat_of_def)
    ultimately have "wait ?n i (arb_step RoundRobin (ar_scope a) ?n ?i ?s) + of_bool (completes RoundRobin (ar_scope a) ?n ?i ?s)
        \<le> wait ?n i ?s"
      by (rule wait_decreases [OF view_wf [OF n ok] assms(3)])
    moreover have "length (filter (\<lambda>b. ar_scope a = BeatGrant \<or> snd b) (beats M a ins regs)) =
        of_bool (completes RoundRobin (ar_scope a) ?n ?i ?s)"
      unfolding b by (auto simp: beat_of_def completes_def)
    ultimately show ?case using ticks.IH ticks.hyps(3,6) step assms(2) by simp
  qed
  then show ?thesis by simp
qed

section \<open>An arbiter of two sources\<close>

definition packet_port :: "port_direction \<Rightarrow> string \<Rightarrow> port" where
  "packet_port dir n = \<lparr>pt_direction = dir, pt_name = n, pt_type = UIntType 8, pt_protocol = Packet,
     pt_capacity = None, pt_domain = None, pt_channels = None\<rparr>"

definition two_arbiter :: packet_arbiter where
  "two_arbiter = \<lparr>ar_sources = [packet_port Input ''a'', packet_port Input ''b''], ar_destination = packet_port Output ''tx'',
     ar_policy = RoundRobin, ar_scope = PacketGrant\<rparr>"

definition two_module :: module where
  "two_module = (leaf_module ''Two'' [packet_port Input ''a'', packet_port Input ''b'', packet_port Output ''tx''] [])
     \<lparr>md_domains := [\<lparr>cd_clock = ''clk'', cd_reset = ''rst''\<rparr>], md_arbiters := [two_arbiter]\<rparr>"

definition two_lowered :: module where
  "two_lowered = projr (lower_packet_arbiter_module (\<lambda>t. t) two_module)"

text \<open>Both sources offer a beat and the destination takes it; \<open>l\<close> says whether \<open>a\<close> ends its packet.\<close>

definition offer :: "bool \<Rightarrow> valuation" where
  "offer l = (\<lambda>n. of_bool (n \<in> {''$zlang_protocol:a:valid'', ''$zlang_protocol:b:valid'', ''$zlang_protocol:tx:ready''} \<or>
     l \<and> n = ''$zlang_protocol:a:last''))"

definition two_edge :: "bool \<Rightarrow> valuation \<Rightarrow> valuation" where
  "two_edge l regs = after_edge two_lowered ''clk'' (offer l) regs"

lemma two_arbiter_module: "arbiter_module (\<lambda>t. t) two_module two_arbiter two_lowered ''clk''"
  unfolding arbiter_module_def by (intro conjI) code_simp+

lemma two_start: "packet_run two_lowered two_arbiter ''clk'' (\<lambda>_. 0) []"
  by (rule packet_run.begins) code_simp

lemma two_step: "clock_edge two_lowered ''clk'' (offer l) (\<lambda>_. 0) (two_edge l (\<lambda>_. 0))"
  unfolding two_edge_def by (rule clock_edge.edge) (cases l; simp only:; code_simp)

lemma two_first: "packet_run two_lowered two_arbiter ''clk'' (two_edge False (\<lambda>_. 0)) [(0, False)]"
  by (rule packet_run.ticks [OF two_start two_step]) code_simp

lemma two_second: "packet_run two_lowered two_arbiter ''clk'' (two_edge True (two_edge False (\<lambda>_. 0))) [(0, False), (0, True)]"
proof (rule packet_run.ticks [OF two_first])
  show "clock_edge two_lowered ''clk'' (offer True) (two_edge False (\<lambda>_. 0)) (two_edge True (two_edge False (\<lambda>_. 0)))"
    unfolding two_edge_def [of True] by (rule clock_edge.edge) code_simp
qed code_simp

theorem packets_not_interleaved_witness:
  "fst ([(0::nat, False), (0, True)] ! Suc 0) = fst ([(0::nat, False), (0, True)] ! 0)"
  by (rule packets_not_interleaved [OF two_arbiter_module _ two_second]) code_simp+

theorem packet_arbiter_refines_witness:
  "arb_view two_arbiter (two_edge True (\<lambda>_. 0)) =
     arb_step RoundRobin PacketGrant 2 (arb_input two_arbiter (offer True)) (arb_view two_arbiter (\<lambda>_. 0))"
proof -
  have "\<not> reset_active two_lowered (offer True) ''clk''" by code_simp
  from conjunct1 [OF packet_arbiter_refines [OF two_arbiter_module two_start two_step this]] show ?thesis
    by (simp add: two_arbiter_def numeral_2_eq_2)
qed

lemma two_starving: "starving two_lowered two_arbiter ''clk'' 1 (two_edge True (\<lambda>_. 0)) 1"
  by (rule starving.ticks [OF starving.begins [OF two_start] two_step]) code_simp+

theorem round_robin_fair_witness: "(1::nat) \<le> source_count two_arbiter"
  by (rule round_robin_fair [OF two_arbiter_module _ _ two_starving]) code_simp+

end
