(* ===== verification/Spec2Isabelle.thy ===== *)
theory Spec2Isabelle
  imports Graph Sim_Values Numeric Fixed_Point Logic4 Comptime Reduction Constants Denote Simplify Credit_Runs Vc_Runs Packet_Runs
begin

text \<open>
Verification library of ZLang HDL, a hardware description language whose compiler is the
  Python package \<^verbatim>\<open>src/zlang\<close>.  The compiler turns source text into a typed expression and
  module representation (\<^verbatim>\<open>ir/\<close>), simplifies and optimises it, and emits RTL, simulation plans
  and proof obligations.  The library models the layers on which all of these agree: the
  hardware types, the values of each type and their bit layout, the rules that type and
  evaluate an expression, and the transformations that must not change its value.

  \<^bold>\<open>Conventions.\<close>  A Python class is a record or a constructor of a datatype; a class with a
  \<^verbatim>\<open>__post_init__\<close> has a validating function \<open>mk_...\<close> that performs its checks in order.  A
  raised exception is the \<open>Inl\<close> of a sum (\<open>bindE\<close>, \<open>mapE\<close>, \<open>foldE\<close> of \<open>Zl_Prelude\<close> sequence
  them), with one constructor per message.  A dict is an association list or a map, a set of
  names a list without duplicates.  Python integers are unbounded and are \<open>int\<close>; a hardware
  width is explicit, and wrap-around is written with \<open>mod 2 ^ w\<close> or \<open>AND ones w\<close>, as in the
  code.  Source locations, which no operation compares, are left out.

  \<^bold>\<open>Data.\<close>  \<open>Hw_Types\<close>: hardware types and their constructors (\<^verbatim>\<open>ir/types.py\<close>); a type is built by
  the constructors iff it is well formed.  \<open>Runtime_Values\<close>: membership, zero, normalisation and
  reshaping of values (\<^verbatim>\<open>ir/runtime_values.py\<close>).  \<open>Packing\<close>: the packed layout (\<^verbatim>\<open>ir/packing.py\<close>);
  packing and unpacking are inverse, and fields, elements and union payloads lie where the
  offset functions say.  \<open>Codec\<close> states the codec contract as locales; \<open>Packing\<close> and
  \<open>Sim_Values\<close> (\<^verbatim>\<open>simulation_values.py\<close>, \<^verbatim>\<open>simulation_primitives.py\<close>) interpret them, and the
  value boundary of the simulator is shown to agree with the packed layout.  \<open>Logic4\<close>:
  four-state words (\<^verbatim>\<open>simulation_logic.py\<close>).

  \<^bold>\<open>Arithmetic.\<close>  \<open>Numeric\<close>: operator typing (\<^verbatim>\<open>ir/numeric.py\<close>); sums, products and signed
  differences are exact in the result type.  \<open>Fixed_Point\<close>: rounding and overflow policies
  (\<^verbatim>\<open>fixed_point.py\<close>).  \<open>Reduction\<close>: schedules of exact reductions (\<^verbatim>\<open>ir/functional_regions.py\<close>);
  the builder never trips its own checks and its schedule computes the midpoint tree.

  \<^bold>\<open>Expressions.\<close>  \<open>Comptime\<close>: integer expressions over region binders, their evaluation and their
  interval (\<^verbatim>\<open>ir/functional_regions.py\<close>).  \<open>Exprs\<close>: typed expressions and their validation, down
  to functional regions (\<^verbatim>\<open>ir/expressions.py\<close>).  \<open>Constants\<close>: the evaluator of
  specialisation-time constants (\<^verbatim>\<open>ir/constants.py\<close>).  It takes the recursion depth as a bound
  and reports \<open>RecursionLimit\<close> when it is exhausted; a well-typed closed expression evaluates
  at every depth from some point on, and a table that refers to itself at none.  \<open>Denote\<close>:
  the value of a typed scalar expression, the specification for what follows.  \<open>Simplify\<close>:
  local simplification and folding (\<^verbatim>\<open>ir/exact_simplification.py\<close>, the node folding of
  \<^verbatim>\<open>ir/normalization.py\<close>, the numeric signatures of \<^verbatim>\<open>semantic/expression_operators.py\<close>).

  \<^bold>\<open>Graphs.\<close>  \<open>Graph\<close>: dependency order and reachability index (\<^verbatim>\<open>common/graph.py\<close>), over the
  locale \<open>finite_graph\<close>.

  \<^bold>\<open>Protocols.\<close>  The simulation plan of a module with protocol endpoints is made by rewriting the
  module: the references to an endpoint become private scalar ports, a private counter and
  run-time checks.  \<open>Protocol\<close>: ports, registers and modules as far as these lowerings read
  them, private names, scalar fields and resets (\<^verbatim>\<open>simulation_protocol_shared.py\<close>,
  \<^verbatim>\<open>ir/interfaces.py\<close>).  \<open>Lowering\<close>: the rewriter (\<^verbatim>\<open>simulation_rewrite.py\<close>) for any protocol; the
  locale \<open>endpoint_rules\<close> states what a protocol owes, and gives that no reference remains and
  that values are kept.  The code's recursion guard is the set of signals being resolved, which
  is also the termination measure.  \<open>Credit\<close>: credit endpoints (\<^verbatim>\<open>simulation_credit.py\<close>), which
  interpret the locale; \<open>Vc_Credit\<close>: endpoints with virtual channels
  (\<^verbatim>\<open>simulation_vc_credit.py\<close>), its second interpretation.  \<open>Clocking\<close>: one edge of a clock domain as a step relation over the
  registers (\<^verbatim>\<open>simulation_edge_lowering.py\<close>).  \<open>Counters\<close>: the counter of an endpoint along a
  run of such edges.  \<open>Credit_Runs\<close>: what the credit counters count, their bounds and that a
  sender always drains.  \<open>Vc_Runs\<close>: the same for the counter of each virtual channel, and
  for the channels of an endpoint together.  The checks of a module are the goals of its
  verification scopes (\<^verbatim>\<open>ir/verification.py\<close>), those of the source and one scope of the
  lowering for each endpoint: an edge is possible when every goal but the covers holds, outside
  reset and where the requirements of its scope hold.
  \<open>Packet\<close>: packet arbiters (\<^verbatim>\<open>simulation_packet.py\<close>, \<^verbatim>\<open>ir/arbitration.py\<close>).  \<open>Arbiter\<close> is their
  specification, a machine of three values with its two promises; \<open>Packet_Edges\<close> shows that the
  lowered registers follow it and \<open>Packet_Runs\<close> that the wires of every run do: packets are not
  interleaved and round robin starves no source.

  \<^bold>\<open>Defects the model exhibits.\<close>  \<open>Credit_Runs.credit_receiver_rejects_early\<close>,
  \<open>Sim_Values.foreign_union_exceeds_width\<close>,
  \<open>Constants.self_referential_table_diverges\<close> and \<open>Simplify.narrow_mask_misfolds\<close>.

  \<^bold>\<open>Not modelled.\<close>  Parsing, name resolution and elaboration, the module and hierarchy records,
  pipeline scheduling, the equality-saturation search (a third-party engine), the native
  simulation engine, memories and FIFOs at a clock edge, synchronised reset release, ready/valid,
  request/response and hierarchical endpoints, the formal back ends, the RTL text generation and all tooling around
  projects, caches, command line and editors.  They are pure input and output, or rest on
  programs that are not part of the sources, or are planned next.
\<close>

end
